(* ===== verification/Kernel_Prelude.thy ===== *)
theory Kernel_Prelude
  imports Main "HOL-Library.Word" "HOL-Library.Monad_Syntax"
begin

text \<open>
  The shared vocabulary of the development: the machine integers of the C sources as
  fixed-width words, the byte-addressed memory that the kernel reaches through its identity
  mapping, little-endian loads and stores of the widths that the C code uses, address regions,
  and the generic lemmas on them that the component theories use.
\<close>

unbundle bit_operations_syntax

type_synonym u8 = "8 word"
type_synonym u16 = "16 word"
type_synonym u32 = "32 word"
type_synonym u64 = "64 word"

type_synonym memory = "u64 \<Rightarrow> u8"

named_theorems region_simps \<open>membership in address regions as arithmetic on \<open>unat\<close>\<close>
named_theorems frame_simps \<open>what an operation leaves alone\<close>

section \<open>Words\<close>

lemma unat64_lt: "unat (x :: u64) < 2 ^ 64"
  using unsigned_less [of x] by simp

text \<open>The same bound as the simplifier writes it.\<close>

lemma unat64_bound: "unat (x :: u64) < 18446744073709551616" "unat (x :: u64) \<le> 18446744073709551616"
  using unat64_lt [of x] by simp_all

lemma unat64_le: "unat (x :: u64) \<le> 2 ^ 64"
  using unat64_lt [of x] by simp

lemma unat64_div_page: "unat (x :: u64) div 4096 < 2 ^ 52"
  using unat64_lt [of x] by (simp add: less_mult_imp_div_less)

lemma unat64_of_nat: "n < 2 ^ 64 \<Longrightarrow> unat (of_nat n :: u64) = n"
  by (simp add: unsigned_of_nat take_bit_nat_eq_self)

lemma of_nat_u64_inj: "a < 2 ^ 64 \<Longrightarrow> b < 2 ^ 64 \<Longrightarrow> (of_nat a :: u64) = of_nat b \<longleftrightarrow> a = b"
  by (metis unat64_of_nat)

section \<open>Regions\<close>

text \<open>
  \<open>region a n\<close> is the set of the \<open>n\<close> addresses from \<open>a\<close> on, modulo \<open>2 ^ 64\<close>, as pointer
  arithmetic wraps.
\<close>

definition region :: "u64 \<Rightarrow> nat \<Rightarrow> u64 set" where
  "region a n = {b. unat (b - a) < n}"

lemma region_iff [region_simps]: "b \<in> region a n \<longleftrightarrow> unat (b - a) < n"
  by (simp add: region_def)

lemma region_0 [simp]: "region a 0 = {}"
  by (simp add: region_def)

lemma unat_diff_le:
  fixes a b :: "'a::len word"
  assumes "unat a \<le> unat b"
  shows "unat (b - a) = unat b - unat a"
  using assms by (simp add: unat_sub_if_size)

text \<open>Where the region does not wrap, membership is a comparison of the addresses.\<close>

lemma region_no_wrap:
  assumes "unat a + n \<le> 2 ^ 64"
  shows "b \<in> region a n \<longleftrightarrow> unat a \<le> unat b \<and> unat b < unat a + n"
proof -
  have "unat b < 2 ^ 64" "unat a < 2 ^ 64"
    using unsigned_less [of a] unsigned_less [of b] by simp_all
  then show ?thesis
    using assms by (cases "unat a \<le> unat b") (auto simp: region_def unat_sub_if_size word_size)
qed

lemma region_disjointI:
  assumes "unat a + n \<le> unat b" and "unat b + k \<le> 2 ^ 64"
  shows "region a n \<inter> region b k = {}"
proof -
  have *: "unat a + n \<le> 2 ^ 64" using assms by simp
  show ?thesis
    using assms(1) unfolding disjoint_iff region_no_wrap [OF *] region_no_wrap [OF assms(2)]
    by auto
qed

lemma region_mono: "n \<le> k \<Longrightarrow> region a n \<subseteq> region a k"
  by (auto simp: region_def)

text \<open>The first address of a region, and the rest of it.\<close>

lemma region_Suc:
  assumes "Suc n \<le> 2 ^ 64"
  shows "b \<in> region a (Suc n) \<longleftrightarrow> b = a \<or> b \<in> region (a + 1) n"
proof (cases "b = a")
  case True
  then show ?thesis by (simp add: region_def)
next
  case False
  then have nz: "b - a \<noteq> 0" by simp
  then have "unat (b - (a + 1)) = unat (b - a) - 1"
    using unat_minus_one [OF nz] by (simp add: diff_diff_eq)
  moreover have "unat (b - a) \<noteq> 0" using nz by (simp add: unat_eq_zero)
  ultimately have "unat (b - a) = Suc (unat (b - (a + 1)))" by simp
  with False show ?thesis by (simp add: region_def)
qed

lemma region_fst_notin_rest: "Suc n \<le> 2 ^ 64 \<Longrightarrow> a \<notin> region (a + 1) n"
  by (simp add: region_def unsigned_minus_1_eq_mask mask_eq_exp_minus_1)

lemma region_sub:
  assumes "i + k \<le> n" and "n \<le> 2 ^ 64"
  shows "region (a + of_nat i) k \<subseteq> region a n"
proof
  fix x assume x: "x \<in> region (a + of_nat i) k"
  have "k = 0 \<or> i < 2 ^ 64" using assms by auto
  then have i: "unat (of_nat i :: u64) = i" if "k \<noteq> 0"
    using that by (simp add: unsigned_of_nat take_bit_nat_eq_self_iff)
  from x have k0: "k \<noteq> 0" by (auto simp: region_def)
  have "x - a = (x - (a + of_nat i)) + of_nat i" by simp
  then have "unat (x - a) \<le> unat (x - (a + of_nat i)) + unat (of_nat i :: u64)"
    by (metis mod_less_eq_dividend unat_word_ariths(1))
  with x i [OF k0] assms(1) show "x \<in> region a n" by (simp add: region_def)
qed

lemma region_offset_disjoint:
  assumes "i + n \<le> j" and "j + k \<le> 2 ^ 64"
  shows "region (a + of_nat i) n \<inter> region (a + of_nat j :: u64) k = {}"
proof -
  have "False" if x: "x \<in> region (a + of_nat i) n" "x \<in> region (a + of_nat j) k" for x
  proof -
    define y where "y = x - a"
    have "n = 0 \<or> k = 0 \<or> (i < 2 ^ 64 \<and> j < 2 ^ 64)" using assms by auto
    with x have ij: "unat (of_nat i :: u64) = i" "unat (of_nat j :: u64) = j"
      by (auto simp: unat64_of_nat)
    have y: "unat (y - of_nat i) < n" "unat (y - of_nat j) < k"
      using x by (simp_all add: region_def y_def diff_diff_eq)
    show False
      using y ij assms unat64_lt [of y]
      by (auto simp: unat_sub_if_size word_size split: if_splits)
  qed
  then show ?thesis by blast
qed

section \<open>Little-endian loads and stores\<close>

primrec load :: "memory \<Rightarrow> u64 \<Rightarrow> nat \<Rightarrow> 'a::len word" where
  "load m a 0 = 0"
| "load m a (Suc n) = ucast (m a) OR push_bit 8 (load m (a + 1) n)"

primrec store :: "memory \<Rightarrow> u64 \<Rightarrow> nat \<Rightarrow> 'a::len word \<Rightarrow> memory" where
  "store m a 0 v = m"
| "store m a (Suc n) v = store (m(a := ucast v)) (a + 1) n (drop_bit 8 v)"

definition read16 :: "memory \<Rightarrow> u64 \<Rightarrow> u16" where "read16 m a = load m a 2"
definition read32 :: "memory \<Rightarrow> u64 \<Rightarrow> u32" where "read32 m a = load m a 4"
definition read64 :: "memory \<Rightarrow> u64 \<Rightarrow> u64" where "read64 m a = load m a 8"
definition write16 :: "memory \<Rightarrow> u64 \<Rightarrow> u16 \<Rightarrow> memory" where "write16 m a v = store m a 2 v"
definition write32 :: "memory \<Rightarrow> u64 \<Rightarrow> u32 \<Rightarrow> memory" where "write32 m a v = store m a 4 v"
definition write64 :: "memory \<Rightarrow> u64 \<Rightarrow> u64 \<Rightarrow> memory" where "write64 m a v = store m a 8 v"

lemma read16_bytes: "read16 m a = ucast (m a) OR push_bit 8 (ucast (m (a + 1)))"
  by (simp add: read16_def numeral_eq_Suc)

lemma read32_bytes:
  "read32 m a = ucast (m a) OR push_bit 8 (ucast (m (a + 1)) OR push_bit 8 (ucast (m (a + 2)) OR
     push_bit 8 (ucast (m (a + 3)))))"
  by (simp add: read32_def add.assoc numeral_eq_Suc)

lemma read64_bytes:
  "read64 m a = ucast (m a) OR push_bit 8 (ucast (m (a + 1)) OR push_bit 8 (ucast (m (a + 2)) OR
     push_bit 8 (ucast (m (a + 3)) OR push_bit 8 (ucast (m (a + 4)) OR push_bit 8 (ucast (m (a + 5)) OR
     push_bit 8 (ucast (m (a + 6)) OR push_bit 8 (ucast (m (a + 7)))))))))"
  by (simp add: read64_def add.assoc numeral_eq_Suc)

lemmas read_bytes = read16_bytes read32_bytes read64_bytes

lemma bit_load:
  "bit (load m a n :: 'a::len word) k \<longleftrightarrow>
     k < 8 * n \<and> k < LENGTH('a) \<and> bit (m (a + of_nat (k div 8))) (k mod 8)"
proof (induction n arbitrary: a k)
  case 0
  then show ?case by simp
next
  case (Suc n)
  show ?case
  proof (cases "k < 8")
    case True
    then show ?thesis
      by (auto simp: bit_or_iff bit_push_bit_iff bit_ucast_iff dest: bit_imp_le_length)
  next
    case False
    then obtain j where k: "k = j + 8" by (metis le_add_diff_inverse2 not_less)
    have "\<not> bit (m a) k" using False by (auto dest: bit_imp_le_length)
    then show ?thesis
      by (auto simp: bit_or_iff bit_push_bit_iff bit_ucast_iff Suc.IH k ac_simps div_add_self2
          dest: bit_imp_le_length)
  qed
qed

lemma store_apply:
  "n \<le> 2 ^ 64 \<Longrightarrow>
   store m a n v b = (if unat (b - a) < n then ucast (drop_bit (8 * unat (b - a)) v) else m b)"
proof (induction n arbitrary: m a v)
  case 0
  then show ?case by simp
next
  case (Suc n)
  show ?case
  proof (cases "b = a")
    case True
    then show ?thesis
      using Suc region_fst_notin_rest [OF Suc.prems, of a] by (simp add: region_def)
  next
    case False
    then have nz: "b - a \<noteq> 0" by simp
    then have "unat (b - a) = Suc (unat (b - (a + 1)))"
      using unat_minus_one [OF nz] unat_eq_zero [of "b - a"] by (simp add: diff_diff_eq)
    then show ?thesis using Suc False by (simp add: drop_bit_drop_bit algebra_simps)
  qed
qed

lemma store_outside [frame_simps]: "n \<le> 2 ^ 64 \<Longrightarrow> b \<notin> region a n \<Longrightarrow> store m a n v b = m b"
  by (simp add: store_apply region_def)

lemma load_cong:
  "(\<And>i. i < n \<Longrightarrow> m (a + of_nat i) = m' (a + of_nat i)) \<Longrightarrow>
   (load m a n :: 'a::len word) = load m' a n"
  by (rule bit_word_eqI) (auto simp: bit_load)

lemma in_region_offset: "i < n \<Longrightarrow> n \<le> 2 ^ 64 \<Longrightarrow> a + of_nat i \<in> region a n"
  by (simp add: region_def unsigned_of_nat take_bit_nat_eq_self)

lemma load_cong_region:
  assumes "n \<le> 2 ^ 64" and "\<And>b. b \<in> region a n \<Longrightarrow> m b = m' b"
  shows "(load m a n :: 'a::len word) = load m' a n"
  by (rule load_cong) (use assms in_region_offset in blast)

lemma load_store_same:
  fixes v :: "'a::len word"
  assumes n: "8 * n = LENGTH('a)" and "n \<le> 2 ^ 64"
  shows "load (store m a n v) a n = v"
proof (rule bit_word_eqI)
  fix k assume k: "k < LENGTH('a)"
  then have "k div 8 < n" using n by auto
  then have u: "unat (of_nat (k div 8) :: u64) = k div 8"
    using assms(2) by (simp add: unsigned_of_nat take_bit_nat_eq_self)
  show "bit (load (store m a n v) a n :: 'a word) k = bit v k"
    using k n \<open>k div 8 < n\<close> assms(2) u
    by (simp add: bit_load store_apply bit_ucast_iff bit_drop_bit_eq)
qed

lemma load_store_other:
  fixes v :: "'b::len word"
  assumes "n \<le> 2 ^ 64" "k \<le> 2 ^ 64" "region a n \<inter> region b k = {}"
  shows "(load (store m a n v) b k :: 'a::len word) = load m b k"
  using assms by (intro load_cong_region) (auto intro: store_outside)


section \<open>Setting and clearing one bit of a 32-bit word in memory\<close>

lemma bit_flip32:
  fixes m :: memory
  assumes "\<And>n. n < 32 \<Longrightarrow> bit v n = (if n = k then b else bit (read32 m a) n)" and "k < 32"
    and "\<And>n. n < 8 \<Longrightarrow> bit u n = (if n = k mod 8 then b else bit (m (a + of_nat (k div 8))) n)"
  shows "write32 m a v = m(a + of_nat (k div 8) := u)"
proof
  fix x
  show "write32 m a v x = (m(a + of_nat (k div 8) := u)) x"
  proof (cases "unat (x - a) < 4")
    case True
    define q where "q = unat (x - a)"
    have x: "x = a + of_nat q" by (simp add: q_def)
    have q: "q < 4" using True by (simp add: q_def)
    have eqx: "x = a + of_nat (k div 8) \<longleftrightarrow> q = k div 8"
      using q assms(2) of_nat_u64_inj [of q "k div 8"] by (simp add: x)
    have "write32 m a v x = ucast (drop_bit (8 * q) v)"
      using True by (simp add: write32_def store_apply q_def)
    moreover have "(ucast (drop_bit (8 * q) v) :: u8) = (if q = k div 8 then u else m x)"
    proof (rule bit_word_eqI)
      fix j assume "j < LENGTH(8)"
      then have j: "j < 8" by simp
      have "8 * q + j < 32" using q j by simp
      then have "bit (ucast (drop_bit (8 * q) v) :: u8) j
          = (if 8 * q + j = k then b else bit (m (a + of_nat q)) j)"
        using j by (simp add: bit_ucast_iff bit_drop_bit_eq assms(1) read32_def bit_load)
      moreover have "8 * q + j = k \<longleftrightarrow> q = k div 8 \<and> j = k mod 8"
        using j by auto
      ultimately show "bit (ucast (drop_bit (8 * q) v) :: u8) j = bit (if q = k div 8 then u else m x) j"
        using assms(3) [OF j] by (auto simp: x)
    qed
    ultimately show ?thesis using eqx by auto
  next
    case False
    have "x \<noteq> a + of_nat (k div 8)"
    proof
      assume "x = a + of_nat (k div 8)"
      then have "unat (x - a) = k div 8" using assms(2) by (simp add: unat64_of_nat)
      with False assms(2) show False by simp
    qed
    with False show ?thesis by (simp add: write32_def store_apply)
  qed
qed

lemma write32_or_bit:
  "k < 32 \<Longrightarrow> write32 m a (read32 m a OR push_bit k 1) =
     m(a + of_nat (k div 8) := set_bit (k mod 8) (m (a + of_nat (k div 8))))"
  by (rule bit_flip32 [where b = True])
    (auto simp: bit_or_iff bit_push_bit_iff bit_1_iff bit_exp_iff bit_set_bit_iff)

lemma write32_and_not_bit:
  "k < 32 \<Longrightarrow> write32 m a (read32 m a AND NOT (push_bit k 1)) =
     m(a + of_nat (k div 8) := unset_bit (k mod 8) (m (a + of_nat (k div 8))))"
  by (rule bit_flip32 [where b = False])
    (auto simp: bit_and_iff bit_not_iff bit_push_bit_iff bit_1_iff bit_exp_iff bit_unset_bit_iff)

end
