(* ===== verification/Machine.thy ===== *)
theory Machine
  imports Kernel_Prelude
begin

text \<open>
  The machine that the kernel runs on, as far as the C code can see it: physical memory, which
  the kernel addresses through an identity mapping, and the I/O ports of
  \<^verbatim>\<open>src/kernel/ports.c\<close>. A device is not part of the sources: it is a parameter of the model,
  the two functions \<open>dev8\<close> and \<open>dev16\<close> of the state, which answer a port read from the whole
  history of port accesses. The components extend the record \<open>machine\<close> with their own globals.
\<close>

datatype io_event =
    OutB u16 u8
  | InB u16 u8
  | OutW u16 u16
  | InW u16 u16

text \<open>The history \<open>io\<close> has its newest event first.\<close>

record machine =
  mem :: memory
  io :: "io_event list"
  dev8 :: "io_event list \<Rightarrow> u16 \<Rightarrow> u8"
  dev16 :: "io_event list \<Rightarrow> u16 \<Rightarrow> u16"

section \<open>Port input and output (ports.c)\<close>

definition outb :: "u16 \<Rightarrow> u8 \<Rightarrow> 'a machine_scheme \<Rightarrow> 'a machine_scheme" where
  "outb port data s = s\<lparr>io := OutB port data # io s\<rparr>"

definition inb :: "u16 \<Rightarrow> 'a machine_scheme \<Rightarrow> u8 \<times> 'a machine_scheme" where
  "inb port s = (let result = dev8 s (io s) port in (result, s\<lparr>io := InB port result # io s\<rparr>))"

definition outw :: "u16 \<Rightarrow> u16 \<Rightarrow> 'a machine_scheme \<Rightarrow> 'a machine_scheme" where
  "outw port data s = s\<lparr>io := OutW port data # io s\<rparr>"

definition inw :: "u16 \<Rightarrow> 'a machine_scheme \<Rightarrow> u16 \<times> 'a machine_scheme" where
  "inw port s = (let result = dev16 s (io s) port in (result, s\<lparr>io := InW port result # io s\<rparr>))"

section \<open>Access to memory\<close>

definition poke :: "u64 \<Rightarrow> u8 \<Rightarrow> 'a machine_scheme \<Rightarrow> 'a machine_scheme" where
  "poke a v s = s\<lparr>mem := (mem s)(a := v)\<rparr>"

definition poke32 :: "u64 \<Rightarrow> u32 \<Rightarrow> 'a machine_scheme \<Rightarrow> 'a machine_scheme" where
  "poke32 a v s = s\<lparr>mem := write32 (mem s) a v\<rparr>"

definition poke64 :: "u64 \<Rightarrow> u64 \<Rightarrow> 'a machine_scheme \<Rightarrow> 'a machine_scheme" where
  "poke64 a v s = s\<lparr>mem := write64 (mem s) a v\<rparr>"

text \<open>The bytes of an array or of a field of a packed structure.\<close>

definition bytes_at :: "u64 \<Rightarrow> nat \<Rightarrow> 'a machine_scheme \<Rightarrow> u8 list" where
  "bytes_at a n s = map (\<lambda>i. mem s (a + of_nat i)) [0..<n]"

section \<open>Frames\<close>

text \<open>
  \<open>touches A s s'\<close>: between \<open>s\<close> and \<open>s'\<close> only the I/O history and memory in \<open>A\<close> have changed.
  In particular every global variable of every component is as before.
\<close>

definition touches :: "u64 set \<Rightarrow> 'a machine_scheme \<Rightarrow> 'a machine_scheme \<Rightarrow> bool" where
  "touches A s s' \<longleftrightarrow> s' = s\<lparr>mem := mem s', io := io s'\<rparr> \<and> (\<forall>a. a \<notin> A \<longrightarrow> mem s' a = mem s a)"

lemma touches_refl [simp]: "touches A s s"
  by (simp add: touches_def)

lemma touches_mono: "touches A s s' \<Longrightarrow> A \<subseteq> B \<Longrightarrow> touches B s s'"
  by (auto simp: touches_def)

lemma touches_trans: "touches A s t \<Longrightarrow> touches A t u \<Longrightarrow> touches A s u"
  unfolding touches_def by (metis (no_types, lifting) machine.surjective machine.update_convs)

lemma touches_trans_Un: "touches A s t \<Longrightarrow> touches B t u \<Longrightarrow> touches (A \<union> B) s u"
  by (blast intro: touches_trans touches_mono)

lemma touches_mem: "touches A s s' \<Longrightarrow> a \<notin> A \<Longrightarrow> mem s' a = mem s a"
  by (simp add: touches_def)

lemma touches_eq: "touches A s s' \<Longrightarrow> s' = s\<lparr>mem := mem s', io := io s'\<rparr>"
  by (simp add: touches_def)

lemma touches_dev: "touches A s s' \<Longrightarrow> dev8 s' = dev8 s \<and> dev16 s' = dev16 s"
  by (metis touches_eq machine.select_convs(3,4) machine.surjective machine.update_convs(1,2))

lemma touches_outb [simp]: "touches A s (outb p d s)"
  and touches_outw [simp]: "touches A s (outw p w s)"
  and touches_inb [simp]: "touches A s (snd (inb p s))"
  and touches_inw [simp]: "touches A s (snd (inw p s))"
  by (simp_all add: touches_def outb_def outw_def inb_def inw_def Let_def)

lemma touches_poke: "a \<in> A \<Longrightarrow> touches A s (poke a v s)"
  by (simp add: touches_def poke_def)

lemma touches_poke32: "region a 4 \<subseteq> A \<Longrightarrow> touches A s (poke32 a v s)"
  by (auto simp: touches_def poke32_def write32_def intro!: store_outside)

lemma touches_poke64: "region a 8 \<subseteq> A \<Longrightarrow> touches A s (poke64 a v s)"
  by (auto simp: touches_def poke64_def write64_def intro!: store_outside)

lemma mem_outb [simp]: "mem (outb p d s) = mem s"
  and mem_outw [simp]: "mem (outw p w s) = mem s"
  and mem_inb [simp]: "mem (snd (inb p s)) = mem s"
  and mem_inw [simp]: "mem (snd (inw p s)) = mem s"
  by (simp_all add: outb_def outw_def inb_def inw_def Let_def)

lemma touches_fold:
  "(\<And>x s. x \<in> set xs \<Longrightarrow> touches A s (f x s)) \<Longrightarrow> touches A s (fold f xs s)"
proof (induction xs arbitrary: s)
  case Nil
  then show ?case by simp
next
  case (Cons x xs)
  have "touches A s (f x s)" "touches A (f x s) (fold f xs (f x s))"
    using Cons by auto
  then show ?case by (auto intro: touches_trans)
qed

section \<open>The ports that a step uses\<close>

primrec event_port :: "io_event \<Rightarrow> u16" where
  "event_port (OutB p v) = p"
| "event_port (InB p v) = p"
| "event_port (OutW p w) = p"
| "event_port (InW p w) = p"

text \<open>\<open>on_ports P s s'\<close>: the step adds accesses to ports in \<open>P\<close> to the history, and nothing else.\<close>

definition on_ports :: "u16 set \<Rightarrow> 'a machine_scheme \<Rightarrow> 'a machine_scheme \<Rightarrow> bool" where
  "on_ports P s s' \<longleftrightarrow> (\<exists>h. io s' = h @ io s \<and> (\<forall>e \<in> set h. event_port e \<in> P))"

lemma on_ports_same: "io s' = io s \<Longrightarrow> on_ports P s s'"
  by (simp add: on_ports_def)

lemma on_ports_trans: "on_ports P s t \<Longrightarrow> on_ports P t u \<Longrightarrow> on_ports P s u"
  unfolding on_ports_def by (metis (no_types, lifting) Un_iff append.assoc set_append)

lemma on_ports_mono: "on_ports P s s' \<Longrightarrow> P \<subseteq> Q \<Longrightarrow> on_ports Q s s'"
  unfolding on_ports_def by blast

lemma on_ports_io:
  "p \<in> P \<Longrightarrow> on_ports P s (outb p v s)" "p \<in> P \<Longrightarrow> on_ports P s (outw p w s)"
  "p \<in> P \<Longrightarrow> on_ports P s (snd (inb p s))" "p \<in> P \<Longrightarrow> on_ports P s (snd (inw p s))"
  by (auto simp: on_ports_def outb_def outw_def inb_def inw_def Let_def)

lemma on_ports_poke [simp]:
  "on_ports P s (poke a v s)" "on_ports P s (poke32 a x s)" "on_ports P s (poke64 a y s)"
  by (simp_all add: on_ports_same poke_def poke32_def poke64_def)

lemma on_ports_fold:
  "(\<And>x s. x \<in> set xs \<Longrightarrow> on_ports P s (f x s)) \<Longrightarrow> on_ports P s (fold f xs s)"
proof (induction xs arbitrary: s)
  case Nil
  then show ?case by (simp add: on_ports_same)
next
  case (Cons x xs)
  have "on_ports P s (f x s)" "on_ports P (f x s) (fold f xs (f x s))"
    using Cons by auto
  then show ?case by (auto intro: on_ports_trans)
qed

end
