(* ===== verification/Utils.thy ===== *)
theory Utils
  imports Machine
begin

text \<open>
  The string and memory helpers of \<^verbatim>\<open>src/kernel/utils.c\<close>. The ones that walk a C array with a
  fixed extent (a local buffer, a string) work on byte lists and answer with a \<open>fault\<close> where the
  C code reads or writes outside the array; \<open>memcpy\<close>, \<open>memset\<close> and \<open>strcpy\<close> into a buffer
  work on memory. \<open>char\<close> is signed, as on the target.
\<close>

datatype fault = ReadOutOfBounds | WriteOutOfBounds | DivideByZero

definition sum_bind :: "'e + 'a \<Rightarrow> ('a \<Rightarrow> 'e + 'b) \<Rightarrow> 'e + 'b" where
  "sum_bind r f = (case r of Inl e \<Rightarrow> Inl e | Inr x \<Rightarrow> f x)"

lemma sum_bind_simps [simp]: "sum_bind (Inl e) f = Inl e" "sum_bind (Inr x) f = f x"
  by (simp_all add: sum_bind_def)

text \<open>\<open>chars s\<close> is the text of a string literal; the array also holds the terminator.\<close>

definition chars :: "string \<Rightarrow> u8 list" where
  "chars s = map of_char s"

definition cstr :: "string \<Rightarrow> u8 list" where
  "cstr s = chars s @ [0]"

text \<open>The text of a C string: what stands before the terminator.\<close>

definition text_of :: "u8 list \<Rightarrow> u8 list" where
  "text_of xs = takeWhile (\<lambda>c. c \<noteq> 0) xs"

definition terminated :: "u8 list \<Rightarrow> bool" where
  "terminated xs \<longleftrightarrow> 0 \<in> set xs"

definition fetch :: "u8 list \<Rightarrow> nat \<Rightarrow> fault + u8" where
  "fetch xs i = (if i < length xs then Inr (xs ! i) else Inl ReadOutOfBounds)"

definition put :: "nat \<Rightarrow> u8 \<Rightarrow> u8 list \<Rightarrow> fault + u8 list" where
  "put i v xs = (if i < length xs then Inr (xs[i := v]) else Inl WriteOutOfBounds)"

section \<open>The functions of utils.c\<close>

fun strcmp :: "u8 list \<Rightarrow> u8 list \<Rightarrow> fault + int" where
  "strcmp (a # s1) (b # s2) =
     (if a = b then (if a = 0 then Inr 0 else strcmp s1 s2) else Inr (sint a - sint b))"
| "strcmp _ _ = Inl ReadOutOfBounds"

primrec memcpy_loop :: "memory \<Rightarrow> u64 \<Rightarrow> u64 \<Rightarrow> nat \<Rightarrow> memory" where
  "memcpy_loop m dest source 0 = m"
| "memcpy_loop m dest source (Suc n) =
     memcpy_loop (m(dest := m source)) (dest + 1) (source + 1) n"

definition memcpy :: "u64 \<Rightarrow> u64 \<Rightarrow> int \<Rightarrow> 'a machine_scheme \<Rightarrow> 'a machine_scheme" where
  "memcpy dest source nbytes s = s\<lparr>mem := memcpy_loop (mem s) dest source (nat nbytes)\<rparr>"

primrec memset_loop :: "memory \<Rightarrow> u64 \<Rightarrow> u8 \<Rightarrow> nat \<Rightarrow> memory" where
  "memset_loop m dest v 0 = m"
| "memset_loop m dest v (Suc n) = memset_loop (m(dest := v)) (dest + 1) v n"

definition memset :: "u64 \<Rightarrow> int \<Rightarrow> u64 \<Rightarrow> 'a machine_scheme \<Rightarrow> 'a machine_scheme" where
  "memset dest val count s =
     s\<lparr>mem := memset_loop (mem s) dest (word_of_int val) (unat count)\<rparr>"

definition hex_digits :: "u8 list" where
  "hex_digits = chars ''0123456789abcdef''"

text \<open>The digit loop, with \<open>k\<close> rounds to go: \<open>i = 16 - k\<close>.\<close>

primrec hex_loop :: "nat \<Rightarrow> u64 \<Rightarrow> u8 list \<Rightarrow> fault + u8 list" where
  "hex_loop 0 n str = Inr str"
| "hex_loop (Suc k) n str =
     sum_bind (put (17 - (16 - Suc k)) (hex_digits ! unat (n AND 0xf)) str)
       (\<lambda>str. hex_loop k (drop_bit 4 n) str)"

definition hex_to_ascii :: "u64 \<Rightarrow> u8 list \<Rightarrow> fault + u8 list" where
  "hex_to_ascii n str =
     sum_bind (put 0 (of_char (CHR ''0'')) str) (\<lambda>str.
     sum_bind (put 1 (of_char (CHR ''x'')) str) (\<lambda>str.
     sum_bind (hex_loop 16 n str) (\<lambda>str.
     put 18 0 str)))"

fun strlen :: "u8 list \<Rightarrow> fault + nat" where
  "strlen [] = Inl ReadOutOfBounds"
| "strlen (c # str) = (if c = 0 then Inr 0 else sum_bind (strlen str) (\<lambda>len. Inr (Suc len)))"

text \<open>The two loops of \<^verbatim>\<open>get_next_token\<close>; the index stops at the end of the array at the latest.\<close>

function skip_blanks :: "u8 list \<Rightarrow> nat \<Rightarrow> fault + nat" where
  "skip_blanks input i =
     (if i < length input then
        (if input ! i = 32 then skip_blanks input (Suc i) else Inr i)
      else Inl ReadOutOfBounds)"
  by pat_completeness auto
termination
  by (relation "measure (\<lambda>(input, i). length input - i)") auto

function copy_token ::
  "u8 list \<Rightarrow> u8 list \<Rightarrow> nat \<Rightarrow> nat \<Rightarrow> fault + u8 list \<times> nat \<times> nat" where
  "copy_token input buffer i j =
     (if i < length input then
        (if input ! i \<noteq> 32 \<and> input ! i \<noteq> 0 then
           (if j < length buffer
            then copy_token input (buffer[j := input ! i]) (Suc i) (Suc j)
            else Inl WriteOutOfBounds)
         else Inr (buffer, i, j))
      else Inl ReadOutOfBounds)"
  by pat_completeness auto
termination
  by (relation "measure (\<lambda>(input, buffer, i, j). length input - i)") auto

declare skip_blanks.simps [simp del] copy_token.simps [simp del]

text \<open>The result is the returned flag, the token buffer and the new \<^verbatim>\<open>*offset\<close>.\<close>

definition get_next_token ::
  "u8 list \<Rightarrow> u8 list \<Rightarrow> nat \<Rightarrow> fault + bool \<times> u8 list \<times> nat" where
  "get_next_token input buffer offset =
     sum_bind (skip_blanks input offset) (\<lambda>i.
     sum_bind (fetch input i) (\<lambda>c.
       if c = 0 then Inr (False, buffer, i)
       else
         sum_bind (copy_token input buffer i 0) (\<lambda>(buffer, i, j).
         sum_bind (put j 0 buffer) (\<lambda>buffer. Inr (True, buffer, i)))))"

text \<open>\<^verbatim>\<open>strcpy\<close> from a C array into memory, as the shell uses it.\<close>

fun strcpy_loop :: "memory \<Rightarrow> u64 \<Rightarrow> u8 list \<Rightarrow> fault + memory" where
  "strcpy_loop m dest [] = Inl ReadOutOfBounds"
| "strcpy_loop m dest (c # src) =
     (if c = 0 then Inr (m(dest := 0)) else strcpy_loop (m(dest := c)) (dest + 1) src)"

definition strcpy ::
  "u64 \<Rightarrow> u8 list \<Rightarrow> 'a machine_scheme \<Rightarrow> fault + 'a machine_scheme" where
  "strcpy dest src s = sum_bind (strcpy_loop (mem s) dest src) (\<lambda>m. Inr (s\<lparr>mem := m\<rparr>))"

section \<open>Comparison and length\<close>

lemma terminated_Cons [simp]: "terminated (c # xs) \<longleftrightarrow> c = 0 \<or> terminated xs"
  by (auto simp: terminated_def)

lemma text_of_Cons [simp]: "text_of (c # xs) = (if c = 0 then [] else c # text_of xs)"
  by (simp add: text_of_def)

lemma not_terminated_Nil [simp]: "\<not> terminated []"
  by (simp add: terminated_def)

lemma strcmp_total: "terminated s1 \<Longrightarrow> terminated s2 \<Longrightarrow> \<exists>d. strcmp s1 s2 = Inr d"
  by (induction s1 s2 rule: strcmp.induct) auto

lemma strcmp_zero_iff:
  assumes "terminated s1" and "terminated s2"
  shows "strcmp s1 s2 = Inr 0 \<longleftrightarrow> text_of s1 = text_of s2"
  using assms
proof (induction s1 s2 rule: strcmp.induct)
  case (1 a s1 b s2)
  then show ?case by (cases "a = 0"; cases "b = 0") (auto simp: signed_eq_0_iff dest: signed_word_eqI)
qed auto


lemma strlen_spec: "strlen xs = (if terminated xs then Inr (length (text_of xs)) else Inl ReadOutOfBounds)"
  by (induction xs) auto

section \<open>memcpy and memset\<close>

lemma memset_loop_apply:
  "n \<le> 2 ^ 64 \<Longrightarrow> memset_loop m dest v n b = (if b \<in> region dest n then v else m b)"
proof (induction n arbitrary: m dest)
  case 0
  then show ?case by simp
next
  case (Suc n)
  then show ?case using region_Suc [OF Suc.prems, of b dest] by (auto simp: region_def)
qed

lemma memcpy_loop_outside:
  "n \<le> 2 ^ 64 \<Longrightarrow> b \<notin> region dest n \<Longrightarrow> memcpy_loop m dest source n b = m b"
proof (induction n arbitrary: m dest source)
  case 0
  then show ?case by simp
next
  case (Suc n)
  then show ?case using region_Suc [OF Suc.prems(1), of b dest] by simp
qed

text \<open>
  The copy runs upwards, so it is right whenever the source does not start inside the part of
  the destination that is already written: for disjoint regions, and when moving down.
\<close>

lemma memcpy_loop_apply:
  assumes "n \<le> 2 ^ 64"
    and "\<And>i j. i < j \<Longrightarrow> j < n \<Longrightarrow> source + of_nat j \<noteq> dest + of_nat i"
    and "i < n"
  shows "memcpy_loop m dest source n (dest + of_nat i) = m (source + of_nat i)"
  using assms
proof (induction n arbitrary: m dest source i)
  case 0
  then show ?case by simp
next
  case (Suc n)
  show ?case
  proof (cases i)
    case 0
    then show ?thesis
      using Suc.prems(1) region_fst_notin_rest [OF Suc.prems(1), of dest]
      by (simp add: memcpy_loop_outside)
  next
    case (Suc k)
    let ?m = "m(dest := m source)"
    have "source + 1 + of_nat j \<noteq> dest + 1 + of_nat i" if "i < j" "j < n" for i j
      using Suc.prems(2) [of "Suc i" "Suc j"] that by (simp add: ac_simps)
    then have "memcpy_loop ?m (dest + 1) (source + 1) n (dest + 1 + of_nat k)
        = ?m (source + 1 + of_nat k)"
      using Suc.prems(1,3) Suc by (intro Suc.IH) auto
    moreover have "source + 1 + of_nat k \<noteq> dest"
      using Suc.prems(2) [of 0 i] Suc.prems(3) Suc by (simp add: ac_simps)
    ultimately show ?thesis using Suc by (simp add: ac_simps)
  qed
qed

lemma memcpy_loop_disjoint:
  assumes "n \<le> 2 ^ 64" and "region dest n \<inter> region source n = {}" and "i < n"
  shows "memcpy_loop m dest source n (dest + of_nat i) = m (source + of_nat i)"
proof (rule memcpy_loop_apply [OF assms(1) _ assms(3)])
  fix i j assume "i < j" "j < n"
  then have "dest + of_nat i \<in> region dest n" "source + of_nat j \<in> region source n"
    using assms(1) by (auto intro: in_region_offset)
  then show "source + of_nat j \<noteq> dest + of_nat i" using assms(2) by auto
qed

lemma touches_memset: "region dest (unat count) \<subseteq> A \<Longrightarrow> touches A s (memset dest v count s)"
  by (auto simp: touches_def memset_def memset_loop_apply unat64_bound)

lemma touches_memcpy:
  assumes "region dest (nat n) \<subseteq> A" and "n \<le> 2 ^ 64"
  shows "touches A s (memcpy dest source n s)"
  using assms by (auto simp: touches_def memcpy_def intro!: memcpy_loop_outside)

section \<open>Hexadecimal output\<close>

text \<open>The sixteen digits of a number, most significant first, and what they stand for.\<close>

definition hex_string :: "u64 \<Rightarrow> u8 list" where
  "hex_string n = map (\<lambda>i. hex_digits ! unat (drop_bit (4 * (15 - i)) n AND 0xf)) [0..<16]"

definition hex_digit_value :: "u8 \<Rightarrow> nat" where
  "hex_digit_value c = (if c < 97 then unat c - 48 else unat c - 87)"

definition hex_value :: "u8 list \<Rightarrow> nat" where
  "hex_value ds = foldl (\<lambda>v c. 16 * v + hex_digit_value c) 0 ds"

lemma hex_loop_spec:
  assumes "k \<le> 16" and "18 \<le> length str"
  shows "\<exists>r. hex_loop k n str = Inr r \<and> length r = length str \<and>
    (\<forall>i < length str. r ! i =
       (if 2 \<le> i \<and> i < 2 + k then hex_digits ! unat (drop_bit (4 * (k + 1 - i)) n AND 0xf)
        else str ! i))"
  using assms
proof (induction k arbitrary: n str)
  case 0
  then show ?case by auto
next
  case (Suc k)
  let ?str = "str[Suc (Suc k) := hex_digits ! unat (n AND 0xf)]"
  have pos: "17 - (16 - Suc k) = Suc (Suc k)" using Suc.prems by simp
  have step: "hex_loop (Suc k) n str = hex_loop k (drop_bit 4 n) ?str"
    using Suc.prems unfolding hex_loop.simps(2) pos by (simp add: put_def)
  from Suc.IH [of ?str "drop_bit 4 n"] Suc.prems obtain r where
    r: "hex_loop k (drop_bit 4 n) ?str = Inr r" "length r = length str" and
    nth: "\<And>i. i < length str \<Longrightarrow> r ! i =
       (if 2 \<le> i \<and> i < 2 + k then hex_digits ! unat (drop_bit (4 * (k + 1 - i)) (drop_bit 4 n) AND 0xf)
        else ?str ! i)" by auto
  have "r ! i = (if 2 \<le> i \<and> i < 2 + Suc k then hex_digits ! unat (drop_bit (4 * (Suc k + 1 - i)) n AND 0xf)
        else str ! i)" if i: "i < length str" for i
  proof (cases "2 \<le> i \<and> i < 2 + k")
    case True
    then have "4 * (k + 1 - i) + 4 = 4 * (Suc k + 1 - i)" by (simp add: Suc_diff_le)
    then show ?thesis using True by (simp add: nth [OF i] drop_bit_drop_bit)
  next
    case False
    then show ?thesis using i by (auto simp: nth [OF i] nth_list_update)
  qed
  with step r show ?case by auto
qed

lemma hex_loop_short: "length str \<le> 17 \<Longrightarrow> hex_loop 16 n str = Inl WriteOutOfBounds"
  using hex_loop.simps(2) [of 15 n str] by (simp add: put_def)

lemma hex_to_ascii_eq:
  "hex_to_ascii n str =
     (if 19 \<le> length str then Inr (chars ''0x'' @ hex_string n @ 0 # drop 19 str)
      else Inl WriteOutOfBounds)"
proof -
  let ?str = "str[0 := 48, 1 := 120]"
  have unf: "hex_to_ascii n str = sum_bind (hex_loop 16 n ?str) (put 18 0)" if "2 \<le> length str"
  proof -
    from that have "0 < length str" "1 < length (str[0 := 48])" by auto
    then show ?thesis unfolding hex_to_ascii_def put_def [of 0] put_def [of 1] by simp
  qed
  consider "length str < 2" | "2 \<le> length str" "length str \<le> 17" | "18 \<le> length str" by linarith
  then show ?thesis
  proof cases
    case 1
    then show ?thesis by (auto simp: hex_to_ascii_def put_def)
  next
    case 2
    then show ?thesis by (simp add: unf hex_loop_short)
  next
    case 3
    then obtain r where r: "hex_loop 16 n ?str = Inr r" "length r = length str" and
      nth: "\<And>i. i < length str \<Longrightarrow> r ! i =
        (if 2 \<le> i \<and> i < 18 then hex_digits ! unat (drop_bit (4 * (17 - i)) n AND 0xf) else ?str ! i)"
      using hex_loop_spec [of 16 ?str n] by auto
    have "r[18 := 0] = chars ''0x'' @ hex_string n @ 0 # drop 19 str" if len: "19 \<le> length str"
    proof (rule nth_equalityI)
      show "length (r[18 := 0]) = length (chars ''0x'' @ hex_string n @ 0 # drop 19 str)"
        using len r(2) by (simp add: chars_def hex_string_def)
      fix i assume "i < length (r[18 := 0])"
      then have i: "i < length str" using r(2) by simp
      consider "i = 0" | "i = 1" | "2 \<le> i" "i < 18" | "i = 18" | "18 < i" by linarith
      then show "r[18 := 0] ! i = (chars ''0x'' @ hex_string n @ 0 # drop 19 str) ! i"
        by cases (use i len r(2) in \<open>auto simp: nth nth_append hex_string_def chars_def nth_Cons'\<close>)
    qed
    with 3 r show ?thesis by (auto simp: unf put_def)
  qed
qed

lemma hex_digit_value_nth: "k < 16 \<Longrightarrow> hex_digit_value (hex_digits ! k) = k"
proof -
  have "\<forall>k \<in> {..<16}. hex_digit_value (hex_digits ! k) = k"
    by (simp add: hex_digits_def chars_def hex_digit_value_def lessThan_nat_numeral lessThan_Suc)
  then show "k < 16 \<Longrightarrow> ?thesis" by simp
qed

lemma unat_nibble_split: "16 * unat (drop_bit 4 x) + unat (x AND 0xf) = unat (x :: u64)"
proof -
  have "x AND 0xf = take_bit 4 x" by (simp add: take_bit_eq_mask mask_eq_exp_minus_1)
  then have "unat (x AND 0xf) = unat x mod 16"
    by (simp only: unsigned_take_bit_eq) (simp add: take_bit_eq_mod)
  moreover have "unat (drop_bit 4 x) = unat x div 16"
    by (simp only: unsigned_drop_bit_eq) (simp add: drop_bit_eq_div take_bit_nat_eq_self unat64_bound)
  ultimately show ?thesis by simp
qed

lemma hex_value_prefix:
  "k \<le> 16 \<Longrightarrow>
   hex_value (map (\<lambda>i. hex_digits ! unat (drop_bit (4 * (15 - i)) n AND 0xf)) [0..<k])
     = unat (drop_bit (4 * (16 - k)) (n :: u64))"
proof (induction k)
  case 0
  have "drop_bit 64 (n :: u64) = 0" by (rule bit_word_eqI) (auto simp: bit_drop_bit_eq dest: bit_imp_le_length)
  then show ?case by (simp add: hex_value_def)
next
  case (Suc k)
  let ?x = "drop_bit (4 * (15 - k)) n"
  have "unat (?x AND 0xf) < 16"
    using word_and_le1 [of ?x "0xf"] by (simp add: word_le_nat_alt)
  moreover have "drop_bit 4 ?x = drop_bit (4 * (16 - k)) n"
    using Suc.prems by (simp add: drop_bit_drop_bit algebra_simps Suc_diff_le)
  ultimately show ?case
    using Suc unat_nibble_split [of ?x] by (simp add: hex_value_def hex_digit_value_nth)
qed

lemma hex_value_hex_string: "hex_value (hex_string n) = unat n"
  using hex_value_prefix [of 16 n] by (simp add: hex_string_def)


section \<open>Tokens\<close>

text \<open>The rest of the input line from an offset on, its leading blanks and the word after them.\<close>

definition line_rest :: "u8 list \<Rightarrow> nat \<Rightarrow> u8 list" where
  "line_rest input i = text_of (drop i input)"

definition blanks :: "u8 list \<Rightarrow> u8 list" where
  "blanks l = takeWhile (\<lambda>c. c = 32) l"

definition word_of_line :: "u8 list \<Rightarrow> u8 list" where
  "word_of_line l = takeWhile (\<lambda>c. c \<noteq> 32) (dropWhile (\<lambda>c. c = 32) l)"

lemma line_rest_step:
  "i < length input \<Longrightarrow>
   line_rest input i = (if input ! i = 0 then [] else input ! i # line_rest input (Suc i))"
  by (simp add: line_rest_def Cons_nth_drop_Suc [symmetric])

lemma terminated_step:
  "i < length input \<Longrightarrow>
   terminated (drop i input) \<longleftrightarrow> input ! i = 0 \<or> terminated (drop (Suc i) input)"
  by (simp add: Cons_nth_drop_Suc [symmetric])

lemma terminated_in_range: "terminated (drop i input) \<Longrightarrow> i < length input"
  by (rule ccontr) simp

lemma text_of_drop: "k \<le> length (text_of xs) \<Longrightarrow> text_of (drop k xs) = drop k (text_of xs)"
  by (induction xs arbitrary: k) (auto simp: drop_Cons' text_of_def [of "[]"] split: if_splits)

lemma terminated_drop: "k \<le> length (text_of xs) \<Longrightarrow> terminated (drop k xs) = terminated xs"
  by (induction xs arbitrary: k) (auto simp: drop_Cons' split: if_splits)

lemma line_rest_advance:
  assumes "terminated (drop i input)" and "k \<le> length (line_rest input i)"
  shows "terminated (drop (i + k) input)" and "line_rest input (i + k) = drop k (line_rest input i)"
  using assms terminated_drop [of k "drop i input"] text_of_drop [of k "drop i input"]
  by (simp_all add: line_rest_def add.commute)

lemma skip_blanks_spec:
  "terminated (drop i input) \<Longrightarrow>
   skip_blanks input i = Inr (i + length (blanks (line_rest input i)))"
proof (induction input i rule: skip_blanks.induct)
  case (1 input i)
  from 1 have i: "i < length input" by (simp add: terminated_in_range)
  with 1 show ?case
    by (subst skip_blanks.simps) (auto simp: terminated_step line_rest_step blanks_def)
qed

lemma copy_token_spec:
  assumes "terminated (drop i input)" and "j \<le> length buffer"
  shows "copy_token input buffer i j =
    (let w = takeWhile (\<lambda>c. c \<noteq> 32) (line_rest input i) in
     if j + length w \<le> length buffer
     then Inr (take j buffer @ w @ drop (j + length w) buffer, i + length w, j + length w)
     else Inl WriteOutOfBounds)"
  using assms
proof (induction input buffer i j rule: copy_token.induct)
  case (1 input buffer i j)
  have i: "i < length input" using 1 by (simp add: terminated_in_range)
  show ?case
  proof (cases "input ! i \<noteq> 32 \<and> input ! i \<noteq> 0 \<and> j < length buffer")
    case True
    let ?b = "buffer[j := input ! i]"
    have upd: "take (Suc j) ?b = take j buffer @ [input ! i]"
      using True by (simp add: take_Suc_conv_app_nth)
    have "copy_token input buffer i j = copy_token input ?b (Suc i) (Suc j)"
      using True i by (subst copy_token.simps) simp
    also have "\<dots> = (let w = takeWhile (\<lambda>c. c \<noteq> 32) (line_rest input (Suc i)) in
     if Suc j + length w \<le> length ?b
     then Inr (take (Suc j) ?b @ w @ drop (Suc j + length w) ?b, Suc i + length w, Suc j + length w)
     else Inl WriteOutOfBounds)"
      using 1 True i by (intro "1.IH") (auto simp: terminated_step)
    finally show ?thesis
      using True i by (simp add: Let_def line_rest_step [OF i] upd)
  next
    case False
    then show ?thesis
      using i "1.prems"(2) by (subst copy_token.simps) (auto simp: line_rest_step Let_def)
  qed
qed

lemma get_next_token_spec:
  assumes "terminated (drop offset input)"
  shows "get_next_token input buffer offset =
    (let l = line_rest input offset; w = word_of_line l in
     if w = [] then Inr (False, buffer, offset + length l)
     else if length w < length buffer
     then Inr (True, w @ 0 # drop (Suc (length w)) buffer, offset + length (blanks l) + length w)
     else Inl WriteOutOfBounds)"
proof -
  define l i where "l = line_rest input offset" and "i = offset + length (blanks l)"
  have adv: "terminated (drop i input)" "line_rest input i = dropWhile (\<lambda>c. c = 32) l"
    using line_rest_advance [OF assms, of "length (blanks l)"]
    by (simp_all add: i_def l_def blanks_def length_takeWhile_le dropWhile_eq_drop)
  have skip: "skip_blanks input offset = Inr i"
    using skip_blanks_spec [OF assms] by (simp add: i_def l_def)
  have i: "i < length input" using adv(1) by (rule terminated_in_range)
  have w: "takeWhile (\<lambda>c. c \<noteq> 32) (line_rest input i) = word_of_line l"
    by (simp add: adv word_of_line_def)
  show ?thesis
  proof (cases "input ! i = 0")
    case True
    then have d: "dropWhile (\<lambda>c. c = 32) l = []" using adv(2) i by (simp add: line_rest_step)
    then have "blanks l = l" by (simp add: blanks_def dropWhile_eq_Nil_conv takeWhile_eq_all_conv)
    moreover have "word_of_line l = []" by (simp only: word_of_line_def d) simp
    ultimately show ?thesis
      using True i unfolding get_next_token_def skip by (simp add: fetch_def Let_def i_def l_def)
  next
    case False
    then have d: "dropWhile (\<lambda>c. c = 32) l = input ! i # line_rest input (Suc i)"
      using adv(2) i by (simp add: line_rest_step)
    then have "input ! i \<noteq> 32" by (metis (mono_tags) dropWhile_eq_Cons_conv)
    then have wn: "word_of_line l \<noteq> []" using d by (simp add: word_of_line_def)
    show ?thesis
      using False i wn unfolding get_next_token_def skip
      by (auto simp: fetch_def Let_def copy_token_spec [OF adv(1)] w put_def l_def [symmetric] i_def [symmetric]
          list_update_append Cons_nth_drop_Suc [symmetric])
  qed
qed

lemma word_of_line_length: "length (blanks l) + length (word_of_line l) \<le> length l"
proof -
  have "length (word_of_line l) \<le> length (dropWhile (\<lambda>c. c = 32) l)"
    unfolding word_of_line_def by (rule length_takeWhile_le)
  moreover have "length l = length (blanks l) + length (dropWhile (\<lambda>c. c = 32) l)"
    unfolding blanks_def by (metis length_append takeWhile_dropWhile_id)
  ultimately show ?thesis by simp
qed

text \<open>The words of a line, which blanks separate.\<close>

function line_words :: "u8 list \<Rightarrow> u8 list list" where
  "line_words l =
     (if word_of_line l = [] then []
      else word_of_line l # line_words (drop (length (blanks l) + length (word_of_line l)) l))"
  by pat_completeness auto
termination
proof (relation "measure length")
  fix l assume "word_of_line l \<noteq> []"
  then have "0 < length (word_of_line l)" by simp
  then have "length l - (length (blanks l) + length (word_of_line l)) < length l"
    using word_of_line_length [of l] by linarith
  then show "(drop (length (blanks l) + length (word_of_line l)) l, l) \<in> measure length" by simp
qed simp

declare line_words.simps [simp del]

lemma text_of_word: "set w \<subseteq> {c. c \<noteq> 0} \<Longrightarrow> text_of (w @ 0 # xs) = w"
  by (induction w) (auto simp: text_of_def)

lemma word_of_line_rest_nonzero: "set (word_of_line (line_rest input i)) \<subseteq> {c. c \<noteq> 0}"
  by (auto simp: word_of_line_def line_rest_def text_of_def dest!: set_takeWhileD set_dropWhileD)

section \<open>Properties\<close>

text \<open>
  \<^verbatim>\<open>strcmp\<close> of two terminated strings reads only their arrays and returns 0 exactly when the
  strings are equal.
\<close>

lemma strcmp_decides_equality:
  assumes "terminated s1" and "terminated s2"
  shows "(\<exists>d. strcmp s1 s2 = Inr d) \<and> (strcmp s1 s2 = Inr 0 \<longleftrightarrow> text_of s1 = text_of s2)"
  using strcmp_total [OF assms] strcmp_zero_iff [OF assms] by blast

lemma strcmp_decides_equality_witness:
  "(\<exists>d. strcmp (cstr ''ls'') (cstr ''cat'') = Inr d) \<and> strcmp (cstr ''ls'') (cstr ''cat'') \<noteq> Inr 0"
  using strcmp_decides_equality [of "cstr ''ls''" "cstr ''cat''"] by (simp add: cstr_def chars_def)

text \<open>
  \<^verbatim>\<open>hex_to_ascii\<close> writes \<^verbatim>\<open>0x\<close>, sixteen digits whose value is the number, and a terminator. It
  needs an array of 19 bytes and overruns every shorter one.
\<close>

lemma hex_to_ascii_prints_value:
  "if 19 \<le> length str
   then \<exists>ds. hex_to_ascii n str = Inr (chars ''0x'' @ ds @ 0 # drop 19 str) \<and>
     length ds = 16 \<and> hex_value ds = unat n
   else hex_to_ascii n str = Inl WriteOutOfBounds"
  using hex_value_hex_string [of n] by (auto simp: hex_to_ascii_eq hex_string_def)

text \<open>
  \<^verbatim>\<open>get_next_token\<close> enumerates the words of a line: it returns 0 when no word is left, and
  otherwise it leaves the next word in the buffer and an offset from which the remaining words
  follow, provided that the word and its terminator fit. A longer word overruns the buffer.
\<close>

lemma get_next_token_next_word:
  assumes "terminated (drop offset input)"
  shows "case line_words (line_rest input offset) of
     [] \<Rightarrow> \<exists>i. get_next_token input buffer offset = Inr (False, buffer, i)
   | w # ws \<Rightarrow>
       if length w < length buffer
       then \<exists>buffer' i. get_next_token input buffer offset = Inr (True, buffer', i) \<and>
         text_of buffer' = w \<and> length buffer' = length buffer \<and>
         terminated (drop i input) \<and> line_words (line_rest input i) = ws
       else get_next_token input buffer offset = Inl WriteOutOfBounds"
proof -
  let ?l = "line_rest input offset"
  note spec = get_next_token_spec [OF assms, of buffer, unfolded Let_def]
  show ?thesis
  proof (cases "word_of_line ?l = []")
    case True
    then show ?thesis using spec by (simp add: line_words.simps [of ?l])
  next
    case False
    let ?n = "length (blanks ?l) + length (word_of_line ?l)"
    have "terminated (drop (offset + ?n) input)" "line_rest input (offset + ?n) = drop ?n ?l"
      using line_rest_advance [OF assms word_of_line_length] by blast+
    then show ?thesis
      using False spec text_of_word [OF word_of_line_rest_nonzero]
      by (auto simp: line_words.simps [of ?l] add.assoc)
  qed
qed

lemma get_next_token_next_word_witness:
  "\<exists>buffer' i. get_next_token (cstr ''cat  a.txt'') (replicate 32 0) 3 = Inr (True, buffer', i) \<and>
     text_of buffer' = chars ''a.txt''"
  using get_next_token_next_word [of 3 "cstr ''cat  a.txt''" "replicate 32 0"]
  by (auto simp: cstr_def chars_def line_rest_def text_of_def line_words.simps [of "[_, _, _, _, _, _, _]"]
      word_of_line_def terminated_def)

end
