(* ===== verification/Screen.thy ===== *)
theory Screen
  imports Utils "HOL-Library.Signed_Division"
begin

text \<open>
  The VGA text console of \<^verbatim>\<open>src/drivers/screen.c\<close>: characters go to the frame buffer at
  \<^verbatim>\<open>0xb8000\<close>, the cursor lives in two registers of the CRT controller, which the driver
  reaches through ports \<^verbatim>\<open>0x3d4\<close> and \<^verbatim>\<open>0x3d5\<close>. An \<open>int\<close> of the C code is an \<open>int\<close> here: the
  offsets stay far from overflow. A message is the list of its characters; as in C, it ends at
  the first zero character.
\<close>

section \<open>The functions of screen.c\<close>

definition VIDEO_ADDRESS :: u64 where "VIDEO_ADDRESS = 0xb8000"
definition MAX_ROWS :: int where "MAX_ROWS = 25"
definition MAX_COLS :: int where "MAX_COLS = 80"
definition WHITE_ON_BLACK :: u8 where "WHITE_ON_BLACK = 0x0f"
definition REG_SCREEN_CTRL :: u16 where "REG_SCREEN_CTRL = 0x3d4"
definition REG_SCREEN_DATA :: u16 where "REG_SCREEN_DATA = 0x3d5"

lemmas screen_consts =
  VIDEO_ADDRESS_def MAX_ROWS_def MAX_COLS_def WHITE_ON_BLACK_def
  REG_SCREEN_CTRL_def REG_SCREEN_DATA_def

definition get_cursor_offset :: "'a machine_scheme \<Rightarrow> int \<times> 'a machine_scheme" where
  "get_cursor_offset s =
     (let s = outb REG_SCREEN_CTRL 14 s;
          (hi, s) = inb REG_SCREEN_DATA s;
          offset = push_bit 8 (uint hi);
          s = outb REG_SCREEN_CTRL 15 s;
          (lo, s) = inb REG_SCREEN_DATA s;
          offset = offset + uint lo
      in (offset * 2, s))"

definition set_cursor_offset :: "int \<Rightarrow> 'a machine_scheme \<Rightarrow> 'a machine_scheme" where
  "set_cursor_offset offset s =
     (let offset = offset sdiv 2;
          s = outb REG_SCREEN_CTRL 14 s;
          s = outb REG_SCREEN_DATA (word_of_int (drop_bit 8 offset)) s;
          s = outb REG_SCREEN_CTRL 15 s
      in outb REG_SCREEN_DATA (word_of_int (offset AND 0xff)) s)"

text \<open>\<^verbatim>\<open>vidmem[offset] = v\<close>\<close>

definition vid_poke :: "int \<Rightarrow> u8 \<Rightarrow> 'a machine_scheme \<Rightarrow> 'a machine_scheme" where
  "vid_poke offset v s = poke (VIDEO_ADDRESS + word_of_int offset) v s"

text \<open>The scrolling part of \<^verbatim>\<open>print_char\<close>: move every row up by one, then blank the last row.\<close>

definition scroll_rows :: "'a machine_scheme \<Rightarrow> 'a machine_scheme" where
  "scroll_rows s =
     fold (\<lambda>i. memcpy (VIDEO_ADDRESS + word_of_int ((i - 1) * MAX_COLS * 2))
                 (VIDEO_ADDRESS + word_of_int (i * MAX_COLS * 2)) (MAX_COLS * 2))
       [1..MAX_ROWS - 1] s"

definition blank_last_row :: "u8 \<Rightarrow> 'a machine_scheme \<Rightarrow> 'a machine_scheme" where
  "blank_last_row attribute_byte s =
     fold (\<lambda>i s. vid_poke ((MAX_ROWS - 1) * MAX_COLS * 2 + (2 * i + 1)) attribute_byte
                   (vid_poke ((MAX_ROWS - 1) * MAX_COLS * 2 + 2 * i) 32 s))
       [0..MAX_COLS - 1] s"

definition print_char :: "u8 \<Rightarrow> int \<Rightarrow> int \<Rightarrow> u8 \<Rightarrow> 'a machine_scheme \<Rightarrow> 'a machine_scheme" where
  "print_char c col row attribute_byte s =
     (let attribute_byte = (if attribute_byte = 0 then WHITE_ON_BLACK else attribute_byte);
          (offset, s) =
            (if col \<ge> 0 \<and> row \<ge> 0 then ((row * MAX_COLS + col) * 2, s) else get_cursor_offset s);
          (offset, s) =
            (if c = 10 then
               (let (offset, s) = get_cursor_offset s;
                    rows = offset sdiv (2 * MAX_COLS)
                in ((rows + 1) * (2 * MAX_COLS), s))
             else (offset + 2, vid_poke (offset + 1) attribute_byte (vid_poke offset c s)));
          (offset, s) =
            (if offset \<ge> MAX_ROWS * MAX_COLS * 2
             then (offset - 2 * MAX_COLS, blank_last_row attribute_byte (scroll_rows s))
             else (offset, s))
      in set_cursor_offset offset s)"

text \<open>The loop of \<^verbatim>\<open>kprint_at\<close> over the characters of the message.\<close>

fun kprint_loop :: "u8 list \<Rightarrow> int \<Rightarrow> int \<Rightarrow> 'a machine_scheme \<Rightarrow> 'a machine_scheme" where
  "kprint_loop [] col row s = s"
| "kprint_loop (c # message) col row s =
     (if c = 0 then s
      else kprint_loop message (if col \<ge> 0 then col + 1 else col) row
             (print_char c col row WHITE_ON_BLACK s))"

definition kprint_at :: "u8 list \<Rightarrow> int \<Rightarrow> int \<Rightarrow> 'a machine_scheme \<Rightarrow> 'a machine_scheme" where
  "kprint_at message col row s =
     kprint_loop message col row
       (if col > 0 \<and> row \<ge> 0 then set_cursor_offset ((row * MAX_COLS + col) * 2) s else s)"

definition kprint :: "u8 list \<Rightarrow> 'a machine_scheme \<Rightarrow> 'a machine_scheme" where
  "kprint message s = kprint_at message (-1) (-1) s"

definition kprint_backspace :: "'a machine_scheme \<Rightarrow> 'a machine_scheme" where
  "kprint_backspace s =
     (let (offset, s) = get_cursor_offset s;
          offset = offset - 2;
          offset = (if offset < 0 then 0 else offset);
          s = set_cursor_offset offset s
      in vid_poke (offset + 1) 0x0f (vid_poke offset 32 s))"

definition clear_screen :: "'a machine_scheme \<Rightarrow> 'a machine_scheme" where
  "clear_screen s =
     set_cursor_offset 0
       (fold (\<lambda>i s. vid_poke (i * 2 + 1) WHITE_ON_BLACK (vid_poke (i * 2) 32 s))
          [0..MAX_COLS * MAX_ROWS - 1] s)"

text \<open>
  The pair \<^verbatim>\<open>hex_to_ascii(n, buf); kprint(buf);\<close> with a local \<^verbatim>\<open>char buf[32]\<close>, which most of
  the kernel uses; \<open>kprint_hex_eq\<close> below shows that the buffer is long enough.
\<close>

definition kprint_hex :: "u64 \<Rightarrow> 'a machine_scheme \<Rightarrow> 'a machine_scheme" where
  "kprint_hex n s = (case hex_to_ascii n (replicate 32 0) of Inl _ \<Rightarrow> s | Inr buf \<Rightarrow> kprint buf s)"

section \<open>What the console touches\<close>

text \<open>The frame buffer window that a 16-bit cursor can reach, and the visible part of it.\<close>

definition video_window :: "u64 set" where
  "video_window = region VIDEO_ADDRESS 0x20000"

definition visible_screen :: "u64 set" where
  "visible_screen = region VIDEO_ADDRESS 4000"

lemma vid_in_region: "0 \<le> off \<Longrightarrow> off < int n \<Longrightarrow> n \<le> 2 ^ 64 \<Longrightarrow> VIDEO_ADDRESS + word_of_int off \<in> region VIDEO_ADDRESS n"
  using in_region_offset [of "nat off" n VIDEO_ADDRESS] by (simp add: nat_less_iff)

lemma touches_vid_poke:
  "0 \<le> off \<Longrightarrow> off < int n \<Longrightarrow> n \<le> 2 ^ 64 \<Longrightarrow>
   touches (region VIDEO_ADDRESS n) s (vid_poke off v s)"
  by (simp add: vid_poke_def touches_poke vid_in_region)

lemma touches_set_cursor [simp]: "touches A s (set_cursor_offset off s)"
  unfolding set_cursor_offset_def Let_def by (blast intro: touches_trans touches_outb)

lemma get_cursor_offset_facts:
  assumes "get_cursor_offset s = (off, s')"
  shows "0 \<le> off" "off \<le> 131070" "even off" "touches A s s'"
proof -
  obtain hi s1 where 1: "inb REG_SCREEN_DATA (outb REG_SCREEN_CTRL 14 s) = (hi, s1)" by force
  obtain lo s2 where 2: "inb REG_SCREEN_DATA (outb REG_SCREEN_CTRL 15 s1) = (lo, s2)" by force
  have eq: "off = (push_bit 8 (uint hi) + uint lo) * 2" "s' = s2"
    using assms 1 2 by (simp_all add: get_cursor_offset_def Let_def)
  have "0 \<le> uint hi" "uint hi < 256" "0 \<le> uint lo" "uint lo < 256"
    using uint_lt2p [of hi] uint_lt2p [of lo] by simp_all
  then show "0 \<le> off" "off \<le> 131070" "even off"
    unfolding eq push_bit_eq_mult by simp_all
  show "touches A s s'"
    using 1 2 unfolding eq(2)
    by (metis touches_inb touches_outb touches_trans snd_conv)
qed

lemma touches_scroll_rows: "touches visible_screen s (scroll_rows s)"
  unfolding scroll_rows_def visible_screen_def
proof (rule touches_fold)
  fix i and t :: "'a machine_scheme" assume "i \<in> set [1..MAX_ROWS - 1]"
  then have i: "1 \<le> i" "i \<le> 24" by (simp_all add: screen_consts)
  have "region (VIDEO_ADDRESS + of_nat (nat ((i - 1) * 160))) 160 \<subseteq> region VIDEO_ADDRESS 4000"
    by (rule region_sub) (use i in auto)
  then show "touches (region VIDEO_ADDRESS 4000) t
     (memcpy (VIDEO_ADDRESS + word_of_int ((i - 1) * MAX_COLS * 2))
        (VIDEO_ADDRESS + word_of_int (i * MAX_COLS * 2)) (MAX_COLS * 2) t)"
    using i by (intro touches_memcpy) (simp_all add: MAX_COLS_def mult.assoc)
qed

lemma touches_blank_last_row: "touches visible_screen s (blank_last_row b s)"
  unfolding blank_last_row_def visible_screen_def
proof (rule touches_fold)
  fix i and t :: "'a machine_scheme" assume "i \<in> set [0..MAX_COLS - 1]"
  then have i: "0 \<le> i" "i \<le> 79" by (simp_all add: screen_consts)
  have "touches (region VIDEO_ADDRESS 4000) u (vid_poke (3840 + 2 * i + k) v u)" if "k \<in> {0, 1}" for k v u
    using i that by (intro touches_vid_poke) auto
  from touches_trans [OF this [of 0] this [of 1]]
  show "touches (region VIDEO_ADDRESS 4000) t
     (vid_poke ((MAX_ROWS - 1) * MAX_COLS * 2 + (2 * i + 1)) b
        (vid_poke ((MAX_ROWS - 1) * MAX_COLS * 2 + 2 * i) 32 t))"
    by (simp add: MAX_ROWS_def MAX_COLS_def ac_simps)
qed

lemma visible_in_window: "visible_screen \<subseteq> video_window"
  by (simp add: visible_screen_def video_window_def region_mono)

lemma touches_kprint_char: "touches video_window s (print_char c (-1) (-1) b s)"
proof -
  obtain off s1 where 1: "get_cursor_offset s = (off, s1)" by force
  note f1 = get_cursor_offset_facts [OF 1]
  have poke: "touches video_window t (vid_poke o' v t)" if "0 \<le> o'" "o' < 131072" for o' v t
    unfolding video_window_def using that by (intro touches_vid_poke) auto
  have scroll: "touches video_window t (blank_last_row a (scroll_rows t))" for a t
    by (meson touches_blank_last_row touches_scroll_rows touches_trans touches_mono visible_in_window)
  obtain off2 s2 where 2: "get_cursor_offset s1 = (off2, s2)" by force
  note f2 = get_cursor_offset_facts [OF 2]
  have pp: "touches video_window t (vid_poke (off + 1) a (vid_poke off c t))" for a t
    using f1 by (intro touches_trans [OF poke poke]) auto
  show ?thesis
    by (auto simp: print_char_def Let_def 1 2 intro!: touches_trans [OF _ touches_set_cursor]
        touches_trans [OF _ scroll] intro: f1 f2 touches_trans pp)
qed

lemma kprint_touches: "touches video_window s (kprint msg s)"
proof -
  have "touches video_window s (kprint_loop msg (-1) (-1) s)" for s
    by (induction msg "-1 :: int" "-1 :: int" s rule: kprint_loop.induct)
      (auto intro: touches_trans touches_kprint_char)
  then show ?thesis by (simp add: kprint_def kprint_at_def)
qed


lemma kprint_hex_eq: "kprint_hex n s = kprint (chars ''0x'' @ hex_string n @ replicate 14 0) s"
  by (simp add: kprint_hex_def hex_to_ascii_eq flip: replicate_Suc)

lemma kprint_hex_touches: "touches video_window s (kprint_hex n s)"
  by (simp add: kprint_hex_eq kprint_touches)

text \<open>The console uses the two ports of the CRT controller and no others.\<close>

abbreviation crtc_ports :: "u16 set" where
  "crtc_ports \<equiv> {REG_SCREEN_CTRL, REG_SCREEN_DATA}"

lemma on_ports_cursor:
  "on_ports crtc_ports s (set_cursor_offset off s)" "on_ports crtc_ports s (snd (get_cursor_offset s))"
  by (auto simp: on_ports_def set_cursor_offset_def get_cursor_offset_def outb_def inb_def Let_def)

lemma on_ports_scroll: "on_ports P s (blank_last_row b (scroll_rows s))"
proof (rule on_ports_trans)
  show "on_ports P s (scroll_rows s)"
    unfolding scroll_rows_def by (rule on_ports_fold) (simp add: on_ports_same memcpy_def)
  show "on_ports P (scroll_rows s) (blank_last_row b (scroll_rows s))"
    unfolding blank_last_row_def vid_poke_def
    by (rule on_ports_fold) (blast intro: on_ports_trans on_ports_poke)
qed

lemma print_char_ports: "on_ports crtc_ports s (print_char c col row b s)"
proof -
  have get: "on_ports crtc_ports t u" if "get_cursor_offset t = (off, u)" for t u :: "'a machine_scheme" and off
    using on_ports_cursor(2) [of t] that by simp
  have poke: "on_ports crtc_ports t (vid_poke o1 v (vid_poke o2 w t))" for t :: "'a machine_scheme" and o1 v o2 w
    unfolding vid_poke_def by (blast intro: on_ports_trans on_ports_poke)
  show ?thesis
    by (auto simp: print_char_def Let_def split: prod.splits
        intro!: on_ports_trans [OF _ on_ports_cursor(1)] on_ports_trans [OF _ on_ports_scroll]
        intro: get poke on_ports_trans on_ports_same)
qed

lemma kprint_ports: "on_ports crtc_ports s (kprint msg s)"
proof -
  have "on_ports crtc_ports s (kprint_loop msg col row s)" for col row s
    by (induction msg col row s rule: kprint_loop.induct)
      (auto intro: on_ports_trans print_char_ports on_ports_same)
  then show ?thesis by (simp add: kprint_def kprint_at_def)
qed

lemma kprint_hex_ports: "on_ports crtc_ports s (kprint_hex n s)"
  by (simp add: kprint_hex_eq kprint_ports)

section \<open>The cursor registers\<close>

text \<open>
  The documented behaviour of the CRT controller: port \<^verbatim>\<open>0x3d4\<close> selects a register, port
  \<^verbatim>\<open>0x3d5\<close> writes it, and a read of \<^verbatim>\<open>0x3d5\<close> gives back what the selected register was last
  written with.
\<close>

fun crtc_index :: "io_event list \<Rightarrow> u8 option" where
  "crtc_index [] = None"
| "crtc_index (OutB p d # h) = (if p = 0x3d4 then Some d else crtc_index h)"
| "crtc_index (e # h) = crtc_index h"

fun crtc_reg :: "u8 \<Rightarrow> io_event list \<Rightarrow> u8 option" where
  "crtc_reg r [] = None"
| "crtc_reg r (OutB p d # h) = (if p = 0x3d5 \<and> crtc_index h = Some r then Some d else crtc_reg r h)"
| "crtc_reg r (e # h) = crtc_reg r h"

definition crtc_device :: "(io_event list \<Rightarrow> u16 \<Rightarrow> u8) \<Rightarrow> bool" where
  "crtc_device dev \<longleftrightarrow>
     (\<forall>h r v. crtc_index h = Some r \<longrightarrow> crtc_reg r h = Some v \<longrightarrow> dev h 0x3d5 = v)"

text \<open>The cell that the cursor registers name.\<close>

definition cursor_cell :: "'a machine_scheme \<Rightarrow> nat \<Rightarrow> bool" where
  "cursor_cell s pos \<longleftrightarrow>
     crtc_reg 14 (io s) = Some (of_nat (pos div 256)) \<and> crtc_reg 15 (io s) = Some (of_nat (pos mod 256)) \<and>
     pos < 65536"

lemma get_cursor_offset_cell:
  assumes dev: "crtc_device (dev8 s)" and cur: "cursor_cell s pos"
  shows "\<exists>s'. get_cursor_offset s = (2 * int pos, s') \<and> cursor_cell s' pos \<and> mem s' = mem s \<and> dev8 s' = dev8 s"
proof -
  have rd: "dev8 s h 0x3d5 = v" if "crtc_index h = Some r" "crtc_reg r h = Some v" for h r v
    using dev that by (auto simp: crtc_device_def)
  have hi: "dev8 s (OutB 0x3d4 14 # io s) 0x3d5 = of_nat (pos div 256)"
    using cur by (intro rd [of _ 14]) (auto simp: cursor_cell_def)
  have lo: "dev8 s (OutB 0x3d4 15 # InB 0x3d5 (of_nat (pos div 256)) # OutB 0x3d4 14 # io s) 0x3d5 = of_nat (pos mod 256)"
    using cur by (intro rd [of _ 15]) (auto simp: cursor_cell_def)
  have "pos div 256 < 256" using cur by (auto simp: cursor_cell_def)
  then have "push_bit 8 (uint (of_nat (pos div 256) :: u8)) + uint (of_nat (pos mod 256) :: u8) = int pos"
    by (simp add: push_bit_eq_mult unsigned_of_nat take_bit_nat_eq_self uint_nat zdiv_int zmod_int flip: of_nat_mult of_nat_add)
  then show ?thesis
    using cur hi lo
    by (simp add: get_cursor_offset_def inb_def outb_def Let_def screen_consts cursor_cell_def)
qed

lemma sdiv_nonneg: "0 \<le> a \<Longrightarrow> 0 < b \<Longrightarrow> a sdiv b = a div (b :: int)"
  by (cases "a = 0") (auto simp: signed_divide_int_def)

lemma set_cursor_offset_cell:
  assumes "pos < 65536"
  shows "cursor_cell (set_cursor_offset (2 * int pos) s) pos"
proof -
  have 1: "(word_of_int (drop_bit 8 (int pos)) :: u8) = of_nat (pos div 256)"
  proof -
    have "drop_bit 8 (int pos) = int (pos div 256)" by (simp add: drop_bit_eq_div zdiv_int)
    then show ?thesis by simp
  qed
  have 2: "(word_of_int (int pos AND 0xff) :: u8) = of_nat (pos mod 256)"
  proof -
    have "int pos AND 0xff = int (pos mod 256)"
      using take_bit_eq_mask [of 8 "int pos"]
      by (simp add: mask_eq_exp_minus_1 take_bit_eq_mod zmod_int)
    then show ?thesis by simp
  qed
  show ?thesis
    using assms 1 2
    by (simp add: set_cursor_offset_def outb_def Let_def screen_consts cursor_cell_def sdiv_nonneg)
qed

section \<open>The terminal that the driver implements\<close>

text \<open>
  The abstract terminal: 25 rows of 80 cells in a list, and the position of the cursor.
\<close>

type_synonym cell = "u8 \<times> u8"

definition term_char :: "u8 \<Rightarrow> cell list \<times> nat \<Rightarrow> cell list \<times> nat" where
  "term_char c t =
     (let (cells, pos) = t;
          (cells, pos) = (if c = 10 then (cells, (pos div 80 + 1) * 80)
                          else (cells[pos := (c, 0x0f)], pos + 1))
      in if pos \<ge> 2000 then (drop 80 cells @ replicate 80 (32, 0x0f), pos - 80) else (cells, pos))"

fun term_text :: "u8 list \<Rightarrow> cell list \<times> nat \<Rightarrow> cell list \<times> nat" where
  "term_text [] t = t"
| "term_text (c # cs) t = (if c = 0 then t else term_text cs (term_char c t))"

definition vid :: "'a machine_scheme \<Rightarrow> nat \<Rightarrow> u8" where
  "vid s off = mem s (VIDEO_ADDRESS + of_nat off)"

definition cells :: "'a machine_scheme \<Rightarrow> cell list" where
  "cells s = map (\<lambda>i. (vid s (2 * i), vid s (2 * i + 1))) [0..<2000]"

lemma vid_vid_poke:
  "off < 2 ^ 64 \<Longrightarrow> k < 2 ^ 64 \<Longrightarrow> vid (vid_poke (int k) v s) off = (if off = k then v else vid s off)"
  by (simp add: vid_def vid_poke_def poke_def of_nat_u64_inj)

lemma vid_memcpy:
  assumes "d + n \<le> src" "src + n \<le> 2 ^ 64" "off < 2 ^ 64" "0 < n"
  shows "vid (memcpy (VIDEO_ADDRESS + of_nat d) (VIDEO_ADDRESS + of_nat src) (int n) s) off =
    (if d \<le> off \<and> off < d + n then vid s (off - d + src) else vid s off)"
proof (cases "d \<le> off \<and> off < d + n")
  case True
  then obtain i where i: "off = d + i" "i < n" by (metis le_add_diff_inverse nat_add_left_cancel_less)
  have "memcpy_loop (mem s) (VIDEO_ADDRESS + of_nat d) (VIDEO_ADDRESS + of_nat src) n
     (VIDEO_ADDRESS + of_nat d + of_nat i) = mem s (VIDEO_ADDRESS + of_nat src + of_nat i)"
  proof (rule memcpy_loop_apply)
    show "n \<le> 2 ^ 64" "i < n" using assms i by auto
    fix i j assume "i < j" "j < n"
    then have "(of_nat (src + j) :: u64) \<noteq> of_nat (d + i)"
      using assms by (subst of_nat_u64_inj) auto
    then show "VIDEO_ADDRESS + of_nat src + of_nat j \<noteq> VIDEO_ADDRESS + of_nat d + of_nat i"
      by (simp add: add.assoc)
  qed
  then show ?thesis using True i by (simp add: vid_def memcpy_def ac_simps)
next
  case False
  have "VIDEO_ADDRESS + of_nat off \<notin> region (VIDEO_ADDRESS + of_nat d) n"
  proof
    assume "VIDEO_ADDRESS + of_nat off \<in> region (VIDEO_ADDRESS + of_nat d) n"
    then have *: "unat (of_nat off - of_nat d :: u64) < n" by (simp add: region_def)
    show False
    proof (cases "d \<le> off")
      case True
      then have "of_nat off - of_nat d = (of_nat (off - d) :: u64)" by simp
      with * have "off - d < n" using assms by (simp add: unat64_of_nat del: of_nat_diff)
      with True False show False by auto
    next
      case f: False
      have "unat (of_nat off :: u64) = off" "unat (of_nat d :: u64) = d"
        using assms by (auto intro: unat64_of_nat)
      with f * assms show False by (simp add: unat_sub_if_size word_size)
    qed
  qed
  then show ?thesis
    unfolding if_not_P [OF False] using assms by (simp add: vid_def memcpy_def memcpy_loop_outside)
qed


lemma vid_scroll_step:
  "k \<le> 24 \<Longrightarrow> off < 4000 \<Longrightarrow>
   vid (fold (\<lambda>i. memcpy (VIDEO_ADDRESS + word_of_int ((i - 1) * MAX_COLS * 2))
                 (VIDEO_ADDRESS + word_of_int (i * MAX_COLS * 2)) (MAX_COLS * 2)) [1..int k] s) off
     = (if off < 160 * k then vid s (off + 160) else vid s off)"
proof (induction k arbitrary: off)
  case 0
  then show ?case by simp
next
  case (Suc k)
  let ?F = "\<lambda>k. fold (\<lambda>i. memcpy (VIDEO_ADDRESS + word_of_int ((i - 1) * MAX_COLS * 2))
                 (VIDEO_ADDRESS + word_of_int (i * MAX_COLS * 2)) (MAX_COLS * 2)) [1..k] s"
  have "[1..int (Suc k)] = [1..int k] @ [int (Suc k)]"
    by (subst upto_rec2) auto
  then have "?F (int (Suc k)) =
      memcpy (VIDEO_ADDRESS + of_nat (160 * k)) (VIDEO_ADDRESS + of_nat (160 * k + 160)) (int 160) (?F (int k))"
    by (simp add: MAX_COLS_def ac_simps)
  then have "vid (?F (int (Suc k))) off =
      (if 160 * k \<le> off \<and> off < 160 * k + 160 then vid (?F (int k)) (off - 160 * k + (160 * k + 160))
       else vid (?F (int k)) off)"
    using Suc.prems by (simp only:) (rule vid_memcpy, auto)
  then show ?case using Suc by (auto simp: Suc.IH)
qed

lemma vid_scroll_rows:
  "off < 4000 \<Longrightarrow> vid (scroll_rows s) off = (if off < 3840 then vid s (off + 160) else vid s off)"
  using vid_scroll_step [of 24 off s] by (simp add: scroll_rows_def MAX_ROWS_def)

lemma vid_blank_step:
  "k \<le> 80 \<Longrightarrow> off < 4000 \<Longrightarrow>
   vid (fold (\<lambda>i s. vid_poke ((MAX_ROWS - 1) * MAX_COLS * 2 + (2 * i + 1)) b
                   (vid_poke ((MAX_ROWS - 1) * MAX_COLS * 2 + 2 * i) 32 s)) [0..int k - 1] s) off
     = (if 3840 \<le> off \<and> off < 3840 + 2 * k then (if even off then 32 else b) else vid s off)"
proof (induction k arbitrary: off)
  case 0
  then show ?case by auto
next
  case (Suc k)
  let ?F = "\<lambda>k. fold (\<lambda>i s. vid_poke ((MAX_ROWS - 1) * MAX_COLS * 2 + (2 * i + 1)) b
                   (vid_poke ((MAX_ROWS - 1) * MAX_COLS * 2 + 2 * i) 32 s)) [0..k] s"
  have "[0..int (Suc k) - 1] = [0..int k - 1] @ [int k]"
    by (subst upto_rec2) auto
  then have "?F (int (Suc k) - 1) =
      vid_poke (int (3840 + (2 * k + 1))) b (vid_poke (int (3840 + 2 * k)) 32 (?F (int k - 1)))"
    by (simp add: MAX_COLS_def MAX_ROWS_def)
  then have "vid (?F (int (Suc k) - 1)) off =
      (if off = 3840 + (2 * k + 1) then b else if off = 3840 + 2 * k then 32 else vid (?F (int k - 1)) off)"
    using Suc.prems by (simp only:) (simp add: vid_vid_poke del: of_nat_add of_nat_mult)
  moreover have "off < 3842 + 2 * k \<longleftrightarrow> off < 3840 + 2 * k \<or> off = 3840 + 2 * k \<or> off = 3841 + 2 * k"
    by auto
  ultimately show ?case using Suc by (auto simp: Suc.IH)
qed

lemma vid_blank_last_row:
  "off < 4000 \<Longrightarrow> vid (blank_last_row b s) off = (if 3840 \<le> off then (if even off then 32 else b) else vid s off)"
  using vid_blank_step [of 80 off b s] by (simp add: blank_last_row_def MAX_COLS_def)

lemma cells_scroll:
  "cells (blank_last_row b (scroll_rows s)) = drop 80 (cells s) @ replicate 80 (32, b)"
proof (rule nth_equalityI)
  fix i assume "i < length (cells (blank_last_row b (scroll_rows s)))"
  then have i: "i < 2000" by (simp add: cells_def)
  show "cells (blank_last_row b (scroll_rows s)) ! i = (drop 80 (cells s) @ replicate 80 (32, b)) ! i"
    using i by (auto simp: cells_def vid_blank_last_row vid_scroll_rows nth_append ac_simps)
qed (simp add: cells_def)

lemma vid_poke2:
  assumes "pos < 2000" "off < 2 ^ 64"
  shows "vid (vid_poke (int (2 * pos) + 1) b (vid_poke (int (2 * pos)) c s)) off =
    (if off = 2 * pos + 1 then b else if off = 2 * pos then c else vid s off)"
proof -
  have "vid (vid_poke (int k) v t) off = (if off = k then v else vid t off)" if "k \<le> 4000" for k v
    and t :: "'a machine_scheme"
    using assms that by (intro vid_vid_poke) auto
  from this [of "2 * pos + 1" b "vid_poke (int (2 * pos)) c s"] this [of "2 * pos" c s]
  show ?thesis using assms by (simp add: add.commute)
qed

lemma cells_vid_poke2:
  assumes "pos < 2000"
  shows "cells (vid_poke (int (2 * pos) + 1) b (vid_poke (int (2 * pos)) c s)) = (cells s)[pos := (c, b)]"
proof (rule nth_equalityI)
  fix i assume "i < length (cells (vid_poke (int (2 * pos) + 1) b (vid_poke (int (2 * pos)) c s)))"
  then have i: "i < 2000" by (simp add: cells_def)
  have "2 * i + 1 \<noteq> 2 * pos" "2 * i \<noteq> 2 * pos + 1" by presburger+
  with i assms show "cells (vid_poke (int (2 * pos) + 1) b (vid_poke (int (2 * pos)) c s)) ! i
      = (cells s)[pos := (c, b)] ! i"
    by (simp add: cells_def vid_poke2 nth_list_update del: of_nat_mult)
qed (simp add: cells_def)

lemma cells_mem_cong: "mem s' = mem s \<Longrightarrow> cells s' = cells s"
  by (simp add: cells_def vid_def)

definition shows_terminal :: "'a machine_scheme \<Rightarrow> cell list \<times> nat \<Rightarrow> bool" where
  "shows_terminal s t \<longleftrightarrow>
     crtc_device (dev8 s) \<and> cursor_cell s (snd t) \<and> snd t < 2000 \<and> cells s = fst t"

lemma dev8_screen [simp]:
  "dev8 (vid_poke off v s) = dev8 s" "dev8 (set_cursor_offset off s) = dev8 s"
  "dev8 (blank_last_row b s) = dev8 s" "dev8 (scroll_rows s) = dev8 s"
  by (simp_all add: vid_poke_def poke_def touches_dev [OF touches_set_cursor]
      touches_dev [OF touches_blank_last_row] touches_dev [OF touches_scroll_rows])

lemma mem_set_cursor [simp]: "mem (set_cursor_offset off s) = mem s"
  by (simp add: set_cursor_offset_def Let_def)

lemma print_char_refines:
  assumes "shows_terminal s t"
  shows "shows_terminal (print_char c (-1) (-1) WHITE_ON_BLACK s) (term_char c t)"
proof -
  obtain cs pos where t: "t = (cs, pos)" by (cases t)
  have dev: "crtc_device (dev8 s)" and cur: "cursor_cell s pos" and pos: "pos < 2000" and cs: "cells s = cs"
    using assms by (auto simp: shows_terminal_def t)
  obtain s1 where s1: "get_cursor_offset s = (2 * int pos, s1)" "cursor_cell s1 pos" "mem s1 = mem s" "dev8 s1 = dev8 s"
    using get_cursor_offset_cell [OF dev cur] by auto
  obtain s2 where s2: "get_cursor_offset s1 = (2 * int pos, s2)" "mem s2 = mem s" "dev8 s2 = dev8 s"
    using get_cursor_offset_cell [of s1 pos] dev s1 by auto
  have fin: "shows_terminal (set_cursor_offset (2 * int p) u) (ds, p)"
    if "p < 2000" "cells u = ds" "dev8 u = dev8 s" for p u ds
    using that dev set_cursor_offset_cell [of p u] cells_mem_cong [of "set_cursor_offset (2 * int p) u" u]
    by (simp add: shows_terminal_def)
  define p' u where "p' = (if c = 10 then (pos div 80 + 1) * 80 else pos + 1)"
    and "u = (if c = 10 then s2 else vid_poke (int (2 * pos) + 1) WHITE_ON_BLACK (vid_poke (int (2 * pos)) c s1))"
  have u: "cells u = (if c = 10 then cs else cs[pos := (c, 0x0f)])" "dev8 u = dev8 s"
    using cells_vid_poke2 [OF pos, of WHITE_ON_BLACK c s1] cells_mem_cong [of s1 s] cells_mem_cong [of s2 s]
      s1 s2 cs by (auto simp: u_def WHITE_ON_BLACK_def)
  have p'2: "p' \<le> 2000" using pos by (auto simp: p'_def)
  have div: "2 * int pos sdiv 160 = int (pos div 80)"
    by (simp add: sdiv_nonneg zdiv_int)
  have eq: "print_char c (-1) (-1) WHITE_ON_BLACK s =
    (if p' \<ge> 2000 then set_cursor_offset (2 * int (p' - 80)) (blank_last_row WHITE_ON_BLACK (scroll_rows u))
     else set_cursor_offset (2 * int p') u)"
  proof (cases "c = 10")
    case True
    then show ?thesis
      using div s1 s2 by (auto simp: print_char_def Let_def p'_def u_def screen_consts algebra_simps of_nat_diff)
  next
    case False
    then show ?thesis
      using s1 by (auto simp: print_char_def Let_def p'_def u_def screen_consts algebra_simps of_nat_diff)
  qed
  have tc: "term_char c t =
    (if p' \<ge> 2000 then (drop 80 (cells u) @ replicate 80 (32, WHITE_ON_BLACK), p' - 80) else (cells u, p'))"
    using u by (simp add: t term_char_def Let_def p'_def WHITE_ON_BLACK_def)
  show ?thesis
  proof (cases "p' \<ge> 2000")
    case True
    have "shows_terminal (set_cursor_offset (2 * int (p' - 80)) (blank_last_row WHITE_ON_BLACK (scroll_rows u)))
        (drop 80 (cells u) @ replicate 80 (32, WHITE_ON_BLACK), p' - 80)"
      by (rule fin) (use p'2 in \<open>auto simp: cells_scroll u(2)\<close>)
    with True show ?thesis unfolding eq tc by simp
  next
    case False
    then have "shows_terminal (set_cursor_offset (2 * int p') u) (cells u, p')"
      using u by (intro fin) auto
    with False show ?thesis unfolding eq tc by simp
  qed
qed

lemma kprint_refines:
  assumes "shows_terminal s t"
  shows "shows_terminal (kprint msg s) (term_text msg t)"
proof -
  have "shows_terminal (kprint_loop msg (-1) (-1) s) (term_text msg t)"
    using assms
  proof (induction msg arbitrary: s t)
    case (Cons c msg)
    then show ?case using print_char_refines [OF Cons.prems, of c] by simp
  qed simp
  then show ?thesis by (simp add: kprint_def kprint_at_def)
qed


definition term_backspace :: "cell list \<times> nat \<Rightarrow> cell list \<times> nat" where
  "term_backspace t = (let pos = snd t - 1 in ((fst t)[pos := (32, 0x0f)], pos))"

lemma kprint_backspace_refines:
  assumes "shows_terminal s t"
  shows "shows_terminal (kprint_backspace s) (term_backspace t)"
proof -
  obtain cs pos where t: "t = (cs, pos)" by (cases t)
  have dev: "crtc_device (dev8 s)" and cur: "cursor_cell s pos" and pos: "pos < 2000" and cs: "cells s = cs"
    using assms by (auto simp: shows_terminal_def t)
  obtain s1 where s1: "get_cursor_offset s = (2 * int pos, s1)" "mem s1 = mem s" "dev8 s1 = dev8 s"
    using get_cursor_offset_cell [OF dev cur] by auto
  let ?p = "pos - 1"
  have off: "(if 2 * int pos - 2 < 0 then 0 else 2 * int pos - 2) = 2 * int ?p" by auto
  have bs: "kprint_backspace s =
      vid_poke (int (2 * ?p) + 1) 0x0f (vid_poke (int (2 * ?p)) 32 (set_cursor_offset (2 * int ?p) s1))"
    unfolding kprint_backspace_def s1(1) Let_def prod.case off by simp
  have "cells (kprint_backspace s) = cs[?p := (32, 0x0f)]"
    unfolding bs using pos cs s1(2) cells_mem_cong [of "set_cursor_offset (2 * int ?p) s1" s]
    by (subst cells_vid_poke2) auto
  moreover have "cursor_cell (kprint_backspace s) ?p"
    using set_cursor_offset_cell [of ?p s1] pos unfolding bs
    by (simp add: cursor_cell_def vid_poke_def poke_def)
  moreover have "dev8 (kprint_backspace s) = dev8 s"
    unfolding bs by (simp add: s1)
  ultimately show ?thesis using dev pos by (simp add: shows_terminal_def term_backspace_def t Let_def)
qed

lemma vid_clear_step:
  "k \<le> 2000 \<Longrightarrow> off < 4000 \<Longrightarrow>
   vid (fold (\<lambda>i s. vid_poke (i * 2 + 1) WHITE_ON_BLACK (vid_poke (i * 2) 32 s)) [0..int k - 1] s) off
     = (if off < 2 * k then (if even off then 32 else WHITE_ON_BLACK) else vid s off)"
proof (induction k arbitrary: off)
  case 0
  then show ?case by simp
next
  case (Suc k)
  let ?F = "\<lambda>k. fold (\<lambda>i s. vid_poke (i * 2 + 1) WHITE_ON_BLACK (vid_poke (i * 2) 32 s)) [0..k] s"
  have "[0..int (Suc k) - 1] = [0..int k - 1] @ [int k]"
    by (subst upto_rec2) auto
  then have "?F (int (Suc k) - 1) =
      vid_poke (int (2 * k) + 1) WHITE_ON_BLACK (vid_poke (int (2 * k)) 32 (?F (int k - 1)))"
    by (simp add: mult.commute)
  then have "vid (?F (int (Suc k) - 1)) off =
      (if off = 2 * k + 1 then WHITE_ON_BLACK else if off = 2 * k then 32 else vid (?F (int k - 1)) off)"
    using Suc.prems by (simp only:) (rule vid_poke2, auto)
  moreover have "off < 2 + 2 * k \<longleftrightarrow> off < 2 * k \<or> off = 2 * k \<or> off = 2 * k + 1"
    by auto
  ultimately show ?case using Suc by (auto simp: Suc.IH)
qed

lemma clear_screen_refines:
  assumes "crtc_device (dev8 s)"
  shows "shows_terminal (clear_screen s) (replicate 2000 (32, 0x0f), 0)"
proof -
  let ?u = "fold (\<lambda>i s. vid_poke (i * 2 + 1) WHITE_ON_BLACK (vid_poke (i * 2) 32 s)) [0..1999] s"
  have eq: "clear_screen s = set_cursor_offset 0 ?u"
    by (simp add: clear_screen_def MAX_COLS_def MAX_ROWS_def)
  have "vid ?u off = (if even off then 32 else 0x0f)" if "off < 4000" for off
    using vid_clear_step [of 2000 off s] that by (simp add: WHITE_ON_BLACK_def)
  then have "cells ?u = replicate 2000 (32, 0x0f)"
    by (intro nth_equalityI) (simp_all add: cells_def)
  then have "cells (clear_screen s) = replicate 2000 (32, 0x0f)"
    unfolding eq by (subst cells_mem_cong [of _ ?u]) simp_all
  moreover have "cursor_cell (clear_screen s) 0"
    using set_cursor_offset_cell [of 0 ?u] by (simp add: eq)
  moreover have "dev8 (clear_screen s) = dev8 s"
  proof -
    have "dev8 (fold (\<lambda>i s. vid_poke (i * 2 + 1) WHITE_ON_BLACK (vid_poke (i * 2) 32 s)) xs u) = dev8 u"
      for xs and u :: "'a machine_scheme"
      by (induction xs arbitrary: u) simp_all
    then show ?thesis by (simp add: eq)
  qed
  ultimately show ?thesis using assms by (simp add: shows_terminal_def)
qed

text \<open>
  C30: The console driver implements the abstract terminal: on hardware whose CRT controller
  registers read back what was written, printing a message, a backspace and clearing the screen
  have exactly the effect of the abstract operations on the 25 by 80 cells and the cursor, and the
  cursor stays on the screen. Scrolling included.
\<close>

theorem console_refines_terminal:
  assumes "shows_terminal s t"
  shows "shows_terminal (kprint msg s) (term_text msg t) \<and>
    shows_terminal (kprint_backspace s) (term_backspace t) \<and>
    shows_terminal (clear_screen s) (replicate 2000 (32, 0x0f), 0)"
  using assms kprint_refines [OF assms, of msg] kprint_backspace_refines [OF assms]
    clear_screen_refines [of s]
  by (simp add: shows_terminal_def [of s])

text \<open>A machine whose CRT controller behaves, with the cursor in the top left corner.\<close>

definition crtc_answer :: "io_event list \<Rightarrow> u16 \<Rightarrow> u8" where
  "crtc_answer h p =
     (case crtc_index h of None \<Rightarrow> 0
      | Some r \<Rightarrow> (case crtc_reg r h of None \<Rightarrow> 0 | Some v \<Rightarrow> v))"

definition blank_machine :: machine where
  "blank_machine =
     \<lparr>mem = (\<lambda>_. 0), io = [OutB 0x3d5 0, OutB 0x3d4 15, OutB 0x3d5 0, OutB 0x3d4 14],
      dev8 = crtc_answer, dev16 = (\<lambda>_ _. 0)\<rparr>"

lemma blank_machine_terminal: "shows_terminal blank_machine (replicate 2000 (0, 0), 0)"
  by (simp add: shows_terminal_def blank_machine_def crtc_device_def crtc_answer_def cursor_cell_def
      cells_def vid_def map_replicate_const)

theorem console_refines_terminal_witness:
  "shows_terminal blank_machine (replicate 2000 (0, 0), 0) \<and>
   shows_terminal (kprint (chars ''ok'') blank_machine)
     (term_text (chars ''ok'') (replicate 2000 (0, 0), 0))"
  using console_refines_terminal [OF blank_machine_terminal] blank_machine_terminal by blast

end
