(* ===== verification/Memory_Map.thy ===== *)
theory Memory_Map
  imports Screen
begin

text \<open>
  The memory map that the boot loader leaves at \<^verbatim>\<open>0x5000\<close> (a 16-bit count) and \<^verbatim>\<open>0x5004\<close>
  (packed 24-byte entries), and the command that prints it (\<^verbatim>\<open>src/kernel/memory.c\<close>,
  \<^verbatim>\<open>includes/memory.h\<close>).
\<close>

record memory_map_entry_t =
  base_addr :: u64
  len :: u64
  mtype :: u32
  acpi :: u32

definition e820_count :: "'a machine_scheme \<Rightarrow> nat" where
  "e820_count s = unat (read16 (mem s) 0x5000)"

definition e820_entry :: "'a machine_scheme \<Rightarrow> nat \<Rightarrow> memory_map_entry_t" where
  "e820_entry s i =
     (let a = 0x5004 + 24 * of_nat i in
      \<lparr>base_addr = read64 (mem s) a, len = read64 (mem s) (a + 8),
       mtype = read32 (mem s) (a + 16), acpi = read32 (mem s) (a + 20)\<rparr>)"

definition print_memory_map :: "'a machine_scheme \<Rightarrow> 'a machine_scheme" where
  "print_memory_map s =
     (let entry_count = e820_count s;
          s = kprint (chars ''Memory Map Entries: '') s;
          s = kprint_hex (of_nat entry_count) s;
          s = kprint [10] s
      in fold (\<lambda>i s.
           (let s = kprint (chars ''Base: '') s;
                s = kprint_hex (base_addr (e820_entry s i)) s;
                s = kprint (chars '' Length: '') s;
                s = kprint_hex (len (e820_entry s i)) s;
                s = kprint (chars '' Type: '') s
            in if mtype (e820_entry s i) = 1 then kprint (chars ''1 (Free)'' @ [10]) s
               else kprint (chars ''Other'' @ [10]) s)) [0..<entry_count] s)"

section \<open>The map is out of reach of the console and of anything above 2 MB\<close>

text \<open>The area below 2 MB that holds the largest map a 16-bit count allows.\<close>

definition e820_area :: "u64 set" where
  "e820_area = region 0x5000 (4 + 24 * 65536)"

lemma e820_area_iff: "a \<in> e820_area \<longleftrightarrow> 0x5000 \<le> unat a \<and> unat a < 0x5000 + (4 + 24 * 65536)"
  unfolding e820_area_def by (subst region_no_wrap) auto

lemma e820_count_lt: "e820_count s < 65536"
  using unsigned_less [of "read16 (mem s) 0x5000"] by (simp add: e820_count_def)

lemma e820_entry_region:
  assumes "i < 65536" and "k + n \<le> 24"
  shows "region (0x5004 + 24 * of_nat i + of_nat k) n \<subseteq> e820_area"
proof -
  have "0x5004 + 24 * of_nat i + of_nat k = (0x5000 + of_nat (4 + 24 * i + k) :: u64)" by simp
  moreover have "region (0x5000 + of_nat (4 + 24 * i + k)) n \<subseteq> region 0x5000 (4 + 24 * 65536)"
    by (rule region_sub) (use assms in auto)
  ultimately show ?thesis by (simp add: e820_area_def ac_simps)
qed

lemma e820_load_cong:
  assumes "\<And>a. a \<in> e820_area \<Longrightarrow> m' a = m a" and "i < 65536" and "k + n \<le> 24"
  shows "(load m' (0x5004 + 24 * of_nat i + of_nat k) n :: 'b::len word) =
    load m (0x5004 + 24 * of_nat i + of_nat k) n"
  using assms e820_entry_region [OF assms(2,3)] by (intro load_cong_region) auto

lemma e820_cong:
  assumes "\<And>a. a \<in> e820_area \<Longrightarrow> mem s' a = mem s a"
  shows "e820_count s' = e820_count s"
    and "i < 65536 \<Longrightarrow> e820_entry s' i = e820_entry s i"
proof -
  have "region 0x5000 2 \<subseteq> e820_area" by (simp add: e820_area_def region_mono)
  then show "e820_count s' = e820_count s"
    unfolding e820_count_def read16_def using assms
    by (intro arg_cong [of _ _ unat] load_cong_region) auto
  assume i: "i < 65536"
  show "e820_entry s' i = e820_entry s i"
    using e820_load_cong [where m' = "mem s'" and m = "mem s" and k = 0 and n = 8, OF assms i]
      e820_load_cong [where m' = "mem s'" and m = "mem s" and k = 8 and n = 8, OF assms i]
      e820_load_cong [where m' = "mem s'" and m = "mem s" and k = 16 and n = 4, OF assms i]
      e820_load_cong [where m' = "mem s'" and m = "mem s" and k = 20 and n = 4, OF assms i]
    by (simp add: e820_entry_def Let_def read64_def read32_def)
qed

end
