(* ===== verification/Pmm.thy ===== *)
theory Pmm
  imports Memory_Map
begin

text \<open>
  The physical memory manager of \<^verbatim>\<open>src/kernel/pmm.c\<close>: one bit per 4 KB block in a bitmap at
  \<^verbatim>\<open>0x200000\<close>, a set bit for a block in use.
\<close>

record pmm = machine +
  bitmap :: u64
  total_blocks :: u64
  bitmap_size :: u64

definition BLOCK_SIZE :: u64 where "BLOCK_SIZE = 4096"

section \<open>The operations of pmm.c\<close>

text \<open>The 32-bit word of the bitmap that holds a bit, and the three macros.\<close>

definition bitmap_word :: "u64 \<Rightarrow> 'a pmm_scheme \<Rightarrow> u64" where
  "bitmap_word idx s = bitmap s + 4 * (idx div 32)"

definition SET_BIT :: "u64 \<Rightarrow> 'a pmm_scheme \<Rightarrow> 'a pmm_scheme" where
  "SET_BIT idx s =
     (let a = bitmap_word idx s
      in poke32 a (read32 (mem s) a OR push_bit (unat (idx mod 32)) 1) s)"

definition CLEAR_BIT :: "u64 \<Rightarrow> 'a pmm_scheme \<Rightarrow> 'a pmm_scheme" where
  "CLEAR_BIT idx s =
     (let a = bitmap_word idx s
      in poke32 a (read32 (mem s) a AND NOT (push_bit (unat (idx mod 32)) 1)) s)"

definition TEST_BIT :: "u64 \<Rightarrow> 'a pmm_scheme \<Rightarrow> bool" where
  "TEST_BIT idx s \<longleftrightarrow>
     read32 (mem s) (bitmap_word idx s) AND push_bit (unat (idx mod 32)) 1 \<noteq> 0"

text \<open>The loops of \<^verbatim>\<open>init_pmm\<close>: the end of the highest usable entry, and the release of one entry.\<close>

definition max_usable :: "'a machine_scheme \<Rightarrow> u64" where
  "max_usable s =
     fold (\<lambda>i max_addr.
         (if mtype (e820_entry s i) = 1 then
            (let end = base_addr (e820_entry s i) + len (e820_entry s i)
             in if end > max_addr then end else max_addr)
          else max_addr)) [0..<e820_count s] 0"

definition clear_blocks :: "u64 \<Rightarrow> u64 \<Rightarrow> 'a pmm_scheme \<Rightarrow> 'a pmm_scheme" where
  "clear_blocks start_block num_blocks s =
     fold (\<lambda>j. CLEAR_BIT (start_block + of_nat j)) [0..<unat num_blocks] s"

definition release_usable :: "nat \<Rightarrow> 'a pmm_scheme \<Rightarrow> 'a pmm_scheme" where
  "release_usable entry_count s =
     fold (\<lambda>i s.
         (if mtype (e820_entry s i) = 1 then
            clear_blocks (base_addr (e820_entry s i) div BLOCK_SIZE)
              (len (e820_entry s i) div BLOCK_SIZE) s
          else s)) [0..<entry_count] s"

definition init_pmm :: "'a pmm_scheme \<Rightarrow> 'a pmm_scheme" where
  "init_pmm s =
     (let entry_count = e820_count s;
          max_addr = max_usable s;
          s = s\<lparr>total_blocks := max_addr div BLOCK_SIZE\<rparr>;
          s = s\<lparr>bitmap_size := total_blocks s div 8\<rparr>;
          s = s\<lparr>bitmap := 0x200000\<rparr>;
          s = memset (bitmap s) 0xff (bitmap_size s) s;
          s = release_usable entry_count s;
          reserved_blocks = (0x2000000 div BLOCK_SIZE :: u64);
          s = fold (\<lambda>i. SET_BIT (of_nat i)) [0..<unat reserved_blocks] s;
          s = kprint (chars ''PMM Initialized. Total Memory: '') s;
          s = kprint_hex max_addr s
      in kprint [10] s)"

text \<open>The search loop of \<^verbatim>\<open>pmm_alloc_block\<close> from block \<open>i\<close> on.\<close>

function pmm_find :: "'a pmm_scheme \<Rightarrow> nat \<Rightarrow> nat option" where
  "pmm_find s i =
     (if i < unat (total_blocks s) then
        (if \<not> TEST_BIT (of_nat i) s then Some i else pmm_find s (Suc i))
      else None)"
  by pat_completeness auto
termination
  by (relation "measure (\<lambda>(s, i). unat (total_blocks s) - i)") auto

declare pmm_find.simps [simp del]

definition pmm_alloc_block :: "'a pmm_scheme \<Rightarrow> u64 \<times> 'a pmm_scheme" where
  "pmm_alloc_block s =
     (case pmm_find s 0 of
        Some i \<Rightarrow> (of_nat i * BLOCK_SIZE, SET_BIT (of_nat i) s)
      | None \<Rightarrow>
          (let s = kprint (chars ''PMM Alloc Failed. Total: '') s;
               s = kprint_hex (total_blocks s) s;
               s = kprint [10] s
           in (0, s)))"

definition pmm_free_block :: "u64 \<Rightarrow> 'a pmm_scheme \<Rightarrow> 'a pmm_scheme" where
  "pmm_free_block p s = (let idx = p div BLOCK_SIZE in CLEAR_BIT idx s)"

section \<open>The bitmap as a set of blocks\<close>

definition block_used :: "'a pmm_scheme \<Rightarrow> nat \<Rightarrow> bool" where
  "block_used s i = bit (mem s (bitmap s + of_nat (i div 8))) (i mod 8)"

definition free_blocks :: "'a pmm_scheme \<Rightarrow> nat set" where
  "free_blocks s = {i. i < unat (total_blocks s) \<and> \<not> block_used s i}"

lemma bitmap_word_byte:
  assumes "i < 2 ^ 64"
  shows "bitmap_word (of_nat i) s + of_nat (i mod 32 div 8) = bitmap s + of_nat (i div 8)"
    and "unat ((of_nat i :: u64) mod 32) = i mod 32"
proof -
  have u: "unat (of_nat i :: u64) = i" using assms by (rule unat64_of_nat)
  have d: "(of_nat i :: u64) div 32 = of_nat (i div 32)"
    by (rule word_unat_eq_iff [THEN iffD2]) (use assms u in \<open>simp add: unat_div unat64_of_nat\<close>)
  show "unat ((of_nat i :: u64) mod 32) = i mod 32" by (simp add: unat_mod u)
  have "4 * (i div 32) + i mod 32 div 8 = i div 8" by presburger
  then have "(4 * of_nat (i div 32) + of_nat (i mod 32 div 8) :: u64) = of_nat (i div 8)"
    by (metis of_nat_add of_nat_mult of_nat_numeral)
  then show "bitmap_word (of_nat i) s + of_nat (i mod 32 div 8) = bitmap s + of_nat (i div 8)"
    by (simp add: bitmap_word_def d add.assoc)
qed

lemma mod_mod_8: "(i :: nat) mod 32 mod 8 = i mod 8"
  by (simp add: mod_mod_cancel)

lemma SET_BIT_eq:
  assumes "i < 2 ^ 64"
  shows "SET_BIT (of_nat i) s = poke (bitmap s + of_nat (i div 8))
    (set_bit (i mod 8) (mem s (bitmap s + of_nat (i div 8)))) s"
  using write32_or_bit [of "i mod 32" "mem s" "bitmap_word (of_nat i) s"]
  by (simp add: SET_BIT_def Let_def poke32_def poke_def mod_mod_8 bitmap_word_byte [OF assms])

lemma CLEAR_BIT_eq:
  assumes "i < 2 ^ 64"
  shows "CLEAR_BIT (of_nat i) s = poke (bitmap s + of_nat (i div 8))
    (unset_bit (i mod 8) (mem s (bitmap s + of_nat (i div 8)))) s"
  using write32_and_not_bit [of "i mod 32" "mem s" "bitmap_word (of_nat i) s"]
  by (simp add: CLEAR_BIT_def Let_def poke32_def poke_def mod_mod_8 bitmap_word_byte [OF assms])

lemma TEST_BIT_eq:
  assumes "i < 2 ^ 64"
  shows "TEST_BIT (of_nat i) s \<longleftrightarrow> block_used s i"
proof -
  have "TEST_BIT (of_nat i) s \<longleftrightarrow> bit (read32 (mem s) (bitmap_word (of_nat i) s)) (i mod 32)"
    by (simp only: TEST_BIT_def bitmap_word_byte(2) [OF assms] bit_iff_and_push_bit_not_eq_0)
  also have "\<dots> \<longleftrightarrow> block_used s i"
    by (simp add: read32_def bit_load block_used_def mod_mod_8 bitmap_word_byte(1) [OF assms])
  finally show ?thesis .
qed

lemma byte_of_block_inj:
  "i < 2 ^ 64 \<Longrightarrow> j < 2 ^ 64 \<Longrightarrow> (of_nat (i div 8) = (of_nat (j div 8) :: u64)) \<longleftrightarrow> i div 8 = j div 8"
  by (simp add: of_nat_u64_inj div_le_dividend le_less_trans)

lemma same_block: "(i :: nat) = j \<longleftrightarrow> i div 8 = j div 8 \<and> i mod 8 = j mod 8"
  by (metis div_mod_decomp)

lemma pmm_vars_bits [simp]:
  "bitmap (SET_BIT k s) = bitmap s" "total_blocks (SET_BIT k s) = total_blocks s"
  "bitmap (CLEAR_BIT k s) = bitmap s" "total_blocks (CLEAR_BIT k s) = total_blocks s"
  by (simp_all add: SET_BIT_def CLEAR_BIT_def Let_def poke32_def)

lemma block_used_SET_BIT:
  "i < 2 ^ 64 \<Longrightarrow> j < 2 ^ 64 \<Longrightarrow> block_used (SET_BIT (of_nat i) s) j \<longleftrightarrow> j = i \<or> block_used s j"
  unfolding SET_BIT_eq
  by (auto simp: block_used_def poke_def byte_of_block_inj bit_set_bit_iff same_block [of j i])

lemma block_used_CLEAR_BIT:
  "i < 2 ^ 64 \<Longrightarrow> j < 2 ^ 64 \<Longrightarrow> block_used (CLEAR_BIT (of_nat i) s) j \<longleftrightarrow> j \<noteq> i \<and> block_used s j"
  unfolding CLEAR_BIT_eq
  by (auto simp: block_used_def poke_def byte_of_block_inj bit_unset_bit_iff same_block [of j i])

text \<open>The memory that the bitmap may occupy: from 2 MB up to the end of the reserved 32 MB.\<close>

definition bitmap_area :: "u64 set" where
  "bitmap_area = region 0x200000 0x1e00000"

definition max_blocks :: nat where
  "max_blocks = 8 * 0x1e00000"

text \<open>
  The invariant of the manager: the bitmap lies at \<^verbatim>\<open>0x200000\<close>, it covers a memory small
  enough for the whole bitmap to lie below 32 MB, and the first 32 MB are in use for ever.
\<close>

definition pmm_wf :: "'a pmm_scheme \<Rightarrow> bool" where
  "pmm_wf s \<longleftrightarrow> bitmap s = 0x200000 \<and> unat (total_blocks s) \<le> max_blocks \<and>
     (\<forall>i < 8192. block_used s i)"

lemma pmm_find_step:
  "pmm_find s i =
    (if i < unat (total_blocks s) then (if i \<in> free_blocks s then Some i else pmm_find s (Suc i)) else None)"
proof (cases "i < unat (total_blocks s)")
  case True
  then have "i < 2 ^ 64" by (rule less_trans [OF _ unat64_lt])
  with True show ?thesis by (subst pmm_find.simps) (simp add: TEST_BIT_eq free_blocks_def)
qed (simp add: pmm_find.simps [of s i])

lemma all_ge_Suc: "(\<forall>j \<ge> i. P j) \<longleftrightarrow> P i \<and> (\<forall>j \<ge> Suc i. P j)"
  by (metis Suc_leD Suc_leI le_neq_implies_less order_refl)

lemma pmm_find_None: "pmm_find s i = None \<longleftrightarrow> (\<forall>j \<ge> i. j \<notin> free_blocks s)"
proof (induction s i rule: pmm_find.induct)
  case (1 s i)
  show ?case
  proof (cases "i < unat (total_blocks s)")
    case True
    then have "i < 2 ^ 64" by (rule less_trans [OF _ unat64_lt])
    then have "TEST_BIT (of_nat i) s \<longleftrightarrow> i \<notin> free_blocks s" using True by (simp add: TEST_BIT_eq free_blocks_def)
    with True 1 show ?thesis
      by (subst pmm_find_step, subst all_ge_Suc) auto
  qed (auto simp: pmm_find.simps [of s i] free_blocks_def)
qed

lemma pmm_find_Some:
  "pmm_find s i = Some k \<Longrightarrow> k \<in> free_blocks s \<and> i \<le> k \<and> (\<forall>j \<in> free_blocks s. i \<le> j \<longrightarrow> k \<le> j)"
proof (induction s i rule: pmm_find.induct)
  case (1 s i)
  have lt: "i < unat (total_blocks s)" using "1.prems" by (subst (asm) pmm_find_step) (auto split: if_splits)
  then have "i < 2 ^ 64" by (rule less_trans [OF _ unat64_lt])
  then have t: "TEST_BIT (of_nat i) s \<longleftrightarrow> i \<notin> free_blocks s" using lt by (simp add: TEST_BIT_eq free_blocks_def)
  show ?case
  proof (cases "i \<in> free_blocks s")
    case True
    then show ?thesis using "1.prems" lt by (simp add: pmm_find_step [of s i])
  next
    case False
    then have "pmm_find s (Suc i) = Some k" using "1.prems" lt by (simp add: pmm_find_step [of s i])
    with 1 lt t False have IH: "k \<in> free_blocks s \<and> Suc i \<le> k \<and> (\<forall>j \<in> free_blocks s. Suc i \<le> j \<longrightarrow> k \<le> j)"
      by auto
    then show ?thesis using False by (metis Suc_leD Suc_leI le_neq_implies_less)
  qed
qed

text \<open>The block that the first-fit search finds.\<close>

definition first_free :: "'a pmm_scheme \<Rightarrow> nat" where
  "first_free s = (LEAST i. i \<in> free_blocks s)"

lemma pmm_find_0: "pmm_find s 0 = (if free_blocks s = {} then None else Some (first_free s))"
proof (cases "pmm_find s 0")
  case None
  then show ?thesis using pmm_find_None [of s 0] by auto
next
  case (Some k)
  then have k: "k \<in> free_blocks s" "\<forall>j \<in> free_blocks s. k \<le> j" using pmm_find_Some [OF Some] by auto
  then have "first_free s = k" unfolding first_free_def by (intro Least_equality) auto
  then show ?thesis using Some k by auto
qed

lemma first_free_mem: "free_blocks s \<noteq> {} \<Longrightarrow> first_free s \<in> free_blocks s"
  unfolding first_free_def by (metis LeastI_ex all_not_in_conv)

lemma first_free_le: "i \<in> free_blocks s \<Longrightarrow> first_free s \<le> i"
  unfolding first_free_def by (rule Least_le)

lemma free_blocks_bounds:
  assumes "pmm_wf s" and "i \<in> free_blocks s"
  shows "8192 \<le> i" and "i < max_blocks" and "i < 2 ^ 52"
    and "unat (of_nat i * BLOCK_SIZE :: u64) = i * 4096"
proof -
  show 1: "8192 \<le> i" and 2: "i < max_blocks"
    using assms by (auto simp: pmm_wf_def free_blocks_def not_less [symmetric])
  then show 3: "i < 2 ^ 52" by (simp add: max_blocks_def)
  have "(of_nat i * BLOCK_SIZE :: u64) = of_nat (i * 4096)" by (simp add: BLOCK_SIZE_def)
  then show "unat (of_nat i * BLOCK_SIZE :: u64) = i * 4096"
    using 3 by (simp only:) (rule unat64_of_nat, simp)
qed

lemma free_blocks_SET_BIT:
  assumes "i < 2 ^ 64"
  shows "free_blocks (SET_BIT (of_nat i) s) = free_blocks s - {i}"
proof -
  have "j < 2 ^ 64" if "j < unat (total_blocks s)" for j using that by (rule less_trans [OF _ unat64_lt])
  then show ?thesis using assms by (auto simp: free_blocks_def block_used_SET_BIT)
qed

lemma block_byte_in_area:
  "i < max_blocks \<Longrightarrow> 0x200000 + of_nat (i div 8) \<in> bitmap_area"
  unfolding bitmap_area_def by (rule in_region_offset) (auto simp: max_blocks_def)

lemma pmm_wf_SET_BIT: "i < 2 ^ 64 \<Longrightarrow> pmm_wf s \<Longrightarrow> pmm_wf (SET_BIT (of_nat i) s)"
  by (simp add: pmm_wf_def block_used_SET_BIT)

lemma touches_pmm_vars:
  "touches A s s' \<Longrightarrow> bitmap s' = bitmap s \<and> total_blocks s' = total_blocks s \<and> bitmap_size s' = bitmap_size s"
  using touches_eq [of A s s']
  by (metis pmm.select_convs pmm.surjective pmm.update_convs machine.update_convs)

text \<open>A step that leaves the bitmap alone keeps the invariant and the free blocks.\<close>

lemma pmm_frame:
  assumes "pmm_wf s" and "touches A s s'" and "A \<inter> bitmap_area = {}"
  shows "pmm_wf s'" and "free_blocks s' = free_blocks s"
proof -
  note vars = touches_pmm_vars [OF assms(2)]
  have "mem s' (0x200000 + of_nat (i div 8)) = mem s (0x200000 + of_nat (i div 8))" if "i < max_blocks" for i
    using touches_mem [OF assms(2)] assms(3) block_byte_in_area [OF that] by blast
  then have used: "block_used s' i = block_used s i" if "i < max_blocks" for i
    using assms(1) that vars by (simp add: block_used_def pmm_wf_def)
  then show "pmm_wf s'" using assms(1) vars by (auto simp: pmm_wf_def max_blocks_def)
  show "free_blocks s' = free_blocks s"
    using used vars assms(1) by (auto simp: free_blocks_def pmm_wf_def)
qed

lemma video_not_bitmap: "video_window \<inter> bitmap_area = {}"
  unfolding video_window_def bitmap_area_def VIDEO_ADDRESS_def by (rule region_disjointI) auto

section \<open>Allocation\<close>

lemma pmm_alloc_Some:
  assumes "pmm_wf s" and "free_blocks s \<noteq> {}"
  shows "pmm_alloc_block s = (of_nat (first_free s) * BLOCK_SIZE, SET_BIT (of_nat (first_free s)) s)"
    and "pmm_wf (SET_BIT (of_nat (first_free s)) s)"
    and "free_blocks (SET_BIT (of_nat (first_free s)) s) = free_blocks s - {first_free s}"
    and "touches {0x200000 + of_nat (first_free s div 8)} s (SET_BIT (of_nat (first_free s)) s)"
proof -
  note f = first_free_mem [OF assms(2)]
  note b = free_blocks_bounds [OF assms(1) f]
  from b(3) have lt: "first_free s < 2 ^ 64" by simp
  show "pmm_alloc_block s = (of_nat (first_free s) * BLOCK_SIZE, SET_BIT (of_nat (first_free s)) s)"
    using assms(2) by (simp add: pmm_alloc_block_def pmm_find_0)
  show "pmm_wf (SET_BIT (of_nat (first_free s)) s)" using lt assms(1) by (rule pmm_wf_SET_BIT)
  show "free_blocks (SET_BIT (of_nat (first_free s)) s) = free_blocks s - {first_free s}"
    using lt by (rule free_blocks_SET_BIT)
  show "touches {0x200000 + of_nat (first_free s div 8)} s (SET_BIT (of_nat (first_free s)) s)"
    unfolding SET_BIT_eq [OF lt] using assms(1) by (intro touches_poke) (simp add: pmm_wf_def)
qed

lemma pmm_alloc_None:
  assumes "pmm_wf s" and "free_blocks s = {}"
  shows "\<exists>s'. pmm_alloc_block s = (0, s') \<and> pmm_wf s' \<and> free_blocks s' = {} \<and> touches video_window s s'"
proof -
  obtain s' where s': "pmm_alloc_block s = (0, s')" and
    t: "s' = kprint [10] (kprint_hex (total_blocks (kprint (chars ''PMM Alloc Failed. Total: '') s))
        (kprint (chars ''PMM Alloc Failed. Total: '') s))"
    using assms(2) by (simp add: pmm_alloc_block_def pmm_find_0 Let_def)
  have "touches video_window s s'"
    unfolding t by (blast intro: touches_trans kprint_touches kprint_hex_touches)
  with s' pmm_frame [OF assms(1) this video_not_bitmap] assms(2) show ?thesis by auto
qed

text \<open>The page frames that the manager can hand out, by address.\<close>

definition frames :: "'a pmm_scheme \<Rightarrow> u64 set" where
  "frames s = {p. \<exists>i. 8192 \<le> i \<and> i < unat (total_blocks s) \<and> p = of_nat i * BLOCK_SIZE}"

definition free_frames :: "'a pmm_scheme \<Rightarrow> u64 set" where
  "free_frames s = (\<lambda>i. of_nat i * BLOCK_SIZE) ` free_blocks s"

section \<open>The interface of a frame allocator\<close>

text \<open>
  What the heap, the page tables and the process stacks rely on. \<open>alloc_list\<close> is a client's
  sequence of requests.
\<close>

primrec alloc_list :: "('s \<Rightarrow> u64 \<times> 's) \<Rightarrow> nat \<Rightarrow> 's \<Rightarrow> u64 list \<times> 's" where
  "alloc_list alloc 0 s = ([], s)"
| "alloc_list alloc (Suc n) s =
     (let (p, s) = alloc s; (ps, s) = alloc_list alloc n s in (p # ps, s))"

locale frame_allocator =
  fixes alloc :: "'s \<Rightarrow> u64 \<times> 's"
    and release :: "u64 \<Rightarrow> 's \<Rightarrow> 's"
    and all_frames :: "'s \<Rightarrow> u64 set"
    and avail :: "'s \<Rightarrow> u64 set"
    and inv :: "'s \<Rightarrow> bool"
  assumes alloc_inv: "inv s \<Longrightarrow> inv (snd (alloc s))"
    and alloc_none: "inv s \<Longrightarrow> avail s = {} \<Longrightarrow> fst (alloc s) = 0 \<and> avail (snd (alloc s)) = {}"
    and alloc_some: "inv s \<Longrightarrow> avail s \<noteq> {} \<Longrightarrow>
      fst (alloc s) \<in> avail s \<and> avail (snd (alloc s)) = avail s - {fst (alloc s)}"
    and alloc_frames: "inv s \<Longrightarrow> all_frames (snd (alloc s)) = all_frames s"
    and avail_frames: "inv s \<Longrightarrow> avail s \<subseteq> all_frames s"
    and avail_finite: "inv s \<Longrightarrow> finite (avail s)"
    and frame_nonnull: "inv s \<Longrightarrow> p \<in> all_frames s \<Longrightarrow> p \<noteq> 0"
    and frame_aligned: "inv s \<Longrightarrow> p \<in> all_frames s \<Longrightarrow> 4096 dvd unat p"
    and release_inv: "inv s \<Longrightarrow> p \<in> all_frames s \<Longrightarrow> inv (release p s)"
    and release_avail: "inv s \<Longrightarrow> p \<in> all_frames s \<Longrightarrow> avail (release p s) = insert p (avail s)"
begin

lemma null_iff_exhausted: "inv s \<Longrightarrow> fst (alloc s) = 0 \<longleftrightarrow> avail s = {}"
  using alloc_none [of s] alloc_some [of s] avail_frames [of s] frame_nonnull [of s] by blast

lemma alloc_list_spec:
  assumes "inv s" and "n \<le> card (avail s)"
  shows "\<exists>ps s'. alloc_list alloc n s = (ps, s') \<and> length ps = n \<and> distinct ps \<and> set ps \<subseteq> avail s \<and>
    avail s' = avail s - set ps \<and> inv s'"
  using assms
proof (induction n arbitrary: s)
  case 0
  then show ?case by simp
next
  case (Suc n)
  obtain p t where t: "alloc s = (p, t)" by force
  have "avail s \<noteq> {}" using Suc.prems by auto
  then have p: "p \<in> avail s" "avail t = avail s - {p}" "inv t"
    using Suc.prems(1) alloc_some [of s] alloc_inv [of s] t by auto
  have "n \<le> card (avail t)"
    using Suc.prems p avail_finite [OF Suc.prems(1)] by (simp add: card_Diff_singleton)
  from Suc.IH [OF p(3) this] obtain ps s' where
    "alloc_list alloc n t = (ps, s')" "length ps = n" "distinct ps" "set ps \<subseteq> avail t"
    "avail s' = avail t - set ps" "inv s'" by auto
  then show ?case using p t by (auto simp: Let_def)
qed

lemma release_then_alloc:
  "inv s \<Longrightarrow> p \<in> all_frames s \<Longrightarrow> fst (alloc (release p s)) \<noteq> 0"
  using release_inv [of s p] release_avail [of s p] null_iff_exhausted [of "release p s"] by auto

end

lemma frame_addr:
  assumes "i < 2 ^ 52"
  shows "unat (of_nat i * BLOCK_SIZE :: u64) = i * 4096"
    and "(of_nat i * BLOCK_SIZE :: u64) div BLOCK_SIZE = of_nat i"
proof -
  have "(of_nat i * BLOCK_SIZE :: u64) = of_nat (i * 4096)" by (simp add: BLOCK_SIZE_def)
  then show u: "unat (of_nat i * BLOCK_SIZE :: u64) = i * 4096"
    using assms by (simp only:) (rule unat64_of_nat, simp)
  have "unat ((of_nat i * BLOCK_SIZE :: u64) div BLOCK_SIZE) = unat (of_nat i :: u64)"
    using assms by (simp add: unat_div u) (simp add: BLOCK_SIZE_def unat64_of_nat)
  then show "(of_nat i * BLOCK_SIZE :: u64) div BLOCK_SIZE = of_nat i"
    by (simp only: word_unat_eq_iff)
qed

lemma frame_addr_inj:
  assumes "i < 2 ^ 52" "j < 2 ^ 52"
  shows "(of_nat i * BLOCK_SIZE :: u64) = of_nat j * BLOCK_SIZE \<longleftrightarrow> i = j"
proof
  assume "(of_nat i * BLOCK_SIZE :: u64) = of_nat j * BLOCK_SIZE"
  then have "unat (of_nat i * BLOCK_SIZE :: u64) = unat (of_nat j * BLOCK_SIZE :: u64)" by (rule arg_cong)
  then show "i = j" unfolding frame_addr(1) [OF assms(1)] frame_addr(1) [OF assms(2)] by simp
qed simp

lemma total_blocks_lt: "pmm_wf s \<Longrightarrow> i < unat (total_blocks s) \<Longrightarrow> i < 2 ^ 52"
  by (simp add: pmm_wf_def max_blocks_def)

lemma free_frames_remove:
  assumes "pmm_wf s" and "i \<in> free_blocks s" and "free_blocks s' = free_blocks s - {i}"
  shows "free_frames s' = free_frames s - {of_nat i * BLOCK_SIZE}"
proof -
  have "inj_on (\<lambda>i. of_nat i * BLOCK_SIZE :: u64) (free_blocks s)"
    by (rule inj_onI) (simp add: frame_addr_inj free_blocks_bounds(3) [OF assms(1), simplified])
  then show ?thesis
    unfolding free_frames_def assms(3)
    using inj_on_image_set_diff [of _ "free_blocks s" "free_blocks s" "{i}"] assms(2) by simp
qed

lemma pmm_free_block_spec:
  assumes "pmm_wf s" and "8192 \<le> i" and "i < unat (total_blocks s)"
  shows "pmm_wf (pmm_free_block (of_nat i * BLOCK_SIZE) s)"
    and "free_blocks (pmm_free_block (of_nat i * BLOCK_SIZE) s) = insert i (free_blocks s)"
    and "touches {0x200000 + of_nat (i div 8)} s (pmm_free_block (of_nat i * BLOCK_SIZE) s)"
proof -
  have i: "i < 2 ^ 52" using total_blocks_lt assms by blast
  then have eq: "pmm_free_block (of_nat i * BLOCK_SIZE) s = CLEAR_BIT (of_nat i) s"
    by (simp add: pmm_free_block_def frame_addr(2))
  have i64: "i < 2 ^ 64" using i by simp
  have lt: "j < 2 ^ 64" if "j < unat (total_blocks s)" for j using that by (rule less_trans [OF _ unat64_lt])
  show "pmm_wf (pmm_free_block (of_nat i * BLOCK_SIZE) s)"
    using assms i64 unfolding eq by (auto simp: pmm_wf_def block_used_CLEAR_BIT)
  show "free_blocks (pmm_free_block (of_nat i * BLOCK_SIZE) s) = insert i (free_blocks s)"
    using assms(3) i64 lt unfolding eq by (auto simp: free_blocks_def block_used_CLEAR_BIT)
  show "touches {0x200000 + of_nat (i div 8)} s (pmm_free_block (of_nat i * BLOCK_SIZE) s)"
    unfolding eq CLEAR_BIT_eq [OF i64] using assms(1) by (intro touches_poke) (simp add: pmm_wf_def)
qed

lemma pmm_alloc_vars:
  assumes "pmm_wf s"
  shows "\<exists>A. touches A s (snd (pmm_alloc_block s))"
  using pmm_alloc_None [OF assms] pmm_alloc_Some [OF assms] by (cases "free_blocks s = {}") force+

interpretation page_frames: frame_allocator pmm_alloc_block pmm_free_block frames free_frames pmm_wf
proof unfold_locales
  fix s :: "'a pmm_scheme" assume wf: "pmm_wf s"
  show "pmm_wf (snd (pmm_alloc_block s))"
    using pmm_alloc_None [OF wf] pmm_alloc_Some [OF wf] by (cases "free_blocks s = {}") auto
  show "frames (snd (pmm_alloc_block s)) = frames s"
  proof -
    from pmm_alloc_vars [OF wf] obtain A where "touches A s (snd (pmm_alloc_block s))" ..
    from touches_pmm_vars [OF this] show ?thesis by (simp add: frames_def)
  qed
  show "finite (free_frames s)"
    by (auto simp: free_frames_def free_blocks_def)
  show "free_frames s \<subseteq> frames s"
    using free_blocks_bounds(1) [OF wf] by (auto simp: free_frames_def frames_def free_blocks_def)
  show "fst (pmm_alloc_block s) = 0 \<and> free_frames (snd (pmm_alloc_block s)) = {}" if "free_frames s = {}"
    using pmm_alloc_None [OF wf] that by (auto simp: free_frames_def)
  show "fst (pmm_alloc_block s) \<in> free_frames s \<and>
      free_frames (snd (pmm_alloc_block s)) = free_frames s - {fst (pmm_alloc_block s)}" if "free_frames s \<noteq> {}"
  proof -
    from that have ne: "free_blocks s \<noteq> {}" by (auto simp: free_frames_def)
    note al = pmm_alloc_Some [OF wf ne]
    show ?thesis
      using al(1) first_free_mem [OF ne] free_frames_remove [OF wf first_free_mem [OF ne] al(3)]
      by (auto simp: free_frames_def)
  qed
  fix p assume "p \<in> frames s"
  then obtain i where i: "8192 \<le> i" "i < unat (total_blocks s)" "p = of_nat i * BLOCK_SIZE"
    by (auto simp: frames_def)
  have i52: "i < 2 ^ 52" using total_blocks_lt wf i by blast
  show "p \<noteq> 0" using frame_addr(1) [OF i52] i by auto
  show "4096 dvd unat p" using frame_addr(1) [OF i52] i by auto
  show "pmm_wf (pmm_free_block p s)" "free_frames (pmm_free_block p s) = insert p (free_frames s)"
    using pmm_free_block_spec [OF wf i(1,2)] i(3) by (auto simp: free_frames_def)
qed

section \<open>Initialisation\<close>

text \<open>Block \<open>i\<close> is one of the whole blocks of usable memory among the first \<open>n\<close> map entries.\<close>

definition entry_covers :: "memory_map_entry_t \<Rightarrow> nat \<Rightarrow> bool" where
  "entry_covers e i \<longleftrightarrow> mtype e = 1 \<and> unat (base_addr e) div 4096 \<le> i \<and>
     i < unat (base_addr e) div 4096 + unat (len e) div 4096"

definition usable_block :: "'a machine_scheme \<Rightarrow> nat \<Rightarrow> bool" where
  "usable_block s i \<longleftrightarrow> (\<exists>e < e820_count s. entry_covers (e820_entry s e) i)"

definition bitmap_reach :: "u64 set" where
  "bitmap_reach = region 0x200000 (2 ^ 61)"

lemma bitmap_reach_iff: "a \<in> bitmap_reach \<longleftrightarrow> 0x200000 \<le> unat a \<and> unat a < 0x200000 + 2 ^ 61"
  unfolding bitmap_reach_def by (subst region_no_wrap) auto

lemma block_byte_in_reach: "i < 2 ^ 64 \<Longrightarrow> 0x200000 + of_nat (i div 8) \<in> bitmap_reach"
  unfolding bitmap_reach_def by (rule in_region_offset) auto

lemma e820_not_reach: "e820_area \<inter> bitmap_reach = {}"
  by (auto simp: e820_area_iff bitmap_reach_iff)

lemma video_not_reach: "video_window \<inter> bitmap_reach = {}"
  unfolding video_window_def bitmap_reach_def VIDEO_ADDRESS_def by (rule region_disjointI) auto

lemma clear_blocks_spec:
  assumes "bitmap s = 0x200000" and "start + n < 2 ^ 64"
  shows "touches bitmap_reach s (fold (\<lambda>j. CLEAR_BIT (of_nat start + of_nat j)) [0..<n] s) \<and>
    (\<forall>i < 2 ^ 64. block_used (fold (\<lambda>j. CLEAR_BIT (of_nat start + of_nat j)) [0..<n] s) i \<longleftrightarrow>
       block_used s i \<and> \<not> (start \<le> i \<and> i < start + n))"
  using assms(2)
proof (induction n)
  case 0
  then show ?case by auto
next
  case (Suc n)
  let ?F = "\<lambda>n. fold (\<lambda>j. CLEAR_BIT (of_nat start + of_nat j)) [0..<n] s"
  from Suc have IH: "touches bitmap_reach s (?F n)"
    "\<And>i. i < 2 ^ 64 \<Longrightarrow> block_used (?F n) i \<longleftrightarrow> block_used s i \<and> \<not> (start \<le> i \<and> i < start + n)" by auto
  have lt: "start + n < 2 ^ 64" using Suc.prems by simp
  have eq: "?F (Suc n) = CLEAR_BIT (of_nat (start + n)) (?F n)" by simp
  have "touches bitmap_reach (?F n) (?F (Suc n))"
    unfolding eq CLEAR_BIT_eq [OF lt]
    using touches_pmm_vars [OF IH(1)] assms(1) block_byte_in_reach [OF lt] by (intro touches_poke) simp
  then have "touches bitmap_reach s (?F (Suc n))" using IH(1) by (blast intro: touches_trans)
  moreover have "block_used (?F (Suc n)) i \<longleftrightarrow> block_used s i \<and> \<not> (start \<le> i \<and> i < start + Suc n)"
    if "i < 2 ^ 64" for i
    unfolding eq block_used_CLEAR_BIT [OF lt that] IH(2) [OF that] by auto
  ultimately show ?case by blast
qed


lemma entries_spec:
  assumes "bitmap s = 0x200000" and "n \<le> 65536"
  shows "touches bitmap_reach s (release_usable n s) \<and>
    (\<forall>i < 2 ^ 64. block_used (release_usable n s) i \<longleftrightarrow>
       block_used s i \<and> \<not> (\<exists>e < n. entry_covers (e820_entry s e) i))"
  using assms(2)
proof (induction n)
  case 0
  then show ?case by (simp add: release_usable_def)
next
  case (Suc n)
  then have IH: "touches bitmap_reach s (release_usable n s)"
    "\<And>i. i < 2 ^ 64 \<Longrightarrow> block_used (release_usable n s) i \<longleftrightarrow> block_used s i \<and> \<not> (\<exists>e < n. entry_covers (e820_entry s e) i)"
    by auto
  let ?e = "e820_entry s n"
  have "mem (release_usable n s) a = mem s a" if "a \<in> e820_area" for a
    using touches_mem [OF IH(1)] that e820_not_reach by blast
  then have ent: "e820_entry (release_usable n s) n = ?e" using Suc.prems by (intro e820_cong(2)) auto
  have eq: "release_usable (Suc n) s = (if mtype ?e = 1 then
       clear_blocks (base_addr ?e div BLOCK_SIZE) (len ?e div BLOCK_SIZE) (release_usable n s) else release_usable n s)"
    using ent by (simp add: release_usable_def)
  show ?case
  proof (cases "mtype ?e = 1")
    case True
    define st k where "st = unat (base_addr ?e) div 4096" and "k = unat (len ?e) div 4096"
    have st: "base_addr ?e div BLOCK_SIZE = of_nat st" and k: "unat (len ?e div BLOCK_SIZE) = k"
      by (simp_all add: st_def k_def BLOCK_SIZE_def unat_div word_unat_eq_iff unat64_of_nat
          unat64_bound div_le_dividend [THEN le_less_trans])
    have "st < 2 ^ 52" "k < 2 ^ 52"
      by (simp_all only: st_def k_def unat64_div_page)
    then have lt: "st + k < 2 ^ 64" by simp
    have "release_usable (Suc n) s = fold (\<lambda>j. CLEAR_BIT (of_nat st + of_nat j)) [0..<k] (release_usable n s)"
      using True by (simp add: eq clear_blocks_def st k)
    moreover have "bitmap (release_usable n s) = 0x200000" using touches_pmm_vars [OF IH(1)] assms(1) by simp
    note clear_blocks_spec [OF this lt]
    ultimately have "touches bitmap_reach (release_usable n s) (release_usable (Suc n) s)"
      "\<And>i. i < 2 ^ 64 \<Longrightarrow> block_used (release_usable (Suc n) s) i \<longleftrightarrow> block_used (release_usable n s) i \<and> \<not> (st \<le> i \<and> i < st + k)"
      by auto
    then show ?thesis
      using IH True by (auto simp: less_Suc_eq entry_covers_def st_def k_def intro: touches_trans)
  next
    case False
    then show ?thesis using IH by (auto simp: eq less_Suc_eq entry_covers_def)
  qed
qed

lemma reserve_spec:
  assumes "bitmap s = 0x200000" and "n \<le> 8192"
  shows "touches bitmap_reach s (fold (\<lambda>i. SET_BIT (of_nat i)) [0..<n] s) \<and>
    (\<forall>i < 2 ^ 64. block_used (fold (\<lambda>i. SET_BIT (of_nat i)) [0..<n] s) i \<longleftrightarrow> i < n \<or> block_used s i)"
  using assms(2)
proof (induction n)
  case 0
  then show ?case by simp
next
  case (Suc n)
  let ?F = "\<lambda>n. fold (\<lambda>i. SET_BIT (of_nat i)) [0..<n] s"
  from Suc have IH: "touches bitmap_reach s (?F n)"
    "\<And>i. i < 2 ^ 64 \<Longrightarrow> block_used (?F n) i \<longleftrightarrow> i < n \<or> block_used s i" by auto
  have lt: "n < 2 ^ 64" using Suc.prems by simp
  have eq: "?F (Suc n) = SET_BIT (of_nat n) (?F n)" by simp
  have "touches bitmap_reach (?F n) (?F (Suc n))"
    unfolding eq SET_BIT_eq [OF lt]
    using touches_pmm_vars [OF IH(1)] assms(1) block_byte_in_reach [OF lt] by (intro touches_poke) simp
  then have "touches bitmap_reach s (?F (Suc n))" using IH(1) by (blast intro: touches_trans)
  moreover have "block_used (?F (Suc n)) i \<longleftrightarrow> i < Suc n \<or> block_used s i" if "i < 2 ^ 64" for i
    unfolding eq block_used_SET_BIT [OF lt that] IH(2) [OF that] by auto
  ultimately show ?case by blast
qed

lemma memset_bitmap_spec:
  assumes "bitmap s = 0x200000" and "unat n \<le> 2 ^ 49"
  shows "touches bitmap_reach s (memset (bitmap s) 0xff n s) \<and>
    (\<forall>i < 2 ^ 64. block_used (memset (bitmap s) 0xff n s) i \<longleftrightarrow> i < 8 * unat n \<or> block_used s i)"
proof
  show "touches bitmap_reach s (memset (bitmap s) 0xff n s)"
    using assms by (intro touches_memset) (simp add: bitmap_reach_def region_mono)
  have "(0xff :: u8) = mask 8" by (simp add: mask_eq_exp_minus_1)
  then have ff: "bit (0xff :: u8) k" if "k < 8" for k
    using that by (simp only: bit_mask_iff) simp
  have "0x200000 + of_nat (i div 8) \<in> region 0x200000 (unat n) \<longleftrightarrow> i < 8 * unat n" if "i < 2 ^ 64" for i
    using that by (simp add: region_def unat64_of_nat div_le_dividend le_less_trans div_less_iff_less_mult mult.commute)
  then show "\<forall>i < 2 ^ 64. block_used (memset (bitmap s) 0xff n s) i \<longleftrightarrow> i < 8 * unat n \<or> block_used s i"
    using assms(1) ff by (auto simp: block_used_def memset_def memset_loop_apply unat64_bound)
qed


lemma max_usable_div: "unat (max_usable s div BLOCK_SIZE) < 2 ^ 52"
  using unat64_div_page [of "max_usable s"] by (simp add: BLOCK_SIZE_def unat_div)

lemma init_pmm_spec:
  fixes s :: "'a pmm_scheme"
  defines "t \<equiv> init_pmm s" and "n \<equiv> unat (max_usable s) div 4096"
  shows "bitmap t = 0x200000" and "unat (total_blocks t) = n"
    and "i < 2 ^ 64 \<Longrightarrow> block_used t i \<longleftrightarrow>
      i < 8192 \<or> \<not> usable_block s i \<and> (i < 8 * (n div 8) \<or> block_used (s\<lparr>bitmap := 0x200000\<rparr>) i)"
proof -
  define s0 where "s0 = s\<lparr>total_blocks := max_usable s div BLOCK_SIZE,
     bitmap_size := max_usable s div BLOCK_SIZE div 8, bitmap := 0x200000\<rparr>"
  have un: "unat (max_usable s div BLOCK_SIZE) = n" "unat (bitmap_size s0) = n div 8"
    by (simp_all add: n_def s0_def BLOCK_SIZE_def unat_div)
  define s1 where "s1 = memset (bitmap s0) 0xff (bitmap_size s0) s0"
  define s2 where "s2 = release_usable (e820_count s) s1"
  define s3 where "s3 = fold (\<lambda>i. SET_BIT (of_nat i)) [0..<8192] s2"
  have t: "t = kprint [10] (kprint_hex (max_usable s) (kprint (chars ''PMM Initialized. Total Memory: '') s3))"
    by (simp add: t_def init_pmm_def Let_def s0_def s1_def s2_def s3_def BLOCK_SIZE_def)
  have b0: "bitmap s0 = 0x200000" by (simp add: s0_def)
  have "unat (bitmap_size s0) \<le> 2 ^ 49"
    using max_usable_div [of s] un by simp
  note 1 = memset_bitmap_spec [OF b0 this, folded s1_def]
  then have b1: "bitmap s1 = 0x200000" using b0 touches_pmm_vars by metis
  note 2 = entries_spec [OF b1 less_imp_le [OF e820_count_lt [of s]], folded s2_def]
  then have b2: "bitmap s2 = 0x200000" using b1 touches_pmm_vars by metis
  note 3 = reserve_spec [OF b2 order_refl, folded s3_def]
  have 4: "touches video_window s3 t"
    unfolding t by (blast intro: touches_trans kprint_touches kprint_hex_touches)
  have all: "touches (bitmap_reach \<union> video_window) s0 t"
  proof -
    have "touches bitmap_reach s0 s3" using 1 2 3 by (blast intro: touches_trans)
    then show ?thesis using 4 by (rule touches_trans_Un)
  qed
  show "bitmap t = 0x200000" "unat (total_blocks t) = n"
    using touches_pmm_vars [OF all] b0 un by (auto simp: s0_def)
  assume i: "i < 2 ^ 64"
  have "mem t (0x200000 + of_nat (i div 8)) = mem s3 (0x200000 + of_nat (i div 8))"
    using touches_mem [OF 4] block_byte_in_reach [OF i] video_not_reach by blast
  then have "block_used t i \<longleftrightarrow> block_used s3 i"
    using touches_pmm_vars [OF 4] 3 b2 touches_pmm_vars [of _ s2 s3] by (auto simp: block_used_def)
  moreover have "e820_entry s1 e = e820_entry s e" if "e < e820_count s" for e
  proof -
    have "mem s1 a = mem s a" if "a \<in> e820_area" for a
      using 1 touches_mem [of bitmap_reach s0 s1 a] that e820_not_reach by (auto simp: s0_def)
    then show ?thesis using that e820_count_lt [of s] by (intro e820_cong(2)) auto
  qed
  then have "(\<exists>e < e820_count s. entry_covers (e820_entry s1 e) i) \<longleftrightarrow> usable_block s i"
    by (auto simp: usable_block_def)
  moreover have "block_used s0 i = block_used (s\<lparr>bitmap := 0x200000\<rparr>) i"
    by (simp add: block_used_def s0_def)
  ultimately show "block_used t i \<longleftrightarrow>
      i < 8192 \<or> \<not> usable_block s i \<and> (i < 8 * (n div 8) \<or> block_used (s\<lparr>bitmap := 0x200000\<rparr>) i)"
    using 1 2 3 i un by auto
qed


section \<open>Properties\<close>

lemma init_pmm_wf:
  assumes "unat (max_usable s) div 4096 \<le> max_blocks"
  shows "pmm_wf (init_pmm s)"
  using assms init_pmm_spec(1,2) [of s] init_pmm_spec(3) [where s = s] by (simp add: pmm_wf_def)

lemma init_pmm_free_iff:
  assumes "i < 8 * (unat (total_blocks (init_pmm s)) div 8)"
  shows "i \<in> free_blocks (init_pmm s) \<longleftrightarrow> 8192 \<le> i \<and> usable_block s i"
proof -
  have n: "unat (total_blocks (init_pmm s)) = unat (max_usable s) div 4096" by (rule init_pmm_spec(2))
  have i: "i < unat (total_blocks (init_pmm s))" using assms by linarith
  then have "i < 2 ^ 64" by (rule less_trans [OF _ unat64_lt])
  from init_pmm_spec(3) [where s = s, OF this] show ?thesis
    using assms i unfolding n by (auto simp: free_blocks_def n)
qed

lemma entry_covers_bytes:
  assumes "entry_covers e i" and "4096 dvd unat (base_addr e)"
  shows "unat (base_addr e) \<le> i * 4096" and "i * 4096 + 4096 \<le> unat (base_addr e) + unat (len e)"
proof -
  from assms(2) obtain b where b: "unat (base_addr e) = 4096 * b" by auto
  then have le: "b \<le> i" and lt: "i < b + unat (len e) div 4096" using assms(1) by (auto simp: entry_covers_def)
  from le b show "unat (base_addr e) \<le> i * 4096" by simp
  have "i + 1 \<le> b + unat (len e) div 4096" using lt by simp
  then have "(i + 1) * 4096 \<le> (b + unat (len e) div 4096) * 4096" by (rule mult_le_mono1)
  also have "\<dots> \<le> 4096 * b + unat (len e)" using div_times_less_eq_dividend [of "unat (len e)" 4096] by simp
  finally show "i * 4096 + 4096 \<le> unat (base_addr e) + unat (len e)" using b by simp
qed


text \<open>
  C18: Allocation is first fit. \<^verbatim>\<open>pmm_alloc_block\<close> returns 0 exactly when no block is free and then
  only prints; otherwise it returns the address of the lowest free block, which lies above 32 MB,
  takes that one block off the free set and changes one byte of the bitmap and nothing else.
\<close>

theorem pmm_alloc_first_fit:
  assumes "pmm_wf s"
  shows "pmm_wf (snd (pmm_alloc_block s)) \<and>
    (if free_blocks s = {}
     then fst (pmm_alloc_block s) = 0 \<and> touches video_window s (snd (pmm_alloc_block s))
     else \<exists>i \<in> free_blocks s. (\<forall>j \<in> free_blocks s. i \<le> j) \<and>
       unat (fst (pmm_alloc_block s)) = i * 4096 \<and> 0x2000000 \<le> unat (fst (pmm_alloc_block s)) \<and>
       free_blocks (snd (pmm_alloc_block s)) = free_blocks s - {i} \<and>
       touches {0x200000 + of_nat (i div 8)} s (snd (pmm_alloc_block s)))"
proof (cases "free_blocks s = {}")
  case True
  then show ?thesis using pmm_alloc_None [OF assms] by auto
next
  case False
  note al = pmm_alloc_Some [OF assms False] and f = first_free_mem [OF False]
  show ?thesis
    using False f al first_free_le free_blocks_bounds(1,4) [OF assms f]
    by (auto intro!: bexI [of _ "first_free s"])
qed

text \<open>
  C19: A sequence of allocations hands out pairwise different, non-null, page-aligned frames for as
  long as free frames last.
\<close>

theorem pmm_allocations_distinct:
  assumes "pmm_wf s" and "n \<le> card (free_frames s)"
  shows "\<exists>ps s'. alloc_list pmm_alloc_block n s = (ps, s') \<and> length ps = n \<and> distinct ps \<and>
    set ps \<subseteq> free_frames s \<and> 0 \<notin> set ps \<and> (\<forall>p \<in> set ps. 4096 dvd unat p) \<and>
    free_frames s' = free_frames s - set ps \<and> pmm_wf s'"
proof -
  have "p \<noteq> 0 \<and> 4096 dvd unat p" if "p \<in> free_frames s" for p
    using that page_frames.avail_frames [OF assms(1)] page_frames.frame_nonnull [OF assms(1)]
      page_frames.frame_aligned [OF assms(1)] by blast
  then show ?thesis using page_frames.alloc_list_spec [OF assms] by blast
qed

text \<open>
  C20: Freeing what was just allocated restores the set of free frames, and freeing any managed
  frame makes the next allocation succeed.
\<close>

theorem pmm_alloc_free_roundtrip:
  assumes "pmm_wf s" and "pmm_alloc_block s = (p, s')" and "p \<noteq> 0"
  shows "free_frames (pmm_free_block p s') = free_frames s \<and>
    fst (pmm_alloc_block (pmm_free_block p s')) \<noteq> 0"
proof -
  have wf: "pmm_wf s'" using page_frames.alloc_inv [OF assms(1)] assms(2) by simp
  have ne: "free_frames s \<noteq> {}" using page_frames.null_iff_exhausted [OF assms(1)] assms(2,3) by simp
  then have p: "p \<in> free_frames s" "free_frames s' = free_frames s - {p}"
    using page_frames.alloc_some [OF assms(1)] assms(2) by auto
  then have "p \<in> frames s'"
    using page_frames.avail_frames [OF assms(1)] page_frames.alloc_frames [OF assms(1)] assms(2) by auto
  then show ?thesis
    using page_frames.release_avail [OF wf] page_frames.release_then_alloc [OF wf] p by auto
qed

text \<open>
  A usable region that does not start on a page boundary makes \<^verbatim>\<open>init_pmm\<close> release the block
  that contains its first byte, although that block begins before the region: the start is rounded
  down where it should be rounded up.
\<close>

lemma init_pmm_unaligned_region:
  assumes "e < e820_count s" and "mtype (e820_entry s e) = 1"
    and "4096 \<le> unat (len (e820_entry s e))" and "\<not> 4096 dvd unat (base_addr (e820_entry s e))"
    and "i = unat (base_addr (e820_entry s e)) div 4096" and "8192 \<le> i"
    and "i < 8 * (unat (total_blocks (init_pmm s)) div 8)"
  shows "i \<in> free_blocks (init_pmm s) \<and> i * 4096 < unat (base_addr (e820_entry s e))"
proof
  have "entry_covers (e820_entry s e) i"
    using assms(2,3,5) by (simp add: entry_covers_def div_greater_zero_iff)
  then show "i \<in> free_blocks (init_pmm s)"
    unfolding init_pmm_free_iff [OF assms(7)] using assms(1,6) by (auto simp: usable_block_def)
  have "unat (base_addr (e820_entry s e)) mod 4096 \<noteq> 0" using assms(4) by (simp add: mod_eq_0_iff_dvd)
  then show "i * 4096 < unat (base_addr (e820_entry s e))"
    using div_mult_mod_eq [of "unat (base_addr (e820_entry s e))" 4096] assms(5) by linarith
qed


section \<open>Witnesses\<close>

text \<open>A manager of 8200 blocks with the first 32 MB in use and eight blocks free.\<close>

definition small_pmm :: pmm where
  "small_pmm =
     \<lparr>mem = (\<lambda>a. if unat a < 0x200400 then 0xff else 0), io = [], dev8 = (\<lambda>_ _. 0), dev16 = (\<lambda>_ _. 0),
      bitmap = 0x200000, total_blocks = 8200, bitmap_size = 1025\<rparr>"

lemma bit_ff: "k < 8 \<Longrightarrow> bit (0xff :: u8) k"
proof -
  have "(0xff :: u8) = mask 8" by (simp add: mask_eq_exp_minus_1)
  then show "k < 8 \<Longrightarrow> bit (0xff :: u8) k" by (simp only: bit_mask_iff) simp
qed

lemma small_pmm_used: "i < 8200 \<Longrightarrow> block_used small_pmm i \<longleftrightarrow> i < 8192"
proof -
  assume i: "i < 8200"
  then have "0x200000 + of_nat (i div 8) = (of_nat (0x200000 + i div 8) :: u64)" by simp
  then have "unat (0x200000 + of_nat (i div 8) :: u64) = 0x200000 + i div 8"
    using i by (simp only:) (rule unat64_of_nat, simp)
  moreover have "bit (0xff :: u8) (i mod 8)" by (rule bit_ff) simp
  ultimately show ?thesis using i by (auto simp: block_used_def small_pmm_def)
qed

lemma small_pmm_wf: "pmm_wf small_pmm"
  using small_pmm_used by (simp add: pmm_wf_def) (simp add: small_pmm_def max_blocks_def)

lemma small_pmm_free: "free_blocks small_pmm = {8192..<8200}"
proof -
  have "unat (total_blocks small_pmm) = 8200" by (simp add: small_pmm_def)
  then show ?thesis using small_pmm_used by (auto simp: free_blocks_def)
qed

theorem pmm_alloc_first_fit_witness:
  "pmm_wf small_pmm \<and> unat (fst (pmm_alloc_block small_pmm)) = 0x2000000"
proof -
  have "\<exists>i \<in> {8192..<8200}. (\<forall>j \<in> {8192..<8200}. i \<le> j) \<and> unat (fst (pmm_alloc_block small_pmm)) = i * 4096"
    using pmm_alloc_first_fit [OF small_pmm_wf] by (auto simp: small_pmm_free)
  then obtain i where "8192 \<le> i" "i \<le> 8192" "unat (fst (pmm_alloc_block small_pmm)) = i * 4096"
    by (auto dest: bspec [of _ _ 8192])
  then show ?thesis using small_pmm_wf by simp
qed

lemma small_pmm_frames: "3 \<le> card (free_frames small_pmm)"
proof -
  have "inj_on (\<lambda>i. of_nat i * BLOCK_SIZE :: u64) {8192..<8200}"
    by (rule inj_onI) (simp add: frame_addr_inj)
  then show ?thesis by (simp add: free_frames_def small_pmm_free card_image)
qed

theorem pmm_allocations_distinct_witness:
  "\<exists>ps s'. alloc_list pmm_alloc_block 3 small_pmm = (ps, s') \<and> length ps = 3 \<and> distinct ps"
  using pmm_allocations_distinct [OF small_pmm_wf small_pmm_frames] by blast

theorem pmm_alloc_free_roundtrip_witness:
  "\<exists>p s'. pmm_alloc_block small_pmm = (p, s') \<and> p \<noteq> 0 \<and>
    free_frames (pmm_free_block p s') = free_frames small_pmm"
proof -
  obtain p s' where al: "pmm_alloc_block small_pmm = (p, s')" by force
  moreover have "p \<noteq> 0"
    using page_frames.null_iff_exhausted [OF small_pmm_wf] al small_pmm_frames by auto
  ultimately show ?thesis using pmm_alloc_free_roundtrip [OF small_pmm_wf al] by auto
qed


text \<open>
  A machine whose firmware reports one usable region, from 1 MB to 128 MB, and one whose region
  starts in the middle of a page.
\<close>

definition map_machine :: "memory \<Rightarrow> pmm" where
  "map_machine m = \<lparr>mem = m, io = [], dev8 = (\<lambda>_ _. 0), dev16 = (\<lambda>_ _. 0), bitmap = 0, total_blocks = 0, bitmap_size = 0\<rparr>"

definition map_128M :: memory where
  "map_128M = (\<lambda>_. 0)(0x5000 := 1, 0x5006 := 0x10, 0x500e := 0xf0, 0x500f := 0x07, 0x5014 := 1)"

definition map_unaligned :: memory where
  "map_unaligned = (\<lambda>_. 0)(0x5000 := 1, 0x5005 := 0x08, 0x5007 := 0x02, 0x500f := 0x01, 0x5014 := 1)"

lemma map_128M_entry:
  "e820_count (map_machine map_128M) = 1"
  "e820_entry (map_machine map_128M) 0 = \<lparr>base_addr = 0x100000, len = 0x7f00000, mtype = 1, acpi = 0\<rparr>"
  by (simp_all add: e820_count_def e820_entry_def map_machine_def map_128M_def read_bytes)


lemma map_unaligned_entry:
  "e820_count (map_machine map_unaligned) = 1"
  "e820_entry (map_machine map_unaligned) 0 = \<lparr>base_addr = 0x2000800, len = 0x1000000, mtype = 1, acpi = 0\<rparr>"
  by (simp_all add: e820_count_def e820_entry_def map_machine_def map_unaligned_def read_bytes)

lemma map_max_usable:
  "max_usable (map_machine map_128M) = 0x8000000"
  "max_usable (map_machine map_unaligned) = 0x3000800"
  by (simp_all add: max_usable_def map_128M_entry map_unaligned_entry)


lemma init_pmm_unaligned_region_witness:
  "8192 \<in> free_blocks (init_pmm (map_machine map_unaligned)) \<and>
   8192 * 4096 < unat (base_addr (e820_entry (map_machine map_unaligned) 0))"
proof (rule init_pmm_unaligned_region)
  let ?e = "e820_entry (map_machine map_unaligned) 0"
  have b: "unat (base_addr ?e) = 33556480" by (simp add: map_unaligned_entry)
  show "0 < e820_count (map_machine map_unaligned)" "mtype ?e = 1" "4096 \<le> unat (len ?e)"
    by (simp_all add: map_unaligned_entry)
  show "\<not> 4096 dvd unat (base_addr ?e)" "8192 = unat (base_addr ?e) div 4096" unfolding b by simp_all
  show "(8192::nat) \<le> 8192" by simp
  show "8192 < 8 * (unat (total_blocks (init_pmm (map_machine map_unaligned))) div 8)"
    unfolding init_pmm_spec(2) by (simp add: map_max_usable)
qed

end
