(* ===== verification/Kheap.thy ===== *)
theory Kheap
  imports Pmm
begin

text \<open>
  The kernel heap of \<^verbatim>\<open>src/kernel/kheap.c\<close>: a singly linked list of blocks, each with a 24-byte
  header in memory (\<^verbatim>\<open>next\<close>, \<^verbatim>\<open>size\<close>, \<^verbatim>\<open>is_free\<close>) in front of its data. The search of \<^verbatim>\<open>kmalloc\<close> and
  the merging pass of \<^verbatim>\<open>kfree\<close> follow pointers in memory, so the model makes no assumption that
  they end: they are partial functions, and \<open>None\<close> means that the loop runs for ever.
\<close>

record kheap = pmm +
  head :: u64

section \<open>The header fields\<close>

definition hdr_next :: "u64 \<Rightarrow> 'a machine_scheme \<Rightarrow> u64" where
  "hdr_next a s = read64 (mem s) a"

definition hdr_size :: "u64 \<Rightarrow> 'a machine_scheme \<Rightarrow> u64" where
  "hdr_size a s = read64 (mem s) (a + 8)"

definition hdr_free :: "u64 \<Rightarrow> 'a machine_scheme \<Rightarrow> bool" where
  "hdr_free a s \<longleftrightarrow> mem s (a + 16) \<noteq> 0"

definition set_next :: "u64 \<Rightarrow> u64 \<Rightarrow> 'a machine_scheme \<Rightarrow> 'a machine_scheme" where
  "set_next a v s = poke64 a v s"

definition set_size :: "u64 \<Rightarrow> u64 \<Rightarrow> 'a machine_scheme \<Rightarrow> 'a machine_scheme" where
  "set_size a v s = poke64 (a + 8) v s"

definition set_free :: "u64 \<Rightarrow> u8 \<Rightarrow> 'a machine_scheme \<Rightarrow> 'a machine_scheme" where
  "set_free a v s = poke (a + 16) v s"

definition HEADER_SIZE :: u64 where "HEADER_SIZE = 24"

section \<open>The operations of kheap.c\<close>

definition init_kheap :: "'a kheap_scheme \<Rightarrow> 'a kheap_scheme" where
  "init_kheap s =
     (let (heap_start, s) = pmm_alloc_block s
      in if heap_start = 0 then kprint (chars ''KHEAP: Init failed (OOM)'' @ [10]) s
         else
           let s = s\<lparr>head := heap_start\<rparr>;
               s = set_next (head s) 0 s;
               s = set_size (head s) (BLOCK_SIZE - HEADER_SIZE) s;
               s = set_free (head s) 1 s
           in kprint (chars ''HEAP Initialized.'' @ [10]) s)"

text \<open>
  The first-fit loop: it stops with \<open>cur\<close> at a free block that is large enough, or with
  \<open>cur = 0\<close> at the end of the list; \<open>lst\<close> is the block before.
\<close>

partial_function (option) kmalloc_search ::
  "u64 \<Rightarrow> u64 \<Rightarrow> u64 \<Rightarrow> 'a machine_scheme \<Rightarrow> (u64 \<times> u64) option" where
  "kmalloc_search sz cur lst s =
     (if cur = 0 then Some (0, lst)
      else if hdr_free cur s \<and> hdr_size cur s \<ge> sz then Some (cur, lst)
      else kmalloc_search sz (hdr_next cur s) cur s)"

text \<open>The block \<open>cur\<close> fits: split it where that pays, and mark it used.\<close>

definition kmalloc_take :: "u64 \<Rightarrow> u64 \<Rightarrow> 'a machine_scheme \<Rightarrow> u64 \<times> 'a machine_scheme" where
  "kmalloc_take sz cur s =
     (let s =
        (if hdr_size cur s > sz + HEADER_SIZE + 8 then
           let new_block = cur + HEADER_SIZE + sz;
               s = set_size new_block (hdr_size cur s - sz - HEADER_SIZE) s;
               s = set_free new_block 1 s;
               s = set_next new_block (hdr_next cur s) s;
               s = set_size cur sz s
           in set_next cur new_block s
         else s);
          s = set_free cur 0 s
      in (cur + HEADER_SIZE, s))"

text \<open>No block fits: take a page from the PMM, append it, and return 0.\<close>

definition kmalloc_expand :: "u64 \<Rightarrow> 'a kheap_scheme \<Rightarrow> u64 \<times> 'a kheap_scheme" where
  "kmalloc_expand lst s =
     (let (new_page, s) = pmm_alloc_block s
      in if new_page = 0 then (0, kprint (chars ''KHEAP: PMM OOM! Cannot expand heap.'' @ [10]) s)
         else
           let new_block = new_page;
               s = set_size new_block (BLOCK_SIZE - HEADER_SIZE) s;
               s = set_free new_block 1 s;
               s = set_next new_block 0 s;
               s = (if lst \<noteq> 0 then set_next lst new_block s else s\<lparr>head := new_block\<rparr>);
               last_end = lst + HEADER_SIZE + hdr_size lst s
           in if lst \<noteq> 0 \<and> hdr_free lst s \<and> last_end = new_block then
                let s = set_size lst (hdr_size lst s + (HEADER_SIZE + hdr_size new_block s)) s;
                    s = set_next lst (hdr_next new_block s) s
                in (0, s)
              else if lst \<noteq> 0 then (0, set_next lst new_block s)
              else (0, s))"

definition kmalloc :: "u64 \<Rightarrow> 'a kheap_scheme \<Rightarrow> (u64 \<times> 'a kheap_scheme) option" where
  "kmalloc sz s =
     (if sz = 0 then Some (0, s)
      else do {
        (cur, lst) \<leftarrow> kmalloc_search sz (head s) (head s) s;
        Some (if cur \<noteq> 0 then kmalloc_take sz cur s else kmalloc_expand lst s)
      })"

partial_function (option) kfree_merge :: "u64 \<Rightarrow> 'a machine_scheme \<Rightarrow> 'a machine_scheme option" where
  "kfree_merge cur s =
     (if cur \<noteq> 0 \<and> hdr_next cur s \<noteq> 0 then
        (if hdr_free cur s \<and> hdr_free (hdr_next cur s) s then
           kfree_merge cur
             (let s = set_size cur (hdr_size cur s + (HEADER_SIZE + hdr_size (hdr_next cur s) s)) s
              in set_next cur (hdr_next (hdr_next cur s) s) s)
         else kfree_merge (hdr_next cur s) s)
      else Some s)"

definition kfree :: "u64 \<Rightarrow> 'a kheap_scheme \<Rightarrow> 'a kheap_scheme option" where
  "kfree ptr s =
     (if ptr = 0 then Some s
      else
        let header = ptr - HEADER_SIZE;
            s = set_free header 1 s
        in kfree_merge (head s) s)"

section \<open>Reading and writing headers\<close>

lemma region_header:
  "region a 8 \<subseteq> region a 24" "region (a + 8) 8 \<subseteq> region a 24" "a + 16 \<in> region a 24"
  using region_sub [of 8 8 24 a] in_region_offset [of 16 24 a] by (simp_all add: region_mono)

lemma header_fields_disjoint:
  "region a 8 \<inter> region (a + 8) 8 = {}" "region (a + 8) 8 \<inter> region a 8 = {}"
  "a + 16 \<notin> region a 8" "a + 16 \<notin> region (a + 8) 8"
  using region_offset_disjoint [of 0 8 8 8 a] region_offset_disjoint [of 0 8 16 1 a]
    region_offset_disjoint [of 8 8 16 1 a] in_region_offset [of 0 1 "a + 16"]
  by auto

lemma hdr_same [simp]:
  "hdr_next a (set_next a v s) = v" "hdr_size a (set_next a v s) = hdr_size a s"
  "hdr_free a (set_next a v s) = hdr_free a s"
  "hdr_next a (set_size a v s) = hdr_next a s" "hdr_size a (set_size a v s) = v"
  "hdr_free a (set_size a v s) = hdr_free a s"
  "hdr_next a (set_free a w s) = hdr_next a s" "hdr_size a (set_free a w s) = hdr_size a s"
  "hdr_free a (set_free a w s) = (w \<noteq> 0)"
proof -
  note defs = hdr_next_def hdr_size_def hdr_free_def set_next_def set_size_def set_free_def
    poke64_def poke_def read64_def write64_def
  note d = header_fields_disjoint [of a]
  show "hdr_next a (set_next a v s) = v" "hdr_size a (set_size a v s) = v"
    by (simp_all add: defs load_store_same)
  show "hdr_size a (set_next a v s) = hdr_size a s" "hdr_next a (set_size a v s) = hdr_next a s"
    using d by (simp_all add: defs load_store_other)
  show "hdr_free a (set_next a v s) = hdr_free a s" "hdr_free a (set_size a v s) = hdr_free a s"
    using d by (simp_all add: defs store_outside)
  show "hdr_next a (set_free a w s) = hdr_next a s" "hdr_size a (set_free a w s) = hdr_size a s"
    using d by (auto simp: defs intro!: load_cong_region)
  show "hdr_free a (set_free a w s) = (w \<noteq> 0)" by (simp add: defs)
qed

lemma touches_hdr:
  "touches (region a 24) s (set_next a v s)" "touches (region a 24) s (set_size a v s)"
  "touches (region a 24) s (set_free a w s)"
  using region_header [of a]
  by (auto simp: set_next_def set_size_def set_free_def intro: touches_poke64 touches_poke)

lemma hdr_cong:
  assumes "\<And>x. x \<in> region a 24 \<Longrightarrow> mem s' x = mem s x"
  shows "hdr_next a s' = hdr_next a s" "hdr_size a s' = hdr_size a s" "hdr_free a s' = hdr_free a s"
  using assms region_header [of a]
  by (auto simp: hdr_next_def hdr_size_def hdr_free_def read64_def intro!: load_cong_region)

lemma hdr_frame:
  assumes "touches A s s'" and "A \<inter> region a 24 = {}"
  shows "hdr_next a s' = hdr_next a s" "hdr_size a s' = hdr_size a s" "hdr_free a s' = hdr_free a s"
  using assms by (auto intro!: hdr_cong dest: touches_mem)

lemma hdr_other [simp]:
  assumes "region a 24 \<inter> region b 24 = {}"
  shows "hdr_next b (set_next a v s) = hdr_next b s" "hdr_size b (set_next a v s) = hdr_size b s"
    "hdr_free b (set_next a v s) = hdr_free b s"
    "hdr_next b (set_size a v s) = hdr_next b s" "hdr_size b (set_size a v s) = hdr_size b s"
    "hdr_free b (set_size a v s) = hdr_free b s"
    "hdr_next b (set_free a w s) = hdr_next b s" "hdr_size b (set_free a w s) = hdr_size b s"
    "hdr_free b (set_free a w s) = hdr_free b s"
  by (simp_all only: hdr_frame [OF touches_hdr(1) assms] hdr_frame [OF touches_hdr(2) assms]
      hdr_frame [OF touches_hdr(3) assms])


section \<open>The abstract heap: a list of blocks\<close>

datatype hblock = HBlock (haddr: nat) (hsize: nat) (hfree: bool)

abbreviation hend :: "hblock \<Rightarrow> nat" where
  "hend b \<equiv> haddr b + 24 + hsize b"

text \<open>
  \<open>heap_path s a bs c\<close>: following \<^verbatim>\<open>next\<close> from \<open>a\<close>, memory holds the headers of the blocks \<open>bs\<close>
  in this order, and the last of them points to \<open>c\<close>.
\<close>

fun heap_path :: "'a machine_scheme \<Rightarrow> u64 \<Rightarrow> hblock list \<Rightarrow> u64 \<Rightarrow> bool" where
  "heap_path s a [] c \<longleftrightarrow> a = c"
| "heap_path s a (b # bs) c \<longleftrightarrow> a = of_nat (haddr b) \<and> hdr_size a s = of_nat (hsize b) \<and>
     hdr_free a s = hfree b \<and> heap_path s (hdr_next a s) bs c"

text \<open>The blocks are in ascending order and do not overlap, from \<open>lo\<close> up to \<open>hi\<close>.\<close>

fun blocks_ok :: "nat \<Rightarrow> nat \<Rightarrow> hblock list \<Rightarrow> bool" where
  "blocks_ok lo hi [] \<longleftrightarrow> lo \<le> hi"
| "blocks_ok lo hi (b # bs) \<longleftrightarrow> lo \<le> haddr b \<and> blocks_ok (hend b) hi bs"

lemma heap_path_append:
  "heap_path s a (xs @ ys) c \<longleftrightarrow> (\<exists>m. heap_path s a xs m \<and> heap_path s m ys c)"
  by (induction xs arbitrary: a) auto

lemma heap_path_cong:
  assumes "\<And>b x. b \<in> set bs \<Longrightarrow> x \<in> region (of_nat (haddr b)) 24 \<Longrightarrow> mem s' x = mem s x"
  shows "heap_path s' a bs c = heap_path s a bs c"
  using assms
proof (induction bs arbitrary: a)
  case (Cons b bs)
  have "hdr_next (of_nat (haddr b)) s' = hdr_next (of_nat (haddr b)) s"
    "hdr_size (of_nat (haddr b)) s' = hdr_size (of_nat (haddr b)) s"
    "hdr_free (of_nat (haddr b)) s' = hdr_free (of_nat (haddr b)) s"
    by (rule hdr_cong; use Cons.prems [of b] in auto)+
  moreover have "heap_path s' x bs c = heap_path s x bs c" for x
    by (rule Cons.IH, erule (1) Cons.prems [OF list.set_intros(2)])
  ultimately show ?case by (cases "a = of_nat (haddr b)") simp_all
qed simp

lemma blocks_ok_le: "blocks_ok lo hi bs \<Longrightarrow> lo \<le> hi"
  by (induction bs arbitrary: lo) (auto, fastforce)

lemma blocks_ok_bounds: "blocks_ok lo hi bs \<Longrightarrow> b \<in> set bs \<Longrightarrow> lo \<le> haddr b \<and> hend b \<le> hi"
proof (induction bs arbitrary: lo)
  case (Cons c bs)
  then show ?case using blocks_ok_le [of "hend c" hi bs] by (cases "b = c") (auto, fastforce)
qed simp

lemma blocks_ok_mono: "blocks_ok lo hi bs \<Longrightarrow> lo' \<le> lo \<Longrightarrow> hi \<le> hi' \<Longrightarrow> blocks_ok lo' hi' bs"
  by (induction bs arbitrary: lo lo') auto

lemma blocks_ok_join: "blocks_ok m l bs \<Longrightarrow> lo \<le> m \<Longrightarrow> blocks_ok l hi cs \<Longrightarrow> blocks_ok lo hi (bs @ cs)"
  by (induction bs arbitrary: lo m) (auto intro: blocks_ok_mono)

text \<open>Splitting the list at one block.\<close>

lemma blocks_ok_mid:
  "blocks_ok lo hi (xs @ b # ys) \<longleftrightarrow> blocks_ok lo (haddr b) xs \<and> blocks_ok (hend b) hi ys"
  by (induction xs arbitrary: lo) (auto dest: blocks_ok_le)


section \<open>The abstract allocator\<close>

abbreviation fits :: "nat \<Rightarrow> hblock \<Rightarrow> bool" where
  "fits sz b \<equiv> hfree b \<and> sz \<le> hsize b"

text \<open>A block that is given out keeps a remainder for later when that is worth a header.\<close>

definition take_block :: "nat \<Rightarrow> hblock \<Rightarrow> hblock list" where
  "take_block sz b =
     (if sz + 32 < hsize b
      then [HBlock (haddr b) sz False, HBlock (haddr b + 24 + sz) (hsize b - sz - 24) True]
      else [HBlock (haddr b) (hsize b) False])"

fun alloc_blocks :: "nat \<Rightarrow> hblock list \<Rightarrow> (nat \<times> hblock list) option" where
  "alloc_blocks sz [] = None"
| "alloc_blocks sz (b # bs) =
     (if fits sz b then Some (haddr b + 24, take_block sz b @ bs)
      else map_option (\<lambda>(p, cs). (p, b # cs)) (alloc_blocks sz bs))"

definition extend_blocks :: "nat \<Rightarrow> hblock list \<Rightarrow> hblock list" where
  "extend_blocks page bs =
     (if bs \<noteq> [] \<and> hfree (last bs) \<and> hend (last bs) = page
      then butlast bs @ [HBlock (haddr (last bs)) (hsize (last bs) + 4096) True]
      else bs @ [HBlock page 4072 True])"

text \<open>One pass of merging, and freeing the block whose data starts at \<open>p\<close>.\<close>

function merge_blocks :: "hblock list \<Rightarrow> hblock list" where
  "merge_blocks [] = []"
| "merge_blocks [b] = [b]"
| "merge_blocks (b # c # bs) =
     (if hfree b \<and> hfree c
      then merge_blocks (HBlock (haddr b) (hsize b + 24 + hsize c) True # bs)
      else b # merge_blocks (c # bs))"
  by pat_completeness auto
termination
  by (relation "measure length") auto

definition release_block :: "nat \<Rightarrow> hblock \<Rightarrow> hblock" where
  "release_block p b = (if haddr b + 24 = p then HBlock (haddr b) (hsize b) True else b)"

definition free_block :: "nat \<Rightarrow> hblock list \<Rightarrow> hblock list" where
  "free_block p bs = merge_blocks (map (release_block p) bs)"

text \<open>
  The invariant: the manager below is well formed, the list from \<^verbatim>\<open>head\<close> holds the blocks \<open>bs\<close>,
  they lie above the reserved 32 MB in ascending order, and below every free frame.
\<close>

definition heap_inv :: "'a kheap_scheme \<Rightarrow> hblock list \<Rightarrow> bool" where
  "heap_inv s bs \<longleftrightarrow> pmm_wf s \<and> heap_path s (head s) bs 0 \<and>
     (\<exists>hi \<le> 4096 * max_blocks. blocks_ok 0x2000000 hi bs \<and> (\<forall>i \<in> free_blocks s. hi \<le> 4096 * i))"

lemma heap_inv_block:
  assumes "heap_inv s bs" and "b \<in> set bs"
  shows "0x2000000 \<le> haddr b" and "hend b \<le> 4096 * max_blocks" and "hend b < 2 ^ 50"
    and "unat (of_nat (haddr b) :: u64) = haddr b" and "unat (of_nat (hsize b) :: u64) = hsize b"
    and "(of_nat (haddr b) :: u64) \<noteq> 0"
proof -
  from assms obtain hi where "hi \<le> 4096 * max_blocks" "blocks_ok 0x2000000 hi bs"
    by (auto simp: heap_inv_def)
  with blocks_ok_bounds [OF this(2) assms(2)]
  show 1: "0x2000000 \<le> haddr b" "hend b \<le> 4096 * max_blocks" by auto
  then show 2: "hend b < 2 ^ 50" by (simp add: max_blocks_def)
  then show 3: "unat (of_nat (haddr b) :: u64) = haddr b" "unat (of_nat (hsize b) :: u64) = hsize b"
    by (auto intro!: unat64_of_nat)
  show "(of_nat (haddr b) :: u64) \<noteq> 0"
  proof
    assume "(of_nat (haddr b) :: u64) = 0"
    then have "haddr b = 0" using 3(1) by simp
    with 1(1) show False by simp
  qed
qed

lemma alloc_blocks_append:
  assumes "\<And>x. x \<in> set xs \<Longrightarrow> \<not> fits sz x"
  shows "alloc_blocks sz (xs @ ys) = map_option (\<lambda>(p, cs). (p, xs @ cs)) (alloc_blocks sz ys)"
  using assms
proof (induction xs)
  case Nil
  then show ?case by (cases "alloc_blocks sz ys") auto
next
  case (Cons x xs)
  then show ?case by (cases "alloc_blocks sz ys") auto
qed

lemma alloc_blocks_None: "alloc_blocks sz bs = None \<longleftrightarrow> (\<forall>b \<in> set bs. \<not> fits sz b)"
  by (induction bs) auto

lemma alloc_blocks_Some:
  "alloc_blocks sz bs = Some (p, cs) \<Longrightarrow>
    \<exists>xs b ys. bs = xs @ b # ys \<and> (\<forall>x \<in> set xs. \<not> fits sz x) \<and> fits sz b \<and> p = haddr b + 24 \<and>
      cs = xs @ take_block sz b @ ys"
proof (induction bs arbitrary: cs)
  case (Cons a bs)
  show ?case
  proof (cases "fits sz a")
    case True
    with Cons.prems have "p = haddr a + 24" "cs = take_block sz a @ bs" by auto
    then show ?thesis using True by (intro exI [of _ "[]"]) auto
  next
    case False
    with Cons.prems obtain ds where "alloc_blocks sz bs = Some (p, ds)" "cs = a # ds" by auto
    from Cons.IH [OF this(1)] obtain xs b ys where "bs = xs @ b # ys"
      "\<forall>x \<in> set xs. \<not> fits sz x" "fits sz b" "p = haddr b + 24" "ds = xs @ take_block sz b @ ys" by blast
    then show ?thesis using False \<open>cs = a # ds\<close> by (intro exI [of _ "a # xs"]) auto
  qed
qed simp

section \<open>The search of kmalloc\<close>

lemma kmalloc_search_path:
  assumes "heap_path s a (xs @ ys) 0"
    and "\<And>b. b \<in> set (xs @ ys) \<Longrightarrow> (of_nat (haddr b) :: u64) \<noteq> 0 \<and> unat (of_nat (hsize b) :: u64) = hsize b"
    and "\<And>b. b \<in> set xs \<Longrightarrow> \<not> fits (unat sz) b" and "ys \<noteq> [] \<Longrightarrow> fits (unat sz) (hd ys)"
  shows "kmalloc_search sz a l s =
    Some (if ys = [] then 0 else of_nat (haddr (hd ys)), if xs = [] then l else of_nat (haddr (last xs)))"
  using assms
proof (induction xs arbitrary: a l)
  case Nil
  then show ?case
    by (cases ys) (subst kmalloc_search.simps, auto simp: word_le_nat_alt)+
next
  case (Cons b xs)
  have a: "a = of_nat (haddr b)" "hdr_size a s = of_nat (hsize b)" "hdr_free a s = hfree b"
    "heap_path s (hdr_next a s) (xs @ ys) 0" using Cons.prems(1) by auto
  have IH: "kmalloc_search sz (hdr_next a s) a s = Some (if ys = [] then 0 else of_nat (haddr (hd ys)),
      if xs = [] then a else of_nat (haddr (last xs)))"
    by (rule Cons.IH) (use a Cons.prems in auto)
  have "a \<noteq> 0" "\<not> (hdr_free a s \<and> sz \<le> hdr_size a s)"
    using Cons.prems(2,3) [of b] a by (auto simp: word_le_nat_alt)
  then show ?case by (subst kmalloc_search.simps) (auto simp: IH a(1) [symmetric])
qed


section \<open>Changing part of the list\<close>

abbreviation extent :: "hblock \<Rightarrow> u64 set" where
  "extent b \<equiv> region (of_nat (haddr b)) (24 + hsize b)"

abbreviation header :: "hblock \<Rightarrow> u64 set" where
  "header b \<equiv> region (of_nat (haddr b)) 24"

lemma heap_path_replace:
  assumes "heap_path s a (xs @ b # ys) c" and "touches A s s'"
    and "\<And>x. x \<in> set xs \<union> set ys \<Longrightarrow> A \<inter> header x = {}"
    and "heap_path s' (of_nat (haddr b)) bs' (hdr_next (of_nat (haddr b)) s)"
  shows "heap_path s' a (xs @ bs' @ ys) c"
proof -
  from assms(1) have "heap_path s a xs (of_nat (haddr b))" "heap_path s (hdr_next (of_nat (haddr b)) s) ys c"
    by (auto simp: heap_path_append)
  moreover have "heap_path s' d zs e = heap_path s d zs e" if "set zs \<subseteq> set xs \<union> set ys" for d zs e
    by (rule heap_path_cong) (use assms(2,3) that in \<open>auto dest: touches_mem\<close>)
  ultimately show ?thesis using assms(4) by (auto simp: heap_path_append)
qed

lemma region_above_disjoint:
  "a + n \<le> b \<Longrightarrow> b + k \<le> 2 ^ 64 \<Longrightarrow> region (of_nat a) n \<inter> region (of_nat b) k = {}"
  using region_offset_disjoint [of a n b k 0] by simp

lemma blocks_ok_disjoint:
  assumes "blocks_ok lo hi (xs @ b # ys)" and "hi \<le> 2 ^ 64" and "x \<in> set xs \<union> set ys"
  shows "extent b \<inter> extent x = {}"
proof -
  from assms(1) have ok: "blocks_ok lo (haddr b) xs" "blocks_ok (hend b) hi ys"
    by (simp_all add: blocks_ok_mid)
  have b: "hend b \<le> hi" using blocks_ok_bounds [OF assms(1), of b] by simp
  show ?thesis
  proof (cases "x \<in> set xs")
    case True
    with blocks_ok_bounds [OF ok(1)] have "hend x \<le> haddr b" by blast
    then show ?thesis using b assms(2) region_above_disjoint [of "haddr x" "24 + hsize x" "haddr b" "24 + hsize b"]
      by (simp add: Int_commute)
  next
    case False
    with assms(3) blocks_ok_bounds [OF ok(2)] have "hend b \<le> haddr x" "hend x \<le> hi" by blast+
    then show ?thesis using assms(2) region_above_disjoint [of "haddr b" "24 + hsize b" "haddr x" "24 + hsize x"]
      by simp
  qed
qed

lemma header_extent: "header b \<subseteq> extent b"
  by (rule region_mono) simp

lemma heap_inv_split:
  assumes "heap_inv s (xs @ b # ys)"
  shows "heap_path s (head s) xs (of_nat (haddr b))"
    and "hdr_size (of_nat (haddr b)) s = of_nat (hsize b)"
    and "hdr_free (of_nat (haddr b)) s = hfree b"
    and "heap_path s (hdr_next (of_nat (haddr b)) s) ys 0"
    and "\<And>x. x \<in> set xs \<union> set ys \<Longrightarrow> extent b \<inter> extent x = {}"
proof -
  from assms obtain hi where hi: "hi \<le> 4096 * max_blocks" "blocks_ok 0x2000000 hi (xs @ b # ys)"
    by (auto simp: heap_inv_def)
  then have "hi \<le> 2 ^ 64" by (simp add: max_blocks_def)
  with hi(2) show "\<And>x. x \<in> set xs \<union> set ys \<Longrightarrow> extent b \<inter> extent x = {}"
    by (rule blocks_ok_disjoint)
qed (use assms in \<open>auto simp: heap_inv_def heap_path_append\<close>)

text \<open>The heap lies above the reserved memory, so a step inside a block leaves the manager alone.\<close>

lemma extent_not_bitmap:
  assumes "0x2000000 \<le> a" and "a + n \<le> 2 ^ 64"
  shows "region (of_nat a) n \<inter> bitmap_area = {}"
  using region_above_disjoint [of "0x200000" "0x1e00000" a n] assms
  by (simp add: bitmap_area_def Int_commute)

lemma touches_head: "touches A s s' \<Longrightarrow> head s' = head s"
  using touches_eq [of A s s']
  by (metis kheap.select_convs kheap.surjective kheap.update_convs machine.update_convs)

lemma heap_inv_replace:
  assumes inv: "heap_inv s (xs @ b # ys)" and t: "touches (extent b) s s'"
    and p: "heap_path s' (of_nat (haddr b)) bs' (hdr_next (of_nat (haddr b)) s)"
    and ok: "blocks_ok (haddr b) (hend b) bs'"
  shows "heap_inv s' (xs @ bs' @ ys)"
proof -
  note blk = heap_inv_block [OF inv, of b]
  have "extent b \<inter> bitmap_area = {}" by (rule extent_not_bitmap) (use blk(1,3) in auto)
  from pmm_frame [OF _ t this] inv have pmm: "pmm_wf s'" "free_blocks s' = free_blocks s"
    by (auto simp: heap_inv_def)
  have path: "heap_path s' (head s) (xs @ bs' @ ys) 0"
  proof (rule heap_path_replace [OF _ t _ p])
    show "heap_path s (head s) (xs @ b # ys) 0" using inv by (simp add: heap_inv_def)
    show "extent b \<inter> header x = {}" if "x \<in> set xs \<union> set ys" for x
      using heap_inv_split(5) [OF inv that] header_extent [of x] by blast
  qed
  have blocks: "blocks_ok lo hi (xs @ bs' @ ys)" if "blocks_ok lo hi (xs @ b # ys)" for lo hi
    using that ok
  proof (induction xs arbitrary: lo)
    case Nil
    then show ?case by (auto intro: blocks_ok_join)
  qed auto
  show ?thesis using inv pmm path blocks touches_head [OF t] by (auto simp: heap_inv_def)
qed


section \<open>kmalloc: taking a block\<close>

lemma touches_within:
  "touches A s t \<Longrightarrow> touches (region a 24) t u \<Longrightarrow> region a 24 \<subseteq> A \<Longrightarrow> touches A s u"
  by (blast intro: touches_trans touches_mono)

lemma kmalloc_take_spec:
  assumes inv: "heap_inv s (xs @ b # ys)" and fit: "fits (unat sz) b"
  shows "fst (kmalloc_take sz (of_nat (haddr b)) s) = of_nat (haddr b + 24)"
    and "touches (extent b) s (snd (kmalloc_take sz (of_nat (haddr b)) s))"
    and "heap_path (snd (kmalloc_take sz (of_nat (haddr b)) s)) (of_nat (haddr b))
      (take_block (unat sz) b) (hdr_next (of_nat (haddr b)) s)"
proof -
  note blk = heap_inv_block [OF inv, of b]
  note hd = heap_inv_split(2,3) [OF inv]
  define a :: u64 where "a = of_nat (haddr b)"
  define n where "n = unat sz"
  have n: "n \<le> hsize b" "n < 2 ^ 50" using fit blk(3) by (auto simp: n_def)
  have sz: "sz = of_nat n" by (simp add: n_def)
  have cmp: "hdr_size a s > sz + HEADER_SIZE + 8 \<longleftrightarrow> n + 32 < hsize b"
  proof -
    have "sz + HEADER_SIZE + 8 = of_nat (n + 32)" by (simp add: sz HEADER_SIZE_def)
    moreover have "unat (of_nat (n + 32) :: u64) = n + 32" by (rule unat64_of_nat) (use n in simp)
    ultimately have "unat (sz + HEADER_SIZE + 8) = n + 32" by (simp only:)
    then show ?thesis using hd blk(5) by (simp add: a_def word_less_nat_alt)
  qed
  define c :: u64 where "c = of_nat (haddr b + 24 + n)"
  have c: "a + HEADER_SIZE + sz = c" by (simp add: a_def c_def sz HEADER_SIZE_def)
  show "fst (kmalloc_take sz (of_nat (haddr b)) s) = of_nat (haddr b + 24)"
    by (simp add: kmalloc_take_def Let_def HEADER_SIZE_def)
  have hdr: "region a 24 \<subseteq> extent b" by (simp add: a_def header_extent)
  show "touches (extent b) s (snd (kmalloc_take sz (of_nat (haddr b)) s))"
  proof (cases "n + 32 < hsize b")
    case True
    then have "region c 24 \<subseteq> extent b"
      using region_sub [of "24 + n" 24 "24 + hsize b" a] blk(3) by (simp add: c_def a_def add.assoc)
    with True hdr show ?thesis unfolding a_def [symmetric]
      by (simp add: kmalloc_take_def Let_def cmp c)
        (intro touches_within [OF _ touches_hdr(1)] touches_within [OF _ touches_hdr(2)]
          touches_within [OF _ touches_hdr(3)] touches_refl; simp)
  next
    case False
    with hdr show ?thesis unfolding a_def [symmetric]
      by (simp add: kmalloc_take_def Let_def cmp) (intro touches_within [OF _ touches_hdr(3)] touches_refl; simp)
  qed
  show "heap_path (snd (kmalloc_take sz (of_nat (haddr b)) s)) (of_nat (haddr b))
      (take_block (unat sz) b) (hdr_next (of_nat (haddr b)) s)"
  proof (cases "n + 32 < hsize b")
    case True
    have d: "region a 24 \<inter> region c 24 = {}" "region c 24 \<inter> region a 24 = {}"
      using region_above_disjoint [of "haddr b" 24 "haddr b + 24 + n" 24] True blk(3)
      by (auto simp: a_def c_def)
    have rest: "hdr_size a s - sz - HEADER_SIZE = of_nat (hsize b - n - 24)"
      using hd True by (simp add: a_def sz HEADER_SIZE_def of_nat_diff)
    show ?thesis unfolding a_def [symmetric] n_def [symmetric] using True d
      by (simp add: kmalloc_take_def Let_def cmp c take_block_def n_def [symmetric] rest a_def [symmetric]
          c_def [symmetric] sz [symmetric] c [unfolded HEADER_SIZE_def])
  next
    case False
    then show ?thesis using hd cmp [unfolded a_def]
      by (simp add: kmalloc_take_def Let_def take_block_def n_def [symmetric])
  qed
qed

lemma take_block_ok: "fits sz b \<Longrightarrow> blocks_ok (haddr b) (hend b) (take_block sz b)"
  by (auto simp: take_block_def)

lemma heap_inv_take:
  assumes "heap_inv s (xs @ b # ys)" and "fits (unat sz) b"
  shows "heap_inv (snd (kmalloc_take sz (of_nat (haddr b)) s)) (xs @ take_block (unat sz) b @ ys)"
  by (rule heap_inv_replace [OF assms(1) kmalloc_take_spec(2,3) [OF assms] take_block_ok [OF assms(2)]])

section \<open>kmalloc: expanding the heap\<close>

lemma frame_addr_nonnull: "pmm_wf s \<Longrightarrow> i \<in> free_blocks s \<Longrightarrow> (of_nat (4096 * i) :: u64) \<noteq> 0"
proof
  assume "pmm_wf s" "i \<in> free_blocks s" and z: "(of_nat (4096 * i) :: u64) = 0"
  note b = free_blocks_bounds [OF this(1,2)]
  have "of_nat i * BLOCK_SIZE = (of_nat (4096 * i) :: u64)" by (simp add: BLOCK_SIZE_def)
  then have "i * 4096 = 0" using b(4) z by simp
  with b(1) show False by simp
qed

lemma heap_path_snoc:
  "heap_path s a (bs @ [b]) c \<longleftrightarrow> heap_path s a bs (of_nat (haddr b)) \<and>
     hdr_size (of_nat (haddr b)) s = of_nat (hsize b) \<and> hdr_free (of_nat (haddr b)) s = hfree b \<and>
     hdr_next (of_nat (haddr b)) s = c"
  by (auto simp: heap_path_append)

text \<open>The state after the new page has got its header, before the list is linked to it.\<close>

definition page_header :: "u64 \<Rightarrow> 'a machine_scheme \<Rightarrow> 'a machine_scheme" where
  "page_header p s = set_next p 0 (set_free p 1 (set_size p (BLOCK_SIZE - HEADER_SIZE) s))"

lemma page_header_simps:
  "hdr_next p (page_header p s) = 0" "hdr_size p (page_header p s) = 4072" "hdr_free p (page_header p s)"
  "touches (region p 24) s (page_header p s)"
proof -
  show "touches (region p 24) s (page_header p s)"
    unfolding page_header_def by (blast intro: touches_hdr touches_trans)
qed (simp_all add: page_header_def BLOCK_SIZE_def HEADER_SIZE_def)

definition new_page_state :: "'a kheap_scheme \<Rightarrow> 'a kheap_scheme" where
  "new_page_state s = page_header (of_nat (4096 * first_free s)) (SET_BIT (of_nat (first_free s)) s)"

lemma new_page_state:
  assumes inv: "heap_inv s bs" and free: "free_blocks s \<noteq> {}"
  shows "pmm_alloc_block s = (of_nat (4096 * first_free s), SET_BIT (of_nat (first_free s)) s)"
    and "pmm_wf (new_page_state s)"
    and "free_blocks (new_page_state s) = free_blocks s - {first_free s}"
    and "heap_path (new_page_state s) (head s) bs 0"
    and "head (new_page_state s) = head s"
    and "unat (of_nat (4096 * first_free s) :: u64) = 4096 * first_free s"
    and "\<And>b. b \<in> set bs \<Longrightarrow> hend b \<le> 4096 * first_free s \<and>
      header b \<inter> region (of_nat (4096 * first_free s)) 24 = {}"
proof -
  let ?f = "first_free s" and ?t = "SET_BIT (of_nat (first_free s)) s"
  let ?p = "of_nat (4096 * ?f) :: u64"
  have wf: "pmm_wf s" using inv by (simp add: heap_inv_def)
  note alloc = pmm_alloc_Some [OF wf free]
  note f = free_blocks_bounds [OF wf first_free_mem [OF free]]
  have p: "of_nat ?f * BLOCK_SIZE = ?p" by (simp add: BLOCK_SIZE_def)
  show "pmm_alloc_block s = (?p, ?t)" using alloc(1) p by simp
  show u: "unat ?p = 4096 * ?f" using f(4) unfolding p by simp
  have "region ?p 24 \<inter> bitmap_area = {}"
    by (rule extent_not_bitmap) (use f(1,3) in simp_all)
  note fr = pmm_frame [OF alloc(2) page_header_simps(4) this]
  show "pmm_wf (new_page_state s)" "free_blocks (new_page_state s) = free_blocks s - {?f}"
    using fr alloc(3) by (simp_all add: new_page_state_def)
  have t: "touches (bitmap_area \<union> region ?p 24) s (new_page_state s)"
    unfolding new_page_state_def
    by (rule touches_trans_Un [OF touches_mono [OF alloc(4)] page_header_simps(4)])
      (use block_byte_in_area [OF f(2)] in simp)
  show "head (new_page_state s) = head s" by (rule touches_head [OF t])
  from inv obtain hi where hi: "hi \<le> 4096 * max_blocks" "blocks_ok 0x2000000 hi bs" "hi \<le> 4096 * ?f"
    using first_free_mem [OF free] by (auto simp: heap_inv_def)
  show above: "hend b \<le> 4096 * ?f \<and> header b \<inter> region ?p 24 = {}" if b: "b \<in> set bs" for b
  proof -
    have "hend b \<le> 4096 * ?f" using blocks_ok_bounds [OF hi(2) b] hi(3) by simp
    then show ?thesis by (auto intro!: region_above_disjoint simp del: of_nat_mult) (use f(3) in auto)
  qed
  have "header b \<inter> bitmap_area = {}" if b: "b \<in> set bs" for b
    by (rule extent_not_bitmap) (use heap_inv_block(1,3) [OF inv b] in auto)
  with above have "(bitmap_area \<union> region ?p 24) \<inter> header b = {}" if b: "b \<in> set bs" for b
    using b by blast
  then have "heap_path (new_page_state s) (head s) bs 0 = heap_path s (head s) bs 0"
    by (intro heap_path_cong) (use t in \<open>auto dest: touches_mem\<close>)
  then show "heap_path (new_page_state s) (head s) bs 0" using inv by (simp add: heap_inv_def)
qed

lemma head_update [simp]:
  "hdr_next a (s\<lparr>head := h\<rparr>) = hdr_next a s" "hdr_size a (s\<lparr>head := h\<rparr>) = hdr_size a s"
  "hdr_free a (s\<lparr>head := h\<rparr>) = hdr_free a s"
  "pmm_wf (s\<lparr>head := h\<rparr>) = pmm_wf s" "free_blocks (s\<lparr>head := h\<rparr>) = free_blocks s"
  by (simp_all add: hdr_next_def hdr_size_def hdr_free_def pmm_wf_def free_blocks_def block_used_def)

lemma set_next_twice: "set_next a v (set_next a w s) = set_next a v s"
proof -
  have "store (store m a 8 w) a 8 v = store m a 8 v" for m
    by (rule ext) (simp add: store_apply)
  then show ?thesis by (simp add: set_next_def poke64_def write64_def)
qed

text \<open>The list is linked to the new page after its last block, or starts there.\<close>

definition link_page :: "u64 \<Rightarrow> hblock list \<Rightarrow> 'a kheap_scheme \<Rightarrow> 'a kheap_scheme" where
  "link_page p bs t =
     (if bs = [] then t\<lparr>head := p\<rparr>
      else let l = of_nat (haddr (last bs)) :: u64 in
        if hfree (last bs) \<and> of_nat (hend (last bs)) = p
        then set_next l 0 (set_size l (of_nat (hsize (last bs) + 4096)) t)
        else set_next l p t)"

lemma set_size_next: "set_size a v (set_next a w s) = set_next a w (set_size a v s)"
proof -
  have "store (store m a 8 w) (a + 8) 8 v = store (store m (a + 8) 8 v) a 8 w" for m
    using header_fields_disjoint(1) [of a]
    by (intro ext) (auto simp: store_apply region_def)
  then show ?thesis by (simp add: set_next_def set_size_def poke64_def write64_def)
qed

lemma kmalloc_expand_eq:
  assumes inv: "heap_inv s bs" and free: "free_blocks s \<noteq> {}"
    and lst: "lst = (if bs = [] then head s else of_nat (haddr (last bs)))"
  shows "kmalloc_expand lst s = (0, link_page (of_nat (4096 * first_free s)) bs (new_page_state s))"
proof -
  let ?p = "of_nat (4096 * first_free s) :: u64" and ?t = "new_page_state s"
  note new = new_page_state [OF inv free]
  have p0: "?p \<noteq> 0" using frame_addr_nonnull [OF _ first_free_mem [OF free]] inv by (simp add: heap_inv_def)
  note start = kmalloc_expand_def new(1) Let_def case_prod_beta fst_conv snd_conv p0 if_False
    page_header_def [symmetric] new_page_state_def [symmetric]
  show ?thesis
  proof (cases "bs = []")
    case True
    then have "lst = 0" using inv lst by (simp add: heap_inv_def)
    then show ?thesis using True by (simp add: start link_page_def del: of_nat_mult)
  next
    case False
    then have path: "heap_path ?t (head s) (butlast bs @ [last bs]) 0" using new(4) by simp
    have l: "lst = of_nat (haddr (last bs))" "lst \<noteq> 0"
      using lst False heap_inv_block(6) [OF inv, of "last bs"] by auto
    have h: "hdr_size lst ?t = of_nat (hsize (last bs))" "hdr_free lst ?t = hfree (last bs)"
      using path unfolding heap_path_snoc l(1) by auto
    have pg: "hdr_size ?p ?t = 4072" "hdr_next ?p ?t = 0"
      by (simp_all add: new_page_state_def page_header_simps del: of_nat_mult)
    have disj: "region lst 24 \<inter> region ?p 24 = {}"
      using new(7) [of "last bs"] False unfolding l(1) by simp
    have le: "lst + HEADER_SIZE + hdr_size lst ?t = of_nat (hend (last bs))"
      by (simp add: h(1)) (simp add: l(1) HEADER_SIZE_def)
    have sum: "HEADER_SIZE + 4072 = 4096" by (simp add: HEADER_SIZE_def)
    show ?thesis using False l(2) disj unfolding start
      by (simp add: p0 h pg le [simplified h] sum set_next_twice set_size_next link_page_def
          l(1) [symmetric] del: of_nat_mult)
  qed
qed

lemma link_page_path:
  assumes path: "heap_path t (head t) bs 0"
    and page: "hdr_next (of_nat page) t = 0" "hdr_size (of_nat page) t = 4072" "hdr_free (of_nat page) t"
    and ok: "blocks_ok 0x2000000 page bs" "page + 24 \<le> 2 ^ 60"
  shows "heap_path (link_page (of_nat page) bs t) (head (link_page (of_nat page) bs t)) (extend_blocks page bs) 0"
    and "bs \<noteq> [] \<Longrightarrow> touches (header (last bs)) t (link_page (of_nat page) bs t)"
proof -
  let ?u = "link_page (of_nat page) bs t" and ?l = "last bs"
  show t: "touches (header ?l) t ?u" if "bs \<noteq> []"
    using that by (auto simp: link_page_def Let_def intro: touches_hdr touches_trans)
  show "heap_path ?u (head ?u) (extend_blocks page bs) 0"
  proof (cases "bs = []")
    case True
    then show ?thesis using page by (simp add: link_page_def extend_blocks_def)
  next
    case False
    then have bs: "bs = butlast bs @ ?l # []" by simp
    have okl: "blocks_ok 0x2000000 page (butlast bs @ ?l # [])" using ok(1) False by simp
    have other: "header ?l \<inter> header x = {}" if "x \<in> set (butlast bs)" for x
      using blocks_ok_disjoint [OF okl, of x] ok(2) that header_extent [of x] header_extent [of ?l] by auto
    have bound: "hend ?l \<le> page" using blocks_ok_bounds [OF ok(1), of ?l] False by simp
    have pg: "header ?l \<inter> region (of_nat page) 24 = {}"
      by (rule region_above_disjoint) (use bound ok(2) in auto)
    have same: "(of_nat (hend ?l) :: u64) = of_nat page \<longleftrightarrow> hend ?l = page"
      by (rule of_nat_u64_inj) (use bound ok(2) in auto)
    have h: "hdr_size (of_nat (haddr ?l)) t = of_nat (hsize ?l)" "hdr_free (of_nat (haddr ?l)) t = hfree ?l"
      "hdr_next (of_nat (haddr ?l)) t = 0"
      using path bs heap_path_snoc by metis+
    define zs where "zs = (if hfree ?l \<and> hend ?l = page then [HBlock (haddr ?l) (hsize ?l + 4096) True]
      else [?l, HBlock page 4072 True])"
    have "heap_path ?u (of_nat (haddr ?l)) zs (hdr_next (of_nat (haddr ?l)) t)"
      using False h page pg by (simp add: zs_def link_page_def Let_def same del: of_nat_add)
    then have "heap_path ?u (head t) (butlast bs @ zs @ []) 0"
      by (rule heap_path_replace [OF _ t, rotated 3]) (use path bs other False in auto)
    moreover have "extend_blocks page bs = butlast bs @ zs"
      using False by (simp add: extend_blocks_def zs_def)
    ultimately show ?thesis using touches_head [OF t [OF False]] by simp
  qed
qed

lemma extend_blocks_ok:
  assumes "blocks_ok lo page bs"
  shows "blocks_ok lo (page + 4096) (extend_blocks page bs)"
proof (cases "bs = []")
  case True
  then show ?thesis using assms by (simp add: extend_blocks_def)
next
  case False
  then have "blocks_ok lo page (butlast bs @ last bs # [])" using assms by simp
  then have "blocks_ok lo (haddr (last bs)) (butlast bs)" "hend (last bs) \<le> page"
    unfolding blocks_ok_mid by simp_all
  then show ?thesis using False blocks_ok_mid [of lo page "butlast bs" "last bs" "[]"]
    by (auto simp: extend_blocks_def blocks_ok_mid)
qed

lemma heap_inv_expand:
  assumes inv: "heap_inv s bs" and free: "free_blocks s \<noteq> {}"
  shows "heap_inv (link_page (of_nat (4096 * first_free s)) bs (new_page_state s))
      (extend_blocks (4096 * first_free s) bs)"
    and "free_blocks (link_page (of_nat (4096 * first_free s)) bs (new_page_state s))
      = free_blocks s - {first_free s}"
proof -
  let ?f = "first_free s" and ?t = "new_page_state s"
  let ?u = "link_page (of_nat (4096 * ?f)) bs ?t"
  note new = new_page_state [OF inv free]
  have wf: "pmm_wf s" using inv by (simp add: heap_inv_def)
  note f = free_blocks_bounds [OF wf first_free_mem [OF free]]
  from inv obtain hi where hi: "blocks_ok 0x2000000 hi bs" "hi \<le> 4096 * ?f"
    using first_free_mem [OF free] by (auto simp: heap_inv_def)
  then have ok: "blocks_ok 0x2000000 (4096 * ?f) bs" by (auto intro: blocks_ok_mono)
  have path: "heap_path ?t (head ?t) bs 0" using new(4,5) by simp
  note page = page_header_simps [of "of_nat (4096 * ?f)" "SET_BIT (of_nat ?f) s", folded new_page_state_def]
  have b: "4096 * ?f + 24 \<le> 2 ^ 60" using f(2) by (simp add: max_blocks_def)
  note link = link_page_path [OF path page(1-3) ok b]
  have pmm: "pmm_wf ?u \<and> free_blocks ?u = free_blocks ?t"
  proof (cases "bs = []")
    case True
    then show ?thesis using new(2) by (simp add: link_page_def)
  next
    case False
    have "header (last bs) \<inter> bitmap_area = {}"
      by (rule extent_not_bitmap) (use heap_inv_block(1,3) [OF inv, of "last bs"] False in auto)
    then show ?thesis using pmm_frame [OF new(2) link(2)] False by blast
  qed
  have "4096 * ?f + 4096 \<le> 4096 * max_blocks" using f(2) by simp
  moreover have "4096 * ?f + 4096 \<le> 4096 * i" if "i \<in> free_blocks s - {?f}" for i
    using that first_free_le [of i s] by auto
  ultimately show "heap_inv ?u (extend_blocks (4096 * ?f) bs)" unfolding heap_inv_def
    using pmm link(1) extend_blocks_ok [OF ok] new(3) by blast
  show "free_blocks ?u = free_blocks s - {?f}" using pmm new(3) by simp
qed

section \<open>kmalloc\<close>

lemma heap_inv_frame:
  assumes inv: "heap_inv s bs" and t: "touches A s s'" and A: "A \<inter> bitmap_area = {}"
    and hdr: "\<And>b. b \<in> set bs \<Longrightarrow> A \<inter> header b = {}"
  shows "heap_inv s' bs"
proof -
  have "heap_path s' a bs c = heap_path s a bs c" for a c
    by (rule heap_path_cong) (use t hdr in \<open>auto dest: touches_mem\<close>)
  then show ?thesis
    using inv pmm_frame [OF _ t A] touches_head [OF t] by (auto simp: heap_inv_def)
qed

lemma video_low: "video_window \<inter> region (of_nat a) n = {}" if "0x2000000 \<le> a" "a + n \<le> 2 ^ 64"
  using region_above_disjoint [of "0xb8000" "0x20000" a n] that
  by (simp add: video_window_def VIDEO_ADDRESS_def)

lemma heap_inv_video: "heap_inv s bs \<Longrightarrow> touches video_window s s' \<Longrightarrow> heap_inv s' bs"
  by (rule heap_inv_frame [OF _ _ video_not_bitmap video_low])
    (use heap_inv_block(1,3) [of s bs] in force)+

text \<open>What one call of \<^verbatim>\<open>kmalloc\<close> does, in every case.\<close>

lemma kmalloc_cases:
  assumes inv: "heap_inv s bs" and sz: "sz \<noteq> 0"
  obtains (found) xs b ys s' where "bs = xs @ b # ys" and "fits (unat sz) b"
      and "alloc_blocks (unat sz) bs = Some (haddr b + 24, xs @ take_block (unat sz) b @ ys)"
      and "kmalloc sz s = Some (of_nat (haddr b + 24), s')"
      and "heap_inv s' (xs @ take_block (unat sz) b @ ys)" and "touches (extent b) s s'"
  | (expanded) s' where "alloc_blocks (unat sz) bs = None" and "free_blocks s \<noteq> {}"
      and "kmalloc sz s = Some (0, s')" and "heap_inv s' (extend_blocks (4096 * first_free s) bs)"
      and "free_blocks s' = free_blocks s - {first_free s}"
  | (out_of_memory) s' where "alloc_blocks (unat sz) bs = None" and "free_blocks s = {}"
      and "kmalloc sz s = Some (0, s')" and "heap_inv s' bs"
proof -
  have path: "heap_path s (head s) bs 0" using inv by (simp add: heap_inv_def)
  note search = kmalloc_search_path [of s "head s" _ _ sz "head s"]
  show thesis
  proof (cases "alloc_blocks (unat sz) bs")
    case (Some r)
    then obtain p bs' where r: "alloc_blocks (unat sz) bs = Some (p, bs')" by (cases r) auto
    from alloc_blocks_Some [OF r] obtain xs b ys where
      bs: "bs = xs @ b # ys" "\<forall>x \<in> set xs. \<not> fits (unat sz) x" "fits (unat sz) b"
        "p = haddr b + 24" "bs' = xs @ take_block (unat sz) b @ ys" by blast
    note inv' = inv [unfolded bs(1)]
    have "kmalloc_search sz (head s) (head s) s
        = Some (of_nat (haddr b), if xs = [] then head s else of_nat (haddr (last xs)))"
      using search [of xs "b # ys"] path bs(1-3) heap_inv_block(5,6) [OF inv'] by auto
    moreover have "(of_nat (haddr b) :: u64) \<noteq> 0" by (rule heap_inv_block(6) [OF inv']) simp
    ultimately have "kmalloc sz s = Some (kmalloc_take sz (of_nat (haddr b)) s)"
      using sz by (simp add: kmalloc_def)
    then have "kmalloc sz s = Some (of_nat (haddr b + 24), snd (kmalloc_take sz (of_nat (haddr b)) s))"
      using kmalloc_take_spec(1) [OF inv' bs(3)] by (simp add: prod_eq_iff)
    then show ?thesis
      using r heap_inv_take [OF inv' bs(3)] kmalloc_take_spec(2) [OF inv' bs(3)] bs found by blast
  next
    case None
    have "kmalloc_search sz (head s) (head s) s
        = Some (0, if bs = [] then head s else of_nat (haddr (last bs)))"
      using search [of bs "[]"] path None heap_inv_block(5,6) [OF inv] by (auto simp: alloc_blocks_None)
    then have k: "kmalloc sz s = Some (kmalloc_expand (if bs = [] then head s else of_nat (haddr (last bs))) s)"
      using sz by (simp add: kmalloc_def)
    show ?thesis
    proof (cases "free_blocks s = {}")
      case True
      from inv have "pmm_wf s" by (simp add: heap_inv_def)
      from pmm_alloc_None [OF this True] obtain t where
        t: "pmm_alloc_block s = (0, t)" "touches video_window s t" by blast
      then have "kmalloc sz s = Some (0, kprint (chars ''KHEAP: PMM OOM! Cannot expand heap.'' @ [10]) t)"
        by (simp add: k kmalloc_expand_def)
      moreover have "touches video_window s (kprint (chars ''KHEAP: PMM OOM! Cannot expand heap.'' @ [10]) t)"
        by (rule touches_trans [OF t(2) kprint_touches])
      ultimately show ?thesis using None True heap_inv_video [OF inv] out_of_memory by blast
    next
      case False
      then show ?thesis
        using None k kmalloc_expand_eq [OF inv False refl] heap_inv_expand [OF inv False] expanded by simp
    qed
  qed
qed

lemma heap_inv_data_nonnull: "heap_inv s bs \<Longrightarrow> b \<in> set bs \<Longrightarrow> (of_nat (haddr b + 24) :: u64) \<noteq> 0"
  using heap_inv_block(1,3) [of s bs b] unat64_of_nat [of "haddr b + 24"] by auto

lemma region_take_block:
  assumes "c \<in> set (take_block sz b)" and "fits sz b" and "hend b < 2 ^ 50"
  shows "region (of_nat (haddr b + 24)) sz \<inter> header c = {}"
proof (cases "haddr c = haddr b")
  case True
  then show ?thesis using region_above_disjoint [of "haddr b" 24 "haddr b + 24" sz] assms(2,3)
    by (auto simp: Int_commute)
next
  case False
  with assms(1) have "haddr c = haddr b + 24 + sz" "sz + 32 < hsize b"
    by (auto simp: take_block_def split: if_splits)
  then show ?thesis
    using region_above_disjoint [of "haddr b + 24" sz "haddr b + 24 + sz" 24] assms(3) by simp
qed

section \<open>kfree\<close>

lemma merge_blocks_ok: "blocks_ok lo hi bs \<Longrightarrow> blocks_ok lo hi (merge_blocks bs)"
proof (induction bs arbitrary: lo rule: merge_blocks.induct)
  case (3 b c bs)
  show ?case
  proof (cases "hfree b \<and> hfree c")
    case True
    have "blocks_ok (haddr b + 24 + (hsize b + 24 + hsize c)) hi bs"
      by (rule blocks_ok_mono [of "hend c"]) (use 3 in auto)
    with 3 True show ?thesis by simp
  qed (use 3 in auto)
qed auto

lemma kfree_merge_path:
  assumes "heap_path s a bs 0" and "blocks_ok lo hi bs" and "0 < lo" and "hi \<le> 2 ^ 60"
  shows "\<exists>s'. kfree_merge a s = Some s' \<and> heap_path s' a (merge_blocks bs) 0 \<and>
    touches (\<Union>b \<in> set bs. header b) s s'"
  using assms
proof (induction bs arbitrary: s a lo rule: merge_blocks.induct)
  case 1
  then show ?case by (subst kfree_merge.simps) simp
next
  case (2 b)
  then have "hdr_next a s = 0" by auto
  then have "kfree_merge a s = Some s" by (simp add: kfree_merge.simps [of a s])
  then show ?case using 2 by auto
next
  case (3 b c bs)
  let ?n = "of_nat (haddr c) :: u64"
  have a: "a = of_nat (haddr b)" "hdr_size a s = of_nat (hsize b)" "hdr_free a s = hfree b"
    "hdr_next a s = ?n" "hdr_size ?n s = of_nat (hsize c)" "hdr_free ?n s = hfree c"
    "heap_path s (hdr_next ?n s) bs 0"
    using "3.prems"(1) by auto
  have hi: "hi \<le> 2 ^ 64" using "3.prems"(4) by simp
  have disj: "header b \<inter> header x = {}" if "x \<in> set (c # bs)" for x
    using blocks_ok_disjoint [of lo hi "[]" b "c # bs" x] "3.prems"(2) hi that header_extent [of b]
      header_extent [of x] by auto
  have nz: "a \<noteq> 0" "?n \<noteq> 0"
    using "3.prems"(2-4) blocks_ok_bounds [OF "3.prems"(2), of b] blocks_ok_bounds [OF "3.prems"(2), of c]
      unat64_of_nat [of "haddr b"] unat64_of_nat [of "haddr c"] a(1) by auto
  show ?case
  proof (cases "hfree b \<and> hfree c")
    case True
    let ?b = "HBlock (haddr b) (hsize b + 24 + hsize c) True"
    let ?t = "set_size a (hdr_size a s + (HEADER_SIZE + hdr_size (hdr_next a s) s)) s"
    let ?u = "set_next a (hdr_next (hdr_next a ?t) ?t) ?t"
    have step: "kfree_merge a s = kfree_merge a ?u"
      using nz True a by (subst kfree_merge.simps) (simp add: Let_def)
    have tu: "touches (header b) s ?u" unfolding a(1) by (blast intro: touches_hdr touches_trans)
    have "heap_path ?u (hdr_next ?n s) bs 0 = heap_path s (hdr_next ?n s) bs 0"
      by (rule heap_path_cong) (use tu disj in \<open>auto dest: touches_mem\<close>)
    moreover have "region a 24 \<inter> region ?n 24 = {}" using disj [of c] a(1) by simp
    ultimately have "heap_path ?u a (?b # bs) 0" using a True
      by (simp add: HEADER_SIZE_def add.assoc)
    moreover have "blocks_ok lo hi (?b # bs)"
      using "3.prems"(2) by (auto intro: blocks_ok_mono)
    ultimately obtain s' where "kfree_merge a ?u = Some s'"
      "heap_path s' a (merge_blocks (?b # bs)) 0" "touches (\<Union>b \<in> set (?b # bs). header b) ?u s'"
      using "3.IH"(1) [OF True _ _ "3.prems"(3,4), of ?u a] by blast
    then show ?thesis using step True tu
      by (auto intro!: touches_trans [OF touches_mono [OF tu] touches_mono])
  next
    case False
    have "heap_path s ?n (c # bs) 0" "blocks_ok (hend b) hi (c # bs)" using "3.prems"(1,2) by auto
    then obtain s' where s': "kfree_merge ?n s = Some s'"
      "heap_path s' ?n (merge_blocks (c # bs)) 0" "touches (\<Union>b \<in> set (c # bs). header b) s s'"
      using "3.IH"(2) [OF False, of s ?n "hend b"] "3.prems"(4) by auto
    have "kfree_merge a s = Some s'" using nz False a s'(1) by (subst kfree_merge.simps) auto
    moreover have "(\<Union>b \<in> set (c # bs). header b) \<inter> region a 24 = {}" using disj a(1) by fast
    then have "heap_path s' a (b # merge_blocks (c # bs)) 0"
      using a s'(2) hdr_frame [OF s'(3)] by simp
    moreover have "touches (\<Union>b \<in> set (b # c # bs). header b) s s'"
      by (rule touches_mono [OF s'(3)]) auto
    ultimately show ?thesis using False by auto
  qed
qed

lemma release_block_split:
  assumes "blocks_ok lo hi (xs @ b # ys)"
  shows "map (release_block (haddr b + 24)) (xs @ b # ys) = xs @ HBlock (haddr b) (hsize b) True # ys"
proof -
  have "haddr x \<noteq> haddr b" if "x \<in> set xs \<union> set ys" for x
    using assms that blocks_ok_bounds [of lo "haddr b" xs x] blocks_ok_bounds [of "hend b" hi ys x]
    by (auto simp: blocks_ok_mid)
  then have "map (release_block (haddr b + 24)) zs = zs" if "set zs \<subseteq> set xs \<union> set ys" for zs
    using that by (auto simp: release_block_def intro!: map_idI)
  then show ?thesis by (simp add: release_block_def)
qed

lemma kfree_spec:
  assumes inv: "heap_inv s bs" and b: "b \<in> set bs"
  shows "\<exists>s'. kfree (of_nat (haddr b + 24)) s = Some s' \<and> heap_inv s' (free_block (haddr b + 24) bs) \<and>
    touches (\<Union>c \<in> set bs. header c) s s'"
proof -
  from b obtain xs ys where bs: "bs = xs @ b # ys" by (meson split_list)
  note inv' = inv [unfolded bs]
  let ?a = "of_nat (haddr b) :: u64" and ?bs = "xs @ HBlock (haddr b) (hsize b) True # ys"
  let ?t = "set_free ?a 1 s"
  have tt: "touches (header b) s ?t" by (rule touches_hdr)
  have inv_t: "heap_inv ?t ?bs"
    using heap_inv_replace [OF inv' touches_mono [OF tt header_extent], of "[HBlock (haddr b) (hsize b) True]"]
      heap_inv_split(2,3) [OF inv'] by simp
  then obtain hi where hi: "hi \<le> 4096 * max_blocks" "blocks_ok 0x2000000 hi ?bs"
    "\<forall>i \<in> free_blocks ?t. hi \<le> 4096 * i" "pmm_wf ?t" "heap_path ?t (head ?t) ?bs 0"
    by (auto simp: heap_inv_def)
  have "hi \<le> 2 ^ 60" using hi(1) by (simp add: max_blocks_def)
  from kfree_merge_path [OF hi(5,2) _ this] obtain s' where
    s': "kfree_merge (head ?t) ?t = Some s'" "heap_path s' (head ?t) (merge_blocks ?bs) 0"
      "touches (\<Union>c \<in> set ?bs. header c) ?t s'" by auto
  have low: "(\<Union>c \<in> set ?bs. header c) \<inter> bitmap_area = {}"
  proof -
    have "header c \<inter> bitmap_area = {}" if "c \<in> set ?bs" for c
      by (rule extent_not_bitmap) (use heap_inv_block(1,3) [OF inv_t that] in auto)
    then show ?thesis by blast
  qed
  note fr = pmm_frame [OF hi(4) s'(3) low]
  note nz = heap_inv_data_nonnull [OF inv b]
  have "of_nat (haddr b + 24) - HEADER_SIZE = ?a" by (simp add: HEADER_SIZE_def)
  then have "kfree (of_nat (haddr b + 24)) s = Some s'" using nz s'(1) by (simp add: kfree_def Let_def)
  moreover from inv' obtain hi' where "blocks_ok 0x2000000 hi' (xs @ b # ys)" by (auto simp: heap_inv_def)
  from release_block_split [OF this] have "free_block (haddr b + 24) bs = merge_blocks ?bs"
    by (simp add: free_block_def bs)
  then have "heap_inv s' (free_block (haddr b + 24) bs)"
    using fr hi s'(2) touches_head [OF s'(3)] merge_blocks_ok [OF hi(2)] by (auto simp: heap_inv_def)
  moreover have "touches (\<Union>c \<in> set bs. header c) s s'"
    by (rule touches_trans [OF touches_mono [OF tt] touches_mono [OF s'(3)]]) (auto simp: bs)
  ultimately show ?thesis by blast
qed

section \<open>Coalescing\<close>

fun coalesced :: "hblock list \<Rightarrow> bool" where
  "coalesced (b # c # bs) \<longleftrightarrow> \<not> (hfree b \<and> hfree c) \<and> coalesced (c # bs)"
| "coalesced bs \<longleftrightarrow> True"

lemma merge_blocks_hd: "\<exists>n cs. merge_blocks (b # bs) = HBlock (haddr b) n (hfree b) # cs"
proof (induction "b # bs" arbitrary: b bs rule: merge_blocks.induct)
  case (2 b)
  then show ?case by (cases b) auto
next
  case (3 b c bs)
  then show ?case by (cases b) auto
qed

lemma merge_blocks_coalesced: "coalesced (merge_blocks bs)"
proof (induction bs rule: merge_blocks.induct)
  case (3 b c bs)
  obtain n cs where "merge_blocks (c # bs) = HBlock (haddr c) n (hfree c) # cs"
    using merge_blocks_hd by blast
  with 3 show ?case by auto
qed auto

lemma merge_coalesced: "coalesced bs \<Longrightarrow> merge_blocks bs = bs"
  by (induction bs rule: merge_blocks.induct) auto

lemma merge_split:
  assumes "coalesced (xs @ HBlock (haddr b) (hsize b + 24 + hsize c) True # ys)" and "hfree b" "hfree c"
  shows "merge_blocks (xs @ b # c # ys) = xs @ HBlock (haddr b) (hsize b + 24 + hsize c) True # ys"
  using assms(1)
proof (induction xs)
  case Nil
  then show ?case using assms(2,3) merge_coalesced by simp
next
  case (Cons x xs)
  then show ?case using assms(2,3) by (cases xs) auto
qed

lemma free_take_block:
  assumes "coalesced (xs @ b # ys)" and "fits sz b" and "blocks_ok lo hi (xs @ take_block sz b @ ys)"
  shows "free_block (haddr b + 24) (xs @ take_block sz b @ ys) = xs @ b # ys"
proof (cases "sz + 32 < hsize b")
  case True
  have b: "HBlock (haddr b) (hsize b) True = b" using assms(2) by (cases b) auto
  let ?c = "HBlock (haddr b + 24 + sz) (hsize b - sz - 24) True"
  have "free_block (haddr b + 24) (xs @ take_block sz b @ ys) = merge_blocks (xs @ HBlock (haddr b) sz True # ?c # ys)"
    using release_block_split [of lo hi xs "HBlock (haddr b) sz False" "?c # ys"] assms(3) True
    by (simp add: free_block_def take_block_def)
  also have "\<dots> = xs @ b # ys"
    using merge_split [of xs "HBlock (haddr b) sz True" ?c ys] assms(1) True b by simp
  finally show ?thesis .
next
  case False
  have b: "HBlock (haddr b) (hsize b) True = b" using assms(2) by (cases b) auto
  show ?thesis
    using release_block_split [of lo hi xs "HBlock (haddr b) (hsize b) False" ys] assms(1,3) False b
    by (simp add: free_block_def take_block_def merge_coalesced)
qed

section \<open>Initialisation\<close>

text \<open>With a free frame, \<^verbatim>\<open>init_kheap\<close> builds a heap of one free block that fills the frame.\<close>

lemma init_kheap_one_block:
  assumes "pmm_wf s" and "free_blocks s \<noteq> {}"
  shows "heap_inv (init_kheap s) [HBlock (4096 * first_free s) 4072 True] \<and>
    free_blocks (init_kheap s) = free_blocks s - {first_free s}"
proof -
  let ?f = "first_free s" and ?t = "SET_BIT (of_nat (first_free s)) s"
  let ?p = "of_nat (4096 * ?f) :: u64"
  note alloc = pmm_alloc_Some [OF assms]
  note f = free_blocks_bounds [OF assms(1) first_free_mem [OF assms(2)]]
  have p: "of_nat ?f * BLOCK_SIZE = ?p" by (simp add: BLOCK_SIZE_def)
  have p0: "?p \<noteq> 0" by (rule frame_addr_nonnull [OF assms(1) first_free_mem [OF assms(2)]])
  define u where "u = set_free ?p 1 (set_size ?p (BLOCK_SIZE - HEADER_SIZE) (set_next ?p 0 (?t\<lparr>head := ?p\<rparr>)))"
  have hd: "head u = ?p"
    by (simp add: u_def set_free_def set_size_def set_next_def poke_def poke64_def)
  have init: "init_kheap s = kprint (chars ''HEAP Initialized.'' @ [10]) u"
    using p0 by (simp add: init_kheap_def alloc(1) p u_def set_size_def set_next_def poke64_def del: of_nat_mult)
  have tu: "touches (region ?p 24) (?t\<lparr>head := ?p\<rparr>) u"
    unfolding u_def by (blast intro: touches_hdr touches_trans)
  have "region ?p 24 \<inter> bitmap_area = {}"
    by (rule extent_not_bitmap) (use f(1,3) in simp_all)
  note fr = pmm_frame [OF _ tu this]
  have "heap_path u (head u) [HBlock (4096 * ?f) 4072 True] 0"
    by (simp add: hd) (simp add: u_def BLOCK_SIZE_def HEADER_SIZE_def)
  moreover have "4096 * ?f + 4096 \<le> 4096 * i" if "i \<in> free_blocks s - {?f}" for i
    using that first_free_le [of i s] by auto
  ultimately have inv: "heap_inv u [HBlock (4096 * ?f) 4072 True]"
    unfolding heap_inv_def using f(1,2) fr alloc(2,3)
    by (intro conjI exI [of _ "4096 * ?f + 4096"]) auto
  then have "pmm_wf u" by (simp add: heap_inv_def)
  then show ?thesis using heap_inv_video [OF inv kprint_touches] fr alloc(2,3)
    by (simp add: init pmm_frame(2) [OF _ kprint_touches video_not_bitmap])
qed

text \<open>Taking a frame for another purpose leaves the heap as it is.\<close>

lemma heap_inv_pmm_alloc:
  assumes inv: "heap_inv s bs" and free: "free_blocks s \<noteq> {}"
  shows "heap_inv (snd (pmm_alloc_block s)) bs"
proof -
  have wf: "pmm_wf s" using inv by (simp add: heap_inv_def)
  let ?t = "SET_BIT (of_nat (first_free s)) s"
  note alloc = pmm_alloc_Some [OF wf free]
  note f = free_blocks_bounds [OF wf first_free_mem [OF free]]
  have t: "touches bitmap_area s ?t"
    by (rule touches_mono [OF alloc(4)]) (use block_byte_in_area [OF f(2)] in simp)
  have "bitmap_area \<inter> header b = {}" if "b \<in> set bs" for b
    using extent_not_bitmap [of "haddr b" 24] heap_inv_block(1,3) [OF inv that] by (auto simp: Int_commute)
  then have "heap_path ?t a bs c = heap_path s a bs c" for a c
    by (intro heap_path_cong) (use t in \<open>auto dest: touches_mem\<close>)
  then show ?thesis using inv alloc touches_head [OF t] by (auto simp: heap_inv_def)
qed

lemma kmalloc_free_blocks:
  assumes "heap_inv s bs" and "b \<in> set bs" and "touches (extent b) s s'"
  shows "free_blocks s' = free_blocks s"
proof (rule pmm_frame(2) [OF _ assms(3)])
  show "extent b \<inter> bitmap_area = {}"
    by (rule extent_not_bitmap) (use heap_inv_block(1,3) [OF assms(1,2)] in auto)
qed (use assms(1) in \<open>simp add: heap_inv_def\<close>)

section \<open>Properties\<close>

text \<open>
  C1: Every call of \<^verbatim>\<open>kmalloc\<close> on a well-formed heap returns, and it does what the first-fit
  allocator on the list of blocks does: it takes the first free block that is large enough and
  splits it when the remainder exceeds 8 bytes besides its header; when no block fits, it returns
  0 after appending a page, or leaves the list as it is when physical memory is exhausted.
\<close>

theorem kmalloc_refines_first_fit:
  assumes "heap_inv s bs" and "sz \<noteq> 0"
  shows "\<exists>p s'. kmalloc sz s = Some (p, s') \<and>
    (case alloc_blocks (unat sz) bs of
       Some (q, bs') \<Rightarrow> p = of_nat q \<and> p \<noteq> 0 \<and> heap_inv s' bs'
     | None \<Rightarrow> p = 0 \<and> heap_inv s' (if free_blocks s = {} then bs else extend_blocks (4096 * first_free s) bs))"
proof (rule kmalloc_cases [OF assms])
  fix xs b ys s' assume b: "bs = xs @ b # ys" and *: "fits (unat sz) b"
      "alloc_blocks (unat sz) bs = Some (haddr b + 24, xs @ take_block (unat sz) b @ ys)"
      "kmalloc sz s = Some (of_nat (haddr b + 24), s')" "heap_inv s' (xs @ take_block (unat sz) b @ ys)"
  then show ?thesis using heap_inv_data_nonnull [OF assms(1), of b] by simp
qed auto

text \<open>
  C4: A pointer that \<^verbatim>\<open>kmalloc\<close> returns owns its bytes: the requested region lies apart from the
  page-frame bitmap, from video memory, and from the header and the data of every block that was in
  use; the call changes no byte of these blocks; and whatever the caller writes into the region,
  the heap stays well formed.
\<close>

theorem kmalloc_region_exclusive:
  assumes inv: "heap_inv s bs" and call: "kmalloc sz s = Some (p, s')" and "p \<noteq> 0"
  shows "region p (unat sz) \<inter> (bitmap_area \<union> video_window) = {} \<and>
    (\<forall>b \<in> set bs. \<not> hfree b \<longrightarrow> region p (unat sz) \<inter> extent b = {} \<and>
       (\<forall>x \<in> extent b. mem s' x = mem s x)) \<and>
    (\<exists>bs'. heap_inv s' bs' \<and> (\<forall>t. touches (region p (unat sz)) s' t \<longrightarrow> heap_inv t bs'))"
proof -
  have "sz \<noteq> 0" using call assms(3) by (auto simp: kmalloc_def)
  with inv show ?thesis
  proof (rule kmalloc_cases)
    fix xs b ys t assume bs: "bs = xs @ b # ys" "fits (unat sz) b"
      "kmalloc sz s = Some (of_nat (haddr b + 24), t)"
      and inv': "heap_inv t (xs @ take_block (unat sz) b @ ys)" and t: "touches (extent b) s t"
    let ?R = "region p (unat sz)"
    have eq: "p = of_nat (haddr b + 24)" "t = s'" using bs(3) call by auto
    note blk = heap_inv_block [OF inv, of b]
    have R: "?R \<subseteq> extent b"
      using region_sub [of 24 "unat sz" "24 + hsize b" "of_nat (haddr b)"] bs blk(3) by (simp add: eq)
    have low: "?R \<inter> bitmap_area = {}" "?R \<inter> video_window = {}"
      using extent_not_bitmap [of "haddr b + 24" "unat sz"] video_low [of "haddr b + 24" "unat sz"] bs blk(1,3)
      by (auto simp: eq)
    have used: "extent b \<inter> extent c = {}" if "c \<in> set bs" "\<not> hfree c" for c
      using heap_inv_split(5) [OF inv [unfolded bs(1)], of c] that bs by auto
    have "heap_inv u (xs @ take_block (unat sz) b @ ys)" if u: "touches ?R s' u" for u
    proof (rule heap_inv_frame [OF inv' [unfolded eq(2)] u low(1)])
      fix c assume c: "c \<in> set (xs @ take_block (unat sz) b @ ys)"
      show "?R \<inter> header c = {}"
      proof (cases "c \<in> set xs \<union> set ys")
        case True
        then show ?thesis using heap_inv_split(5) [OF inv [unfolded bs(1)], of c] R header_extent [of c] by blast
      next
        case False
        with c have "c \<in> set (take_block (unat sz) b)" by simp
        from region_take_block [OF this bs(2)] show ?thesis using blk(3) bs(1) by (simp add: eq(1))
      qed
    qed
    then have "\<exists>bs'. heap_inv s' bs' \<and> (\<forall>u. touches ?R s' u \<longrightarrow> heap_inv u bs')"
      using inv' eq(2) by blast
    moreover have "?R \<inter> extent c = {} \<and> (\<forall>x \<in> extent c. mem s' x = mem s x)"
      if "c \<in> set bs" "\<not> hfree c" for c
      using used [OF that] R touches_mem [OF t [unfolded eq(2)]] by blast
    ultimately show ?thesis using low by blast
  qed (use call assms(3) in auto)
qed

text \<open>
  C3: \<^verbatim>\<open>kfree\<close> of the data pointer of a block returns; the block becomes free, no two adjacent
  blocks of the new list are both free, and only headers have changed.
\<close>

theorem kfree_coalesces:
  assumes "heap_inv s bs" and "b \<in> set bs"
  shows "\<exists>s'. kfree (of_nat (haddr b + 24)) s = Some s' \<and> heap_inv s' (free_block (haddr b + 24) bs) \<and>
    coalesced (free_block (haddr b + 24) bs) \<and> touches (\<Union>c \<in> set bs. header c) s s'"
  using kfree_spec [OF assms] merge_blocks_coalesced by (auto simp: free_block_def)

text \<open>
  C17: On a heap without adjacent free blocks, \<^verbatim>\<open>kmalloc\<close> followed by \<^verbatim>\<open>kfree\<close> of its result
  restores the list of blocks.
\<close>

theorem kmalloc_kfree_roundtrip:
  assumes inv: "heap_inv s bs" and "coalesced bs" and call: "kmalloc sz s = Some (p, s')" and "p \<noteq> 0"
  shows "\<exists>s''. kfree p s' = Some s'' \<and> heap_inv s'' bs"
proof -
  have "sz \<noteq> 0" using call assms(4) by (auto simp: kmalloc_def)
  with inv show ?thesis
  proof (rule kmalloc_cases)
    fix xs b ys t assume bs: "bs = xs @ b # ys" "fits (unat sz) b"
      "kmalloc sz s = Some (of_nat (haddr b + 24), t)"
      and inv': "heap_inv t (xs @ take_block (unat sz) b @ ys)"
    define c where "c = hd (take_block (unat sz) b)"
    have c: "c \<in> set (xs @ take_block (unat sz) b @ ys)" "haddr c = haddr b"
      by (auto simp: c_def take_block_def)
    from inv' obtain hi where ok: "blocks_ok 0x2000000 hi (xs @ take_block (unat sz) b @ ys)"
      by (auto simp: heap_inv_def)
    show ?thesis
      using kfree_spec [OF inv' c(1)] free_take_block [OF _ bs(2) ok] assms(2) bs call c(2) by auto
  qed (use call assms(4) in auto)
qed

text \<open>
  C34: When \<^verbatim>\<open>kmalloc\<close> has to expand the heap for a request that fits into a page, it fails
  although memory is available: the same request made again succeeds.
\<close>

theorem kmalloc_fails_after_expanding:
  assumes inv: "heap_inv s bs" and "sz \<noteq> 0" and "unat sz \<le> 4072"
    and none: "\<forall>b \<in> set bs. \<not> fits (unat sz) b" and free: "free_blocks s \<noteq> {}"
  shows "\<exists>s' q s''. kmalloc sz s = Some (0, s') \<and> kmalloc sz s' = Some (q, s'') \<and> q \<noteq> 0"
  using inv assms(2)
proof (rule kmalloc_cases)
  fix s' assume s': "kmalloc sz s = Some (0, s')" "heap_inv s' (extend_blocks (4096 * first_free s) bs)"
  let ?es = "extend_blocks (4096 * first_free s) bs"
  have "fits (unat sz) (last ?es)" "last ?es \<in> set ?es"
    using assms(3) by (auto simp: extend_blocks_def)
  then have some: "alloc_blocks (unat sz) ?es \<noteq> None" using alloc_blocks_None by blast
  from s'(2) assms(2) have "\<exists>q s''. kmalloc sz s' = Some (q, s'') \<and> q \<noteq> 0"
  proof (rule kmalloc_cases)
    fix xs b ys t assume b: "?es = xs @ b # ys" "kmalloc sz s' = Some (of_nat (haddr b + 24), t)"
    then show ?thesis using heap_inv_data_nonnull [OF s'(2), of b] by simp
  qed (use some in auto)
  with s'(1) show ?thesis by blast
qed (use none free in \<open>auto simp: alloc_blocks_None [symmetric]\<close>)


text \<open>
  C35: \<^verbatim>\<open>kfree\<close> merges neighbours of the list without comparing their addresses. When the frame
  between two heap pages belongs to someone else, the merged block covers it, and a later request
  is given memory that overlaps the foreign frame.
\<close>

theorem kfree_merges_across_foreign_frame:
  assumes inv: "heap_inv s [HBlock a 4072 True]" and "a + 4096 = 4096 * first_free s"
    and "first_free s \<in> free_blocks s" and "Suc (first_free s) \<in> free_blocks s"
  shows "\<exists>p1 s1 q s2 s3 s4 p2 s5. kmalloc 4072 s = Some (p1, s1) \<and> pmm_alloc_block s1 = (q, s2) \<and> q \<noteq> 0 \<and>
    kmalloc 4072 s2 = Some (0, s3) \<and> kfree p1 s3 = Some s4 \<and> kmalloc 8000 s4 = Some (p2, s5) \<and>
    q \<in> region p2 8000"
proof -
  let ?f = "first_free s"
  let ?used = "HBlock a 4072 False" and ?new = "HBlock (4096 * Suc ?f) 4072 True"
  obtain s1 where s1: "kmalloc 4072 s = Some (of_nat (a + 24), s1)" "heap_inv s1 [?used]"
    "touches (extent (HBlock a 4072 True)) s s1"
    by (rule kmalloc_cases [OF inv, of 4072]) (auto simp: take_block_def Cons_eq_append_conv)
  have free1: "free_blocks s1 = free_blocks s" by (rule kmalloc_free_blocks [OF inv _ s1(3)]) simp
  then have ff1: "first_free s1 = ?f" by (simp add: first_free_def)
  have ne1: "free_blocks s1 \<noteq> {}" and wf1: "pmm_wf s1" using free1 assms(3) s1(2) by (auto simp: heap_inv_def)
  note alloc = pmm_alloc_Some [OF wf1 ne1]
  define s2 where "s2 = snd (pmm_alloc_block s1)"
  have q: "pmm_alloc_block s1 = (of_nat (4096 * ?f), s2)"
    using alloc(1) ff1 by (simp add: s2_def BLOCK_SIZE_def)
  have inv2: "heap_inv s2 [?used]" unfolding s2_def by (rule heap_inv_pmm_alloc [OF s1(2) ne1])
  have free2: "free_blocks s2 = free_blocks s - {?f}" using alloc free1 ff1 by (simp add: s2_def)
  have "(LEAST i. i \<in> free_blocks s2) = Suc ?f" unfolding free2
    by (rule Least_equality) (use assms(4) first_free_le [of _ s] in \<open>fastforce simp: le_less Suc_le_eq\<close>)+
  then have ff2: "first_free s2 = Suc ?f" by (simp add: first_free_def [of s2])
  obtain s3 where s3: "kmalloc 4072 s2 = Some (0, s3)" "heap_inv s3 [?used, ?new]"
    by (rule kmalloc_cases [OF inv2, of 4072])
      (use free2 assms(4) in \<open>auto simp: ff2 extend_blocks_def Cons_eq_append_conv\<close>)
  obtain s4 where s4: "kfree (of_nat (a + 24)) s3 = Some s4" "heap_inv s4 [HBlock a 8168 True]"
    using kfree_spec [OF s3(2), of ?used] assms(2) by (auto simp: free_block_def release_block_def)
  obtain s5 where s5: "kmalloc 8000 s4 = Some (of_nat (a + 24), s5)"
    by (rule kmalloc_cases [OF s4(2), of 8000]) (auto simp: take_block_def Cons_eq_append_conv)
  have "of_nat (4096 * ?f) = (of_nat (a + 24) + of_nat 4072 :: u64)"
    unfolding assms(2) [symmetric] by simp
  then have "of_nat (4096 * ?f) \<in> region (of_nat (a + 24)) 8000"
    using in_region_offset [of 4072 8000 "of_nat (a + 24)"] by (simp only:) simp
  moreover have "(of_nat (4096 * ?f) :: u64) \<noteq> 0"
    using frame_addr_nonnull [OF wf1 first_free_mem [OF ne1]] unfolding ff1 .
  ultimately show ?thesis using s1(1) q s3(1) s4(1) s5 by blast
qed

text \<open>
  After \<^verbatim>\<open>init_pmm\<close> and \<^verbatim>\<open>init_kheap\<close> on a memory map with a usable page above 32 MB, the heap
  is well formed and holds one free block of 4072 bytes.
\<close>

lemma heap_ready_after_boot:
  assumes "unat (max_usable s) div 4096 \<le> max_blocks" and "8192 \<le> i" and "usable_block s i"
    and "i < 8 * (unat (max_usable s) div 4096 div 8)"
  shows "\<exists>a. heap_inv (init_kheap (init_pmm s)) [HBlock a 4072 True]"
proof -
  have "i < 2 ^ 52" using assms(1,4) by (simp add: max_blocks_def)
  then have "i \<in> free_blocks (init_pmm s)"
    using assms(2-4) by (simp add: free_blocks_def init_pmm_spec)
  moreover have "pmm_wf (init_pmm s)" using assms(1) by (simp add: pmm_wf_def init_pmm_spec)
  ultimately show ?thesis using init_kheap_one_block [of "init_pmm s"] by blast
qed

section \<open>Witnesses\<close>

lemma pmm_extend [simp]:
  "mem (pmm.extend s m) = mem s" "pmm_wf (pmm.extend s m) = pmm_wf s"
  "free_blocks (pmm.extend s m) = free_blocks s" "first_free (pmm.extend s m) = first_free s"
  by (simp_all add: pmm.extend_def pmm_wf_def free_blocks_def block_used_def first_free_def)

definition small_heap :: kheap where
  "small_heap = init_kheap (pmm.extend small_pmm (kheap.fields 0))"

lemma small_heap_inv:
  "heap_inv small_heap [HBlock 0x2000000 4072 True]" "free_blocks small_heap = {8193..<8200}"
  "first_free small_heap = 8193"
proof -
  have ff: "first_free small_pmm = 8192"
    unfolding first_free_def small_pmm_free by (rule Least_equality) auto
  have "heap_inv small_heap [HBlock (4096 * first_free small_pmm) 4072 True] \<and>
      free_blocks small_heap = free_blocks small_pmm - {first_free small_pmm}"
    using init_kheap_one_block [of "pmm.extend small_pmm (kheap.fields 0)"] small_pmm_wf small_pmm_free
    by (simp add: small_heap_def)
  moreover have "{8192..<8200} - {8192} = {8193..<8200::nat}" by auto
  ultimately show "heap_inv small_heap [HBlock 0x2000000 4072 True]"
    and fr: "free_blocks small_heap = {8193..<8200}"
    by (simp_all add: ff small_pmm_free)
  show "first_free small_heap = 8193"
    unfolding first_free_def fr by (rule Least_equality) auto
qed

theorem kmalloc_refines_first_fit_witness:
  "\<exists>s'. kmalloc 64 small_heap = Some (0x2000018, s') \<and>
    heap_inv s' [HBlock 0x2000000 64 False, HBlock 0x2000058 3984 True]"
  using kmalloc_refines_first_fit [OF small_heap_inv(1), of 64] by (auto simp: take_block_def)

theorem kmalloc_region_exclusive_witness:
  "\<exists>p s'. kmalloc 64 small_heap = Some (p, s') \<and> region p 64 \<inter> (bitmap_area \<union> video_window) = {} \<and>
    (\<exists>bs'. heap_inv s' bs' \<and> (\<forall>t. touches (region p 64) s' t \<longrightarrow> heap_inv t bs'))"
proof -
  obtain s' where "kmalloc 64 small_heap = Some (0x2000018, s')"
    by (rule kmalloc_cases [OF small_heap_inv(1), of 64]) (auto simp: Cons_eq_append_conv)
  then show ?thesis using kmalloc_region_exclusive [OF small_heap_inv(1)] by force
qed

theorem kfree_coalesces_witness:
  "\<exists>s'. kfree 0x2000018 small_heap = Some s' \<and> coalesced [HBlock 0x2000000 4072 True]"
  using kfree_coalesces [OF small_heap_inv(1), of "HBlock 0x2000000 4072 True"]
  by (auto simp: free_block_def release_block_def)

theorem kmalloc_kfree_roundtrip_witness:
  "\<exists>p s' s''. kmalloc 64 small_heap = Some (p, s') \<and> p \<noteq> 0 \<and> kfree p s' = Some s'' \<and>
    heap_inv s'' [HBlock 0x2000000 4072 True]"
proof -
  obtain s' where "kmalloc 64 small_heap = Some (0x2000018, s')"
    by (rule kmalloc_cases [OF small_heap_inv(1), of 64]) (auto simp: Cons_eq_append_conv)
  then show ?thesis using kmalloc_kfree_roundtrip [OF small_heap_inv(1)] by force
qed

theorem kmalloc_fails_after_expanding_witness:
  "\<exists>s0 p s s' q s''. kmalloc 4000 small_heap = Some (p, s) \<and> p \<noteq> 0 \<and>
     kmalloc 512 s = Some (0, s') \<and> kmalloc 512 s' = Some (q, s'') \<and> q \<noteq> 0"
proof -
  obtain s where s: "kmalloc 4000 small_heap = Some (0x2000018, s)"
      "heap_inv s [HBlock 0x2000000 4000 False, HBlock 0x2000fb8 48 True]"
      "touches (extent (HBlock 0x2000000 4072 True)) small_heap s"
    by (rule kmalloc_cases [OF small_heap_inv(1), of 4000]) (auto simp: Cons_eq_append_conv take_block_def)
  have "free_blocks s \<noteq> {}"
    using kmalloc_free_blocks [OF small_heap_inv(1) _ s(3)] small_heap_inv(2) by simp
  with kmalloc_fails_after_expanding [OF s(2), of 512] s(1) show ?thesis by auto
qed

theorem kfree_merges_across_foreign_frame_witness:
  "\<exists>p1 s1 q s2 s3 s4 p2 s5. kmalloc 4072 small_heap = Some (p1, s1) \<and> pmm_alloc_block s1 = (q, s2) \<and>
    q \<noteq> 0 \<and> kmalloc 4072 s2 = Some (0, s3) \<and> kfree p1 s3 = Some s4 \<and>
    kmalloc 8000 s4 = Some (p2, s5) \<and> q \<in> region p2 8000"
  by (rule kfree_merges_across_foreign_frame [OF small_heap_inv(1)]) (simp_all add: small_heap_inv)

definition map_heap :: kheap where
  "map_heap = pmm.extend (map_machine map_128M) (kheap.fields 0)"

lemma heap_ready_after_boot_witness:
  "\<exists>a. heap_inv (init_kheap (init_pmm map_heap)) [HBlock a 4072 True]"
proof -
  have m: "mem map_heap = mem (map_machine map_128M)" by (simp add: map_heap_def)
  note map = e820_cong [of map_heap "map_machine map_128M", unfolded m, OF refl]
  have mx: "max_usable map_heap = max_usable (map_machine map_128M)"
    by (simp add: max_usable_def map map_128M_entry)
  show ?thesis
  proof (rule heap_ready_after_boot [of _ 10000])
    show "usable_block map_heap 10000"
      by (simp add: usable_block_def map map_128M_entry entry_covers_def)
  qed (simp_all add: mx map_max_usable max_blocks_def)
qed

end
