(* ===== verification/Vmm.thy ===== *)
theory Vmm
  imports Kheap
begin

text \<open>
  The virtual memory manager of \<^verbatim>\<open>src/kernel/vmm.c\<close>: four-level page tables in memory, whose
  frames come from the physical memory manager. The CPU is modelled as far as the code drives
  it: the register CR3, and the translation cache, which \<^verbatim>\<open>invlpg\<close> empties for one page and a
  write to CR3 empties altogether. The kernel itself reaches the tables by their physical address.
\<close>

record vmm = kheap +
  current_pml4 :: u64
  kernel_pml4 :: u64
  cr3 :: u64
  tlb :: "u64 \<rightharpoonup> u64"

definition PAGE_SIZE :: u64 where "PAGE_SIZE = 4096"
definition PAGING_FLAG_PRESENT :: u64 where "PAGING_FLAG_PRESENT = 0x01"
definition PAGING_FLAG_WRITABLE :: u64 where "PAGING_FLAG_WRITABLE = 0x02"
definition PAGING_FLAG_USER :: u64 where "PAGING_FLAG_USER = 0x04"
definition PAGING_FLAG_HUGE_PAGE :: u64 where "PAGING_FLAG_HUGE_PAGE = 0x80"

definition ADDR_MASK :: u64 where "ADDR_MASK = 0xFFFFFFFFFF000"

definition PML4_INDEX :: "u64 \<Rightarrow> u64" where "PML4_INDEX addr = drop_bit 39 addr AND 0x1FF"
definition PDPT_INDEX :: "u64 \<Rightarrow> u64" where "PDPT_INDEX addr = drop_bit 30 addr AND 0x1FF"
definition PD_INDEX :: "u64 \<Rightarrow> u64" where "PD_INDEX addr = drop_bit 21 addr AND 0x1FF"
definition PT_INDEX :: "u64 \<Rightarrow> u64" where "PT_INDEX addr = drop_bit 12 addr AND 0x1FF"

section \<open>The operations of vmm.c\<close>

definition get_entry :: "u64 \<Rightarrow> u64 \<Rightarrow> 'a machine_scheme \<Rightarrow> u64" where
  "get_entry table idx s = read64 (mem s) (table + 8 * idx)"

definition set_entry :: "u64 \<Rightarrow> u64 \<Rightarrow> u64 \<Rightarrow> 'a machine_scheme \<Rightarrow> 'a machine_scheme" where
  "set_entry table idx v s = poke64 (table + 8 * idx) v s"

definition load_cr3 :: "u64 \<Rightarrow> 'a vmm_scheme \<Rightarrow> 'a vmm_scheme" where
  "load_cr3 v s = s\<lparr>cr3 := v, tlb := Map.empty\<rparr>"

definition invlpg :: "u64 \<Rightarrow> 'a vmm_scheme \<Rightarrow> 'a vmm_scheme" where
  "invlpg vaddr s = s\<lparr>tlb := (tlb s)(drop_bit 12 vaddr := None)\<rparr>"

definition vmm_flush_tlb :: "'a vmm_scheme \<Rightarrow> 'a vmm_scheme" where
  "vmm_flush_tlb s = load_cr3 (cr3 s) s"

definition vmm_switch_pml4 :: "u64 \<Rightarrow> 'a vmm_scheme \<Rightarrow> 'a vmm_scheme" where
  "vmm_switch_pml4 pml4 s = load_cr3 pml4 (s\<lparr>current_pml4 := pml4\<rparr>)"

text \<open>
  One level of \<^verbatim>\<open>vmm_map_page\<close>: the table that an entry points to, allocated and cleared when the
  entry is not present. \<open>None\<close> is the early return when no frame is left.
\<close>

definition next_table :: "u64 \<Rightarrow> u64 \<Rightarrow> 'a vmm_scheme \<Rightarrow> u64 option \<times> 'a vmm_scheme" where
  "next_table table idx s =
     (if get_entry table idx s AND PAGING_FLAG_PRESENT = 0 then
        let (p, s) = pmm_alloc_block s
        in if p = 0 then (None, s)
           else
             let s = memset p 0 PAGE_SIZE s;
                 s = set_entry table idx
                       (p OR PAGING_FLAG_PRESENT OR PAGING_FLAG_WRITABLE OR PAGING_FLAG_USER) s
             in (Some (get_entry table idx s AND ADDR_MASK), s)
      else (Some (get_entry table idx s AND ADDR_MASK), s))"

definition vmm_map_page :: "u64 \<Rightarrow> u64 \<Rightarrow> u64 \<Rightarrow> u64 \<Rightarrow> 'a vmm_scheme \<Rightarrow> 'a vmm_scheme" where
  "vmm_map_page pml4 vaddr paddr flags s =
     (case next_table pml4 (PML4_INDEX vaddr) s of
        (None, s) \<Rightarrow> s
      | (Some pdpt, s) \<Rightarrow>
     (case next_table pdpt (PDPT_INDEX vaddr) s of
        (None, s) \<Rightarrow> s
      | (Some pd, s) \<Rightarrow>
     (case next_table pd (PD_INDEX vaddr) s of
        (None, s) \<Rightarrow> s
      | (Some pt, s) \<Rightarrow>
          (let s = set_entry pt (PT_INDEX vaddr) ((paddr AND ADDR_MASK) OR flags) s
           in invlpg vaddr s))))"

definition vmm_unmap_page :: "u64 \<Rightarrow> u64 \<Rightarrow> 'a vmm_scheme \<Rightarrow> 'a vmm_scheme" where
  "vmm_unmap_page pml4 vaddr s = s"

definition identity_map :: "nat \<Rightarrow> 'a vmm_scheme \<Rightarrow> 'a vmm_scheme" where
  "identity_map pages s =
     fold (\<lambda>k s. vmm_map_page (kernel_pml4 s) (of_nat k * PAGE_SIZE) (of_nat k * PAGE_SIZE)
         (PAGING_FLAG_PRESENT OR PAGING_FLAG_WRITABLE OR PAGING_FLAG_USER) s) [0..<pages] s"

definition vmm_init :: "'a vmm_scheme \<Rightarrow> 'a vmm_scheme" where
  "vmm_init s =
     (let (p, s) = pmm_alloc_block s;
          s = s\<lparr>kernel_pml4 := p\<rparr>;
          s = memset (kernel_pml4 s) 0 PAGE_SIZE s;
          identity_map_end = 0x20000000;
          s = identity_map (unat (identity_map_end div PAGE_SIZE)) s;
          s = vmm_switch_pml4 (kernel_pml4 s) s
      in kprint (chars ''VMM Initialized.'' @ [10]) s)"

definition vmm_create_user_pml4 :: "'a vmm_scheme \<Rightarrow> u64 \<times> 'a vmm_scheme" where
  "vmm_create_user_pml4 s =
     (let (pml4, s) = pmm_alloc_block s
      in if pml4 = 0 then (0, s)
         else
           let s = memset pml4 0 PAGE_SIZE s;
               s = set_entry pml4 0 (get_entry (kernel_pml4 s) 0 s) s
           in (pml4, s))"

section \<open>Address translation\<close>

text \<open>
  What the MMU does: \<open>vindex k v\<close> is the index at depth \<open>k\<close>, \<open>table_at\<close> the table it reaches
  there, and \<open>translate\<close> the entry of the page. The tables of vmm.c hold no huge pages.
\<close>

definition vindex :: "nat \<Rightarrow> u64 \<Rightarrow> u64" where
  "vindex k v = drop_bit (12 + 9 * (3 - k)) v AND 0x1FF"

definition present :: "u64 \<Rightarrow> bool" where
  "present e \<longleftrightarrow> e AND PAGING_FLAG_PRESENT \<noteq> 0"

fun table_at :: "u64 \<Rightarrow> u64 \<Rightarrow> nat \<Rightarrow> 'a machine_scheme \<Rightarrow> u64 option" where
  "table_at r v 0 s = Some r"
| "table_at r v (Suc k) s =
     (case table_at r v k s of
        None \<Rightarrow> None
      | Some t \<Rightarrow>
          (let e = get_entry t (vindex k v) s
           in if present e then Some (e AND ADDR_MASK) else None))"

definition translate :: "u64 \<Rightarrow> u64 \<Rightarrow> 'a machine_scheme \<Rightarrow> u64 option" where
  "translate r v s =
     (case table_at r v 3 s of
        None \<Rightarrow> None
      | Some t \<Rightarrow>
          (let e = get_entry t (vindex 3 v) s in if present e then Some e else None))"

lemma index_vindex:
  "PML4_INDEX v = vindex 0 v" "PDPT_INDEX v = vindex 1 v" "PD_INDEX v = vindex 2 v" "PT_INDEX v = vindex 3 v"
  by (simp_all add: PML4_INDEX_def PDPT_INDEX_def PD_INDEX_def PT_INDEX_def vindex_def)

lemma vindex_lt: "unat (vindex k v) < 512"
  using word_and_le1 [of "drop_bit (12 + 9 * (3 - k)) v" "0x1FF"] by (simp add: vindex_def word_le_nat_alt)

text \<open>Two addresses with the same four indices lie in the same page of the 48-bit space.\<close>

definition page_of :: "u64 \<Rightarrow> u64" where
  "page_of v = take_bit 36 (drop_bit 12 v)"

lemma vindex_bit: "bit (vindex k v) n \<longleftrightarrow> n < 9 \<and> bit v (12 + 9 * (3 - k) + n)"
proof -
  have m: "(0x1FF :: u64) = mask 9" by (simp add: mask_eq_exp_minus_1)
  show ?thesis unfolding vindex_def m by (auto simp: bit_and_iff bit_drop_bit_eq bit_mask_iff)
qed

lemma page_of_eq_iff: "page_of v = page_of w \<longleftrightarrow> (\<forall>k < 4. vindex k v = vindex k w)"
proof
  assume eq: "page_of v = page_of w"
  have "bit v (12 + n) = bit w (12 + n)" if "n < 36" for n
    using arg_cong [OF eq, of "\<lambda>x. bit x n"] that by (simp add: page_of_def bit_take_bit_iff bit_drop_bit_eq)
  then have b: "bit v m = bit w m" if "12 \<le> m" "m < 48" for m
  proof -
    from that(1) obtain n where "m = 12 + n" using le_Suc_ex by blast
    with that(2) \<open>\<And>n. n < 36 \<Longrightarrow> bit v (12 + n) = bit w (12 + n)\<close> [of n] show ?thesis by simp
  qed
  show "\<forall>k < 4. vindex k v = vindex k w"
    by (auto intro!: bit_word_eqI simp: vindex_bit b)
next
  assume eq: "\<forall>k < 4. vindex k v = vindex k w"
  show "page_of v = page_of w"
  proof (rule bit_word_eqI)
    fix n
    show "bit (page_of v) n = bit (page_of w) n"
    proof (cases "n < 36")
      case True
      define k where "k = 3 - n div 9"
      have k: "k < 4" "3 - k = n div 9" using True by (auto simp: k_def)
      have "bit (vindex k v) (n mod 9) = bit (vindex k w) (n mod 9)" using eq k by simp
      then have "bit v (12 + n) = bit w (12 + n)"
        by (simp add: vindex_bit k(2) add.assoc mult_div_mod_eq)
      then show ?thesis by (simp add: page_of_def bit_take_bit_iff bit_drop_bit_eq)
    qed (simp add: page_of_def bit_take_bit_iff)
  qed
qed

section \<open>Entries and frames\<close>

lemma frames_obtain:
  assumes "pmm_wf s" and "a \<in> frames s"
  obtains i where "8192 \<le> i" "i < max_blocks" "a = of_nat (4096 * i)" "unat a = 4096 * i"
proof -
  from assms obtain i where i: "8192 \<le> i" "i < unat (total_blocks s)" "a = of_nat i * BLOCK_SIZE"
    by (auto simp: frames_def)
  have lt: "i < max_blocks" using i(2) assms(1) by (simp add: pmm_wf_def)
  have "i < 2 ^ 52" using total_blocks_lt assms(1) i(2) by blast
  from frame_addr(1) [OF this] have "unat a = 4096 * i" using i(3) by simp
  with i lt show thesis by (intro that) (auto simp: BLOCK_SIZE_def)
qed

lemma frame_regions:
  assumes "pmm_wf s" and "a \<in> frames s"
  shows "region a 4096 \<inter> bitmap_area = {}" and "region a 4096 \<inter> video_window = {}"
    and "b \<in> frames s \<Longrightarrow> a \<noteq> b \<Longrightarrow> region a 4096 \<inter> region b 4096 = {}"
proof -
  obtain i where i: "8192 \<le> i" "i < max_blocks" "a = of_nat (4096 * i)" "unat a = 4096 * i"
    using assms by (rule frames_obtain)
  then have "4096 * i + 4096 \<le> 2 ^ 64" by (simp add: max_blocks_def)
  then show "region a 4096 \<inter> bitmap_area = {}" "region a 4096 \<inter> video_window = {}"
    using extent_not_bitmap [of "4096 * i" 4096] video_low [of "4096 * i" 4096] i(1,3) by (auto simp: Int_commute)
  assume b: "b \<in> frames s" "a \<noteq> b"
  obtain j where j: "8192 \<le> j" "j < max_blocks" "b = of_nat (4096 * j)" "unat b = 4096 * j"
    using assms(1) b(1) by (rule frames_obtain)
  have "i < j \<or> j < i" using i(3) j(3) b(2) by (cases i j rule: linorder_cases) auto
  then show "region a 4096 \<inter> region b 4096 = {}"
    using region_disjointI [of a 4096 b 4096] region_disjointI [of b 4096 a 4096] i j
    by (auto simp: max_blocks_def Int_commute)
qed

lemma entry_address: "table + 8 * idx = table + of_nat (8 * unat idx)" for idx :: u64
  by simp

lemma entry_in_table: "unat i < 512 \<Longrightarrow> region (a + 8 * i) 8 \<subseteq> region a 4096"
  unfolding entry_address by (rule region_sub) auto

lemma get_entry_cong:
  assumes "\<And>x. x \<in> region a 4096 \<Longrightarrow> mem s' x = mem s x" and "unat i < 512"
  shows "get_entry a i s' = get_entry a i s"
  unfolding get_entry_def read64_def
  by (rule load_cong_region) (use assms entry_in_table in auto)

lemma get_entry_frame:
  "touches A s s' \<Longrightarrow> A \<inter> region a 4096 = {} \<Longrightarrow> unat i < 512 \<Longrightarrow> get_entry a i s' = get_entry a i s"
  by (rule get_entry_cong) (auto dest: touches_mem)

lemma get_set_entry [simp]: "get_entry a i (set_entry a i v s) = v"
  by (simp add: get_entry_def set_entry_def poke64_def read64_def write64_def load_store_same)

lemma get_set_entry_same_table:
  assumes "i \<noteq> j" and "unat i < 512" "unat j < 512"
  shows "get_entry a j (set_entry a i v s) = get_entry a j s"
proof -
  have "unat i < unat j \<or> unat j < unat i" using assms(1) by (metis nat_neq_iff word_unat_eq_iff)
  then have "region (a + 8 * i) 8 \<inter> region (a + 8 * j) 8 = {}"
    using region_offset_disjoint [of "8 * unat i" 8 "8 * unat j" 8 a]
      region_offset_disjoint [of "8 * unat j" 8 "8 * unat i" 8 a] assms(2,3)
    unfolding entry_address by (auto simp: Int_commute)
  then show ?thesis
    by (simp add: get_entry_def set_entry_def poke64_def read64_def write64_def load_store_other)
qed

lemma touches_set_entry: "unat i < 512 \<Longrightarrow> touches (region a 4096) s (set_entry a i v s)"
  unfolding set_entry_def by (rule touches_poke64 [OF entry_in_table])

lemma get_set_entry_other:
  assumes "pmm_wf s" and "a \<in> frames s" "b \<in> frames s" and "unat i < 512" "unat j < 512" and "(a, i) \<noteq> (b, j)"
  shows "get_entry b j (set_entry a i v s) = get_entry b j s"
proof (cases "a = b")
  case True
  then show ?thesis using get_set_entry_same_table assms by auto
next
  case False
  then show ?thesis
    using get_entry_frame [OF touches_set_entry [OF assms(4)] _ assms(5)] frame_regions(3) [OF assms(1,2,3)] by simp
qed

lemma get_entry_cleared:
  "unat i < 512 \<Longrightarrow> get_entry a i (memset a 0 PAGE_SIZE s) = 0"
proof -
  assume i: "unat i < 512"
  have "mem (memset a 0 PAGE_SIZE s) x = 0" if "x \<in> region a 4096" for x
    using that by (simp add: memset_def memset_loop_apply PAGE_SIZE_def)
  then have z: "mem (memset a 0 PAGE_SIZE s) x = 0" if "x \<in> region (a + 8 * i) 8" for x
    using entry_in_table [OF i] that by blast
  have "get_entry a i (memset a 0 PAGE_SIZE s) = load (\<lambda>_. 0) (a + 8 * i) 8"
    unfolding get_entry_def read64_def by (rule load_cong_region) (use z in auto)
  also have "\<dots> = 0" by (rule bit_word_eqI) (simp add: bit_load)
  finally show "get_entry a i (memset a 0 PAGE_SIZE s) = 0" .
qed

text \<open>The entry that points to a table.\<close>

abbreviation table_entry :: "u64 \<Rightarrow> u64" where
  "table_entry p \<equiv> p OR PAGING_FLAG_PRESENT OR PAGING_FLAG_WRITABLE OR PAGING_FLAG_USER"

lemma bit_frame:
  assumes "m < 2 ^ 40"
  shows "bit (of_nat (4096 * m) :: u64) n \<longleftrightarrow> 12 \<le> n \<and> n < 52 \<and> bit m (n - 12)"
proof -
  have "(of_nat (4096 * m) :: u64) = push_bit 12 (of_nat m)" by (simp add: push_bit_eq_mult)
  moreover have "\<not> bit m (n - 12)" if "52 \<le> n"
  proof -
    have "m < 2 ^ (n - 12)" using assms that by (intro less_le_trans [OF assms] power_increasing) auto
    then show ?thesis by (simp add: bit_iff_odd)
  qed
  ultimately show ?thesis
    by (cases "n < 52") (auto simp: bit_push_bit_iff bit_of_nat_iff not_less)
qed

lemma ADDR_MASK_eq: "ADDR_MASK = push_bit 12 (mask 40)"
  by (simp add: ADDR_MASK_def mask_eq_exp_minus_1 push_bit_eq_mult)

lemma bit_kernel_flags:
  "bit (PAGING_FLAG_PRESENT OR PAGING_FLAG_WRITABLE OR PAGING_FLAG_USER) n \<longleftrightarrow> n < 3"
proof -
  have f: "PAGING_FLAG_PRESENT = push_bit 0 1" "PAGING_FLAG_WRITABLE = push_bit 1 1" "PAGING_FLAG_USER = push_bit 2 1"
    by (simp_all add: PAGING_FLAG_PRESENT_def PAGING_FLAG_WRITABLE_def PAGING_FLAG_USER_def push_bit_eq_mult)
  show ?thesis
    unfolding f bit_or_iff bit_push_bit_iff bit_1_iff by (auto simp: less_Suc_eq numeral_eq_Suc)
qed

lemma bit_table_entry: "bit (table_entry p) n \<longleftrightarrow> bit p n \<or> n < 3"
  by (simp only: bit_or_iff [of p] bit_kernel_flags)

lemma table_entry_fields:
  assumes "pmm_wf s" and "p \<in> frames s"
  shows "table_entry p AND ADDR_MASK = p" and "present (table_entry p)"
    and "table_entry p AND PAGING_FLAG_HUGE_PAGE = 0"
proof -
  obtain m where m: "m < max_blocks" "p = of_nat (4096 * m)" using assms by (rule frames_obtain)
  then have m40: "m < 2 ^ 40" by (simp add: max_blocks_def)
  have b: "bit p n \<longleftrightarrow> 12 \<le> n \<and> n < 52 \<and> bit m (n - 12)" for n
    unfolding m(2) by (rule bit_frame [OF m40])
  note e = bit_table_entry [of p]
  have f: "PAGING_FLAG_HUGE_PAGE = push_bit 7 1" by (simp add: PAGING_FLAG_HUGE_PAGE_def push_bit_eq_mult)
  show "table_entry p AND ADDR_MASK = p"
    by (rule bit_word_eqI) (auto simp: bit_and_iff e b ADDR_MASK_eq bit_push_bit_iff bit_mask_iff)
  show "table_entry p AND PAGING_FLAG_HUGE_PAGE = 0"
    by (rule bit_word_eqI) (unfold bit_and_iff e b f bit_push_bit_iff bit_1_iff, auto)
  have "bit (table_entry p AND PAGING_FLAG_PRESENT) 0"
    unfolding bit_and_iff e by (simp add: PAGING_FLAG_PRESENT_def)
  then show "present (table_entry p)" unfolding present_def by (metis bit_0_eq bot_apply bot_bool_def)
qed

section \<open>Well-formed page tables\<close>

text \<open>
  \<open>T\<close> tells the depth of every table: 0 for a PML4, 3 for the tables that hold the pages. Tables are
  frames in use; a present entry above depth 3 points to a table one level below, and only
  PML4 tables share the tables below them, and only in the same slot.
\<close>

definition pt_wf :: "'a vmm_scheme \<Rightarrow> (u64 \<rightharpoonup> nat) \<Rightarrow> bool" where
  "pt_wf s T \<longleftrightarrow> pmm_wf s \<and>
     (\<forall>a d. T a = Some d \<longrightarrow> d \<le> 3 \<and> a \<in> frames s - free_frames s) \<and>
     (\<forall>a d i. T a = Some d \<longrightarrow> d < 3 \<longrightarrow> unat i < 512 \<longrightarrow> present (get_entry a i s) \<longrightarrow>
        T (get_entry a i s AND ADDR_MASK) = Some (Suc d) \<and> get_entry a i s AND PAGING_FLAG_HUGE_PAGE = 0) \<and>
     (\<forall>a b d i j. T a = Some d \<longrightarrow> T b = Some d \<longrightarrow> d < 3 \<longrightarrow> unat i < 512 \<longrightarrow> unat j < 512 \<longrightarrow>
        present (get_entry a i s) \<longrightarrow> present (get_entry b j s) \<longrightarrow>
        get_entry a i s AND ADDR_MASK = get_entry b j s AND ADDR_MASK \<longrightarrow> i = j \<and> (a = b \<or> d = 0))"

lemma pt_wf_pmm: "pt_wf s T \<Longrightarrow> pmm_wf s"
  by (simp add: pt_wf_def)

lemma pt_wf_frame: "pt_wf s T \<Longrightarrow> T a = Some d \<Longrightarrow> d \<le> 3 \<and> a \<in> frames s \<and> a \<notin> free_frames s"
  by (auto simp: pt_wf_def)

lemma pt_wf_child:
  "pt_wf s T \<Longrightarrow> T a = Some d \<Longrightarrow> d < 3 \<Longrightarrow> unat i < 512 \<Longrightarrow> present (get_entry a i s) \<Longrightarrow>
   T (get_entry a i s AND ADDR_MASK) = Some (Suc d) \<and> get_entry a i s AND PAGING_FLAG_HUGE_PAGE = 0"
  unfolding pt_wf_def by meson

lemma pt_wf_inj:
  "pt_wf s T \<Longrightarrow> T a = Some d \<Longrightarrow> T b = Some d \<Longrightarrow> d < 3 \<Longrightarrow> unat i < 512 \<Longrightarrow> unat j < 512 \<Longrightarrow>
   present (get_entry a i s) \<Longrightarrow> present (get_entry b j s) \<Longrightarrow>
   get_entry a i s AND ADDR_MASK = get_entry b j s AND ADDR_MASK \<Longrightarrow> i = j \<and> (a = b \<or> d = 0)"
  unfolding pt_wf_def by meson

lemma table_at_depth:
  "pt_wf s T \<Longrightarrow> T r = Some 0 \<Longrightarrow> k \<le> 3 \<Longrightarrow> table_at r v k s = Some t \<Longrightarrow> T t = Some k"
proof (induction k arbitrary: t)
  case (Suc k)
  then show ?case
    by (auto simp: Let_def vindex_lt pt_wf_child split: option.splits if_splits)
qed simp

lemma touches_frames: "touches A s s' \<Longrightarrow> frames s' = frames s"
  using touches_pmm_vars [of A s s'] by (simp add: frames_def)

lemma pt_frame:
  assumes wf: "pt_wf s T" and t: "touches A s s'" and A: "A \<inter> bitmap_area = {}"
    and tab: "\<And>a. a \<in> dom T \<Longrightarrow> A \<inter> region a 4096 = {}"
  shows "pt_wf s' T" and "\<And>a i. a \<in> dom T \<Longrightarrow> unat i < 512 \<Longrightarrow> get_entry a i s' = get_entry a i s"
proof -
  show e: "get_entry a i s' = get_entry a i s" if "a \<in> dom T" "unat i < 512" for a i
    by (rule get_entry_frame [OF t tab [OF that(1)] that(2)])
  note pmm = pmm_frame [OF pt_wf_pmm [OF wf] t A]
  have fr: "frames s' = frames s" "free_frames s' = free_frames s"
    using touches_frames [OF t] pmm(2) by (simp_all add: free_frames_def)
  have e': "get_entry a i s' = get_entry a i s" if "T a = Some d" "unat i < 512" for a i d
    using e that by blast
  show "pt_wf s' T" using wf pmm(1) unfolding pt_wf_def fr by (auto simp: e')
qed

lemma translate_cong:
  assumes wf: "pt_wf s T" and r: "T r = Some 0"
    and e: "\<And>a i. a \<in> dom T \<Longrightarrow> unat i < 512 \<Longrightarrow> get_entry a i s' = get_entry a i s"
  shows "k \<le> 3 \<Longrightarrow> table_at r v k s' = table_at r v k s" and "translate r v s' = translate r v s"
proof -
  have e': "get_entry t (vindex k v) s' = get_entry t (vindex k v) s" if "k \<le> 3" "table_at r v k s = Some t" for k t
    using e [of t] table_at_depth [OF wf r that] vindex_lt by blast
  show t: "table_at r v k s' = table_at r v k s" if "k \<le> 3" for k
    using that
  proof (induction k)
    case (Suc k)
    then show ?case using e' [of k] by (auto split: option.splits)
  qed simp
  show "translate r v s' = translate r v s"
    using t [of 3] e' [of 3] by (auto simp: translate_def split: option.splits)
qed

section \<open>One level of a mapping\<close>

lemma alloc_frame:
  assumes wf: "pmm_wf s" and ne: "free_frames s \<noteq> {}"
  obtains p s' where "pmm_alloc_block s = (p, s')" "p \<noteq> 0" "p \<in> free_frames s" "p \<in> frames s"
    "pmm_wf s'" "frames s' = frames s" "free_frames s' = free_frames s - {p}" "touches bitmap_area s s'"
proof -
  obtain p s' where s': "pmm_alloc_block s = (p, s')" by force
  have ne': "free_blocks s \<noteq> {}" using ne by (auto simp: free_frames_def)
  have p: "p \<in> free_frames s" "free_frames s' = free_frames s - {p}" "pmm_wf s'"
    using page_frames.alloc_some [OF wf ne] page_frames.alloc_inv [OF wf] s' by auto
  note f = free_blocks_bounds(2) [OF wf first_free_mem [OF ne']]
  have t: "touches bitmap_area s s'"
    using pmm_alloc_Some(1,4) [OF wf ne'] s' block_byte_in_area [OF f] by (auto intro: touches_mono)
  have "p \<in> frames s" using p(1) page_frames.avail_frames [OF wf] by blast
  moreover from this have "p \<noteq> 0" by (rule page_frames.frame_nonnull [OF wf])
  ultimately show thesis using that s' p t touches_frames [OF t] by blast
qed

lemma next_table_present:
  "present (get_entry t i s) \<Longrightarrow> next_table t i s = (Some (get_entry t i s AND ADDR_MASK), s)"
  by (simp add: next_table_def present_def)

lemma next_table_exhausted:
  assumes "pmm_wf s" and "\<not> present (get_entry t i s)" and "free_frames s = {}"
  shows "\<exists>s'. next_table t i s = (None, s') \<and> touches video_window s s'"
proof -
  have "free_blocks s = {}" using assms(3) by (simp add: free_frames_def)
  from pmm_alloc_None [OF assms(1) this] show ?thesis
    using assms(2) by (auto simp: next_table_def present_def)
qed

text \<open>\<open>links s T t i p s'\<close>: a fresh empty table \<open>p\<close> has been linked to entry \<open>i\<close> of \<open>t\<close>.\<close>

definition links ::
  "'a vmm_scheme \<Rightarrow> (u64 \<rightharpoonup> nat) \<Rightarrow> u64 \<Rightarrow> u64 \<Rightarrow> u64 \<Rightarrow> 'a vmm_scheme \<Rightarrow> bool" where
  "links s T t i p s' \<longleftrightarrow> p \<in> free_frames s \<and> T p = None \<and> pmm_wf s' \<and> frames s' = frames s \<and>
     free_frames s' = free_frames s - {p} \<and> get_entry t i s' = table_entry p \<and>
     (\<forall>j. unat j < 512 \<longrightarrow> get_entry p j s' = 0) \<and>
     (\<forall>a j. a \<in> dom T \<longrightarrow> unat j < 512 \<longrightarrow> (a, j) \<noteq> (t, i) \<longrightarrow> get_entry a j s' = get_entry a j s) \<and>
     touches (bitmap_area \<union> region p 4096 \<union> region t 4096) s s'"

lemma next_table_new:
  assumes wf: "pt_wf s T" and t: "T t = Some d" "d < 3" and i: "unat i < 512"
    and abs: "\<not> present (get_entry t i s)" and ne: "free_frames s \<noteq> {}"
  obtains p s' where "next_table t i s = (Some p, s')" "links s T t i p s'"
proof -
  have pmm: "pmm_wf s" by (rule pt_wf_pmm [OF wf])
  from pmm ne obtain p s1 where p: "pmm_alloc_block s = (p, s1)" "p \<noteq> 0" "p \<in> free_frames s" "p \<in> frames s"
    "pmm_wf s1" "frames s1 = frames s" "free_frames s1 = free_frames s - {p}" "touches bitmap_area s s1"
    by (rule alloc_frame)
  define s2 where "s2 = memset p 0 PAGE_SIZE s1"
  define s' where "s' = set_entry t i (table_entry p) s2"
  have tf: "t \<in> frames s" using pt_wf_frame [OF wf t(1)] by simp
  have new: "T p = None" using pt_wf_frame [OF wf, of p] p(3) by (cases "T p") auto
  then have pt: "p \<noteq> t" using t by auto
  note fp = frame_regions [OF p(5), of p, unfolded p(6), OF p(4)]
  have t2: "touches (region p 4096) s1 s2"
    unfolding s2_def by (rule touches_memset) (simp add: PAGE_SIZE_def)
  have t3: "touches (region t 4096) s2 s'" unfolding s'_def by (rule touches_set_entry [OF i])
  note pmm2 = pmm_frame [OF p(5) t2 fp(1)]
  note ft = frame_regions [OF pmm tf]
  note pmm3 = pmm_frame [OF pmm2(1) t3 ft(1)]
  have fr: "frames s2 = frames s" "frames s' = frames s" using touches_frames t2 t3 p(6) by metis+
  have "next_table t i s = (Some (get_entry t i s' AND ADDR_MASK), s')"
    using abs p(1,2) by (simp add: next_table_def present_def s'_def s2_def Let_def)
  then have nt: "next_table t i s = (Some p, s')"
    using table_entry_fields(1) [OF pmm p(4)] by (simp add: s'_def)
  have zero: "get_entry p j s' = 0" if "unat j < 512" for j
    using get_entry_frame [OF t3 _ that] ft(3) [OF p(4)] pt get_entry_cleared [OF that, of p s1] by (simp add: s2_def)
  have same: "get_entry a j s' = get_entry a j s" if "a \<in> dom T" "unat j < 512" "(a, j) \<noteq> (t, i)" for a j
  proof -
    from that(1) have a: "a \<in> frames s" "a \<noteq> p" using pt_wf_frame [OF wf] new by auto
    have "get_entry a j s' = get_entry a j s2" unfolding s'_def
      by (rule get_set_entry_other) (use that a tf i fr pmm2(1) in auto)
    also have "\<dots> = get_entry a j s1" by (rule get_entry_frame [OF t2 _ that(2)]) (use fp(3) a in auto)
    also have "\<dots> = get_entry a j s"
      using get_entry_frame [OF p(8) _ that(2)] frame_regions(1) [OF pmm a(1)] by (simp add: Int_commute)
    finally show ?thesis .
  qed
  have "touches (bitmap_area \<union> region p 4096 \<union> region t 4096) s s'"
    by (rule touches_trans_Un [OF touches_trans_Un [OF p(8) t2] t3])
  then show thesis
    using that nt p(3) new pmm3 fr zero same p(7) pmm2 by (simp add: links_def s'_def free_frames_def)
qed

lemma absent_zero [simp]: "\<not> present 0"
  by (simp add: present_def)

lemma links_wf:
  assumes wf: "pt_wf s T" and t: "T t = Some d" "d < 3" and i: "unat i < 512"
    and abs: "\<not> present (get_entry t i s)" and l: "links s T t i p s'"
  shows "pt_wf s' (T(p \<mapsto> Suc d))"
proof -
  let ?T = "T(p \<mapsto> Suc d)"
  from l have p: "p \<in> free_frames s" "T p = None" "pmm_wf s'" "frames s' = frames s"
    "free_frames s' = free_frames s - {p}" "get_entry t i s' = table_entry p"
    and zero: "\<And>j. unat j < 512 \<Longrightarrow> get_entry p j s' = 0"
    and same: "\<And>a j. a \<in> dom T \<Longrightarrow> unat j < 512 \<Longrightarrow> (a, j) \<noteq> (t, i) \<Longrightarrow> get_entry a j s' = get_entry a j s"
    by (auto simp: links_def)
  have pf: "p \<in> frames s" using p(1) page_frames.avail_frames [OF pt_wf_pmm [OF wf]] by blast
  note fields = table_entry_fields [OF pt_wf_pmm [OF wf] pf]
  text \<open>A present entry of the new tables is the new link or an old entry.\<close>
  have old: "(a, j) = (t, i) \<or> a \<noteq> p \<and> T a = Some k \<and> get_entry a j s' = get_entry a j s \<and> present (get_entry a j s)"
    if "?T a = Some k" "unat j < 512" "present (get_entry a j s')" for a j k
    using that zero same [OF domI, of a k j] by (cases "(a, j) = (t, i)"; cases "a = p") auto
  have child: "get_entry a j s AND ADDR_MASK \<noteq> p" if "T a = Some k" "k < 3" "unat j < 512" "present (get_entry a j s)" for a j k
    using pt_wf_child [OF wf that] p(2) by auto
  show ?thesis unfolding pt_wf_def
  proof (intro conjI allI impI)
    show "pmm_wf s'" by (rule p(3))
    fix a k assume "?T a = Some k"
    then show "k \<le> 3" "a \<in> frames s' - free_frames s'"
      using pt_wf_frame [OF wf, of a k] t pf p(4,5) by (auto split: if_splits)
  next
    fix a k j assume a: "?T a = Some k" "k < 3" "unat j < 512" "present (get_entry a j s')"
    from old [OF a(1,3,4)] show "?T (get_entry a j s' AND ADDR_MASK) = Some (Suc k)"
      "get_entry a j s' AND PAGING_FLAG_HUGE_PAGE = 0"
      using a t p(2,6) fields child pt_wf_child [OF wf, of a k j] by (auto split: if_splits)
  next
    fix a b k j j' assume a: "?T a = Some k" "?T b = Some k" "k < 3" "unat j < 512" "unat j' < 512"
      "present (get_entry a j s')" "present (get_entry b j' s')"
      "get_entry a j s' AND ADDR_MASK = get_entry b j' s' AND ADDR_MASK"
    from old [OF a(1,4,6)] old [OF a(2,5,7)] have "j = j' \<and> (a = b \<or> k = 0)"
    proof (elim disjE)
      assume "a \<noteq> p \<and> T a = Some k \<and> get_entry a j s' = get_entry a j s \<and> present (get_entry a j s)"
        "b \<noteq> p \<and> T b = Some k \<and> get_entry b j' s' = get_entry b j' s \<and> present (get_entry b j' s)"
      then show ?thesis using pt_wf_inj [OF wf, of a k b j j'] a by auto
    qed (use a p(6) fields(1) child in auto)
    then show "j = j'" "a = b \<or> k = 0" by auto
  qed
qed

text \<open>The new table is empty, so every address translates as before.\<close>

lemma links_translate:
  assumes wf: "pt_wf s T" and t: "T t = Some d" "d < 3" and i: "unat i < 512"
    and abs: "\<not> present (get_entry t i s)" and l: "links s T t i p s'" and r: "T r = Some 0"
  shows "translate r v s' = translate r v s"
    and "k \<le> 3 \<Longrightarrow> table_at r v k s = Some u \<Longrightarrow> table_at r v k s' = Some u"
proof -
  from l have p: "T p = None" "get_entry t i s' = table_entry p"
    and zero: "\<And>j. unat j < 512 \<Longrightarrow> get_entry p j s' = 0"
    and same: "\<And>a j. a \<in> dom T \<Longrightarrow> unat j < 512 \<Longrightarrow> (a, j) \<noteq> (t, i) \<Longrightarrow> get_entry a j s' = get_entry a j s"
    by (auto simp: links_def)
  have "p \<in> frames s" using l page_frames.avail_frames [OF pt_wf_pmm [OF wf]] by (auto simp: links_def)
  note fields = table_entry_fields [OF pt_wf_pmm [OF wf] this]
  have *: "table_at r v k s' = table_at r v k s \<or> table_at r v k s' = Some p \<and> table_at r v k s = None"
    if "k \<le> 3" for k using that
  proof (induction k)
    case (Suc k)
    show ?case
    proof (cases "table_at r v k s")
      case None
      then show ?thesis using Suc zero [OF vindex_lt] by (auto simp: Let_def)
    next
      case (Some u)
      then have "u \<in> dom T" using table_at_depth [OF wf r _ Some] Suc.prems by auto
      then show ?thesis using Suc Some same [of u "vindex k v"] vindex_lt [of k v] abs p(2) fields
        by (cases "(u, vindex k v) = (t, i)") (auto simp: Let_def)
    qed
  qed simp
  show "k \<le> 3 \<Longrightarrow> table_at r v k s = Some u \<Longrightarrow> table_at r v k s' = Some u" using * [of k] by auto
  have "u \<noteq> t \<and> u \<in> dom T" if "table_at r v 3 s = Some u" for u
    using table_at_depth [OF wf r _ that] t by auto
  then show "translate r v s' = translate r v s"
    using * [of 3] zero [OF vindex_lt] same [OF _ vindex_lt]
    by (cases "table_at r v 3 s"; cases "table_at r v 3 s'") (auto simp: translate_def Let_def)
qed

section \<open>Mapping a page\<close>

text \<open>What \<open>next_table\<close> does on the way to a page, in the three cases together.\<close>

lemma next_table_step:
  assumes wf: "pt_wf s T" and r: "T r = Some 0" and k: "k < 3" and at: "table_at r v k s = Some t"
    and call: "next_table t (vindex k v) s = (res, s')"
  obtains T' where "pt_wf s' T'" "T \<subseteq>\<^sub>m T'" "free_frames s' \<subseteq> free_frames s"
    "dom T' \<subseteq> dom T \<union> free_frames s"
    "\<And>r' v'. T r' = Some 0 \<Longrightarrow> translate r' v' s' = translate r' v' s"
    "\<And>r' v' j u. T r' = Some 0 \<Longrightarrow> j \<le> 3 \<Longrightarrow> table_at r' v' j s = Some u \<Longrightarrow> table_at r' v' j s' = Some u"
    "touches (bitmap_area \<union> video_window \<union> (\<Union>a \<in> dom T'. region a 4096)) s s'"
    "case res of None \<Rightarrow> free_frames s = {} \<and> \<not> present (get_entry t (vindex k v) s)
     | Some u \<Rightarrow> table_at r v (Suc k) s' = Some u \<and>
         card (free_frames s) \<le> card (free_frames s') + (if present (get_entry t (vindex k v) s) then 0 else 1)"
proof -
  have pmm: "pmm_wf s" by (rule pt_wf_pmm [OF wf])
  have t: "T t = Some k" using table_at_depth [OF wf r _ at] k by simp
  consider "present (get_entry t (vindex k v) s)"
    | "\<not> present (get_entry t (vindex k v) s)" "free_frames s = {}"
    | "\<not> present (get_entry t (vindex k v) s)" "free_frames s \<noteq> {}" by blast
  then show thesis
  proof cases
    case 1
    then show thesis using that [of T] wf at call next_table_present [OF 1] by auto
  next
    case 2
    from next_table_exhausted [OF pmm 2] call have res: "res = None" and tv: "touches video_window s s'" by auto
    have "video_window \<inter> region a 4096 = {}" if "a \<in> dom T" for a
      using frame_regions(2) [OF pmm] pt_wf_frame [OF wf] that by (auto simp: Int_commute)
    note fr = pt_frame [OF wf tv video_not_bitmap this]
    have "translate r' v' s' = translate r' v' s" if "T r' = Some 0" for r' v'
      by (rule translate_cong(2) [OF wf that fr(2)])
    moreover have "table_at r' v' j s' = table_at r' v' j s" if "T r' = Some 0" "j \<le> 3" for r' v' j
      by (rule translate_cong(1) [OF wf that(1) fr(2) that(2)])
    moreover have "free_frames s' = free_frames s"
      using pmm_frame(2) [OF pmm tv video_not_bitmap] by (simp add: free_frames_def)
    moreover have "touches (bitmap_area \<union> video_window \<union> (\<Union>a \<in> dom T. region a 4096)) s s'"
      by (rule touches_mono [OF tv]) auto
    ultimately show thesis using that [of T] fr(1) res 2 by simp
  next
    case 3
    obtain p where p: "res = Some p" and l: "links s T t (vindex k v) p s'"
      using next_table_new [OF wf t k vindex_lt 3] call by (metis prod.inject)
    have "T \<subseteq>\<^sub>m T(p \<mapsto> Suc k)" using l by (auto simp: links_def map_le_def)
    moreover have "free_frames s' \<subseteq> free_frames s" "dom (T(p \<mapsto> Suc k)) \<subseteq> dom T \<union> free_frames s"
      "card (free_frames s) = card (free_frames s') + 1"
      using l card_Suc_Diff1 [OF page_frames.avail_finite [OF pmm], of p] by (auto simp: links_def)
    moreover have "touches (bitmap_area \<union> video_window \<union> (\<Union>a \<in> dom (T(p \<mapsto> Suc k)). region a 4096)) s s'"
      using l t by (auto simp: links_def elim!: touches_mono)
    moreover have "table_at r v (Suc k) s' = Some p"
    proof -
      have "p \<in> frames s" using l page_frames.avail_frames [OF pmm] by (auto simp: links_def)
      from table_entry_fields [OF pmm this] show ?thesis
        using links_translate(2) [OF wf t k vindex_lt 3(1) l r _ at] k l by (simp add: links_def)
    qed
    ultimately show thesis
      using that [of "T(p \<mapsto> Suc k)"] links_wf [OF wf t k vindex_lt 3(1) l]
        links_translate [OF wf t k vindex_lt 3(1) l] p 3 by simp
  qed
qed

text \<open>The first \<open>k\<close> levels of \<^verbatim>\<open>vmm_map_page\<close>, and how many tables on the way are missing.\<close>

fun reach :: "nat \<Rightarrow> u64 \<Rightarrow> u64 \<Rightarrow> 'a vmm_scheme \<Rightarrow> u64 option \<times> 'a vmm_scheme" where
  "reach 0 r v s = (Some r, s)"
| "reach (Suc k) r v s =
     (case reach k r v s of
        (None, s) \<Rightarrow> (None, s)
      | (Some t, s) \<Rightarrow> next_table t (vindex k v) s)"

fun missing :: "nat \<Rightarrow> u64 \<Rightarrow> u64 \<Rightarrow> 'a machine_scheme \<Rightarrow> nat" where
  "missing 0 r v s = 0"
| "missing (Suc k) r v s = missing k r v s + (if table_at r v (Suc k) s = None then 1 else 0)"

lemma vmm_map_page_reach:
  "vmm_map_page r v paddr flags s =
     (case reach 3 r v s of
        (None, s) \<Rightarrow> s
      | (Some t, s) \<Rightarrow> invlpg v (set_entry t (vindex 3 v) ((paddr AND ADDR_MASK) OR flags) s))"
proof -
  have idx: "PML4_INDEX v = vindex 0 v" "PDPT_INDEX v = vindex (Suc 0) v" "PD_INDEX v = vindex (Suc (Suc 0)) v"
    "PT_INDEX v = vindex (Suc (Suc (Suc 0))) v"
    by (simp_all add: PML4_INDEX_def PDPT_INDEX_def PD_INDEX_def PT_INDEX_def vindex_def)
  show ?thesis
    by (simp add: vmm_map_page_def idx numeral_3_eq_3 Let_def split: option.split prod.split)
qed

lemma reach_spec:
  assumes wf: "pt_wf s T" and r: "T r = Some 0" and "k \<le> 3" and "reach k r v s = (res, s')"
  shows "\<exists>T'. pt_wf s' T' \<and> T \<subseteq>\<^sub>m T' \<and> free_frames s' \<subseteq> free_frames s \<and> dom T' \<subseteq> dom T \<union> free_frames s \<and>
    (\<forall>r' v'. T r' = Some 0 \<longrightarrow> translate r' v' s' = translate r' v' s) \<and>
    (\<forall>r' v' j u. T r' = Some 0 \<longrightarrow> j \<le> 3 \<longrightarrow> table_at r' v' j s = Some u \<longrightarrow> table_at r' v' j s' = Some u) \<and>
    touches (bitmap_area \<union> video_window \<union> (\<Union>a \<in> dom T'. region a 4096)) s s' \<and>
    (case res of None \<Rightarrow> card (free_frames s) < missing k r v s
     | Some t \<Rightarrow> table_at r v k s' = Some t \<and> card (free_frames s) \<le> card (free_frames s') + missing k r v s)"
  using assms(3,4)
proof (induction k arbitrary: res s')
  case 0
  then show ?case using wf by auto
next
  case (Suc k)
  obtain res1 s1 where s1: "reach k r v s = (res1, s1)" by force
  from Suc.IH [OF _ this] Suc.prems obtain T1 where wf1: "pt_wf s1 T1" and sub1: "T \<subseteq>\<^sub>m T1"
    "free_frames s1 \<subseteq> free_frames s" "dom T1 \<subseteq> dom T \<union> free_frames s"
    and tr1: "\<And>r' v'. T r' = Some 0 \<Longrightarrow> translate r' v' s1 = translate r' v' s"
    and at1: "\<And>r' v' j u. T r' = Some 0 \<Longrightarrow> j \<le> 3 \<Longrightarrow> table_at r' v' j s = Some u \<Longrightarrow> table_at r' v' j s1 = Some u"
    and tc1: "touches (bitmap_area \<union> video_window \<union> (\<Union>a \<in> dom T1. region a 4096)) s s1"
    and res1: "case res1 of None \<Rightarrow> card (free_frames s) < missing k r v s
     | Some t \<Rightarrow> table_at r v k s1 = Some t \<and> card (free_frames s) \<le> card (free_frames s1) + missing k r v s"
    by auto
  show ?case
  proof (cases res1)
    case None
    then have "res = None" "s' = s1" using Suc.prems(2) s1 by auto
    then show ?thesis using wf1 sub1 tr1 at1 tc1 res1 None by (intro exI [of _ T1]) auto
  next
    case (Some t)
    have T1: "T1 r' = Some 0" if "T r' = Some 0" for r' using sub1(1) that by (metis domI map_le_def)
    have k: "k < 3" and at: "table_at r v k s1 = Some t" and call: "next_table t (vindex k v) s1 = (res, s')"
      using Suc.prems s1 Some res1 by auto
    obtain T2 where 2: "pt_wf s' T2" "T1 \<subseteq>\<^sub>m T2" "free_frames s' \<subseteq> free_frames s1"
        "dom T2 \<subseteq> dom T1 \<union> free_frames s1"
      and tr2: "\<And>r' v'. T1 r' = Some 0 \<Longrightarrow> translate r' v' s' = translate r' v' s1"
      and at2: "\<And>r' v' j u. T1 r' = Some 0 \<Longrightarrow> j \<le> 3 \<Longrightarrow> table_at r' v' j s1 = Some u \<Longrightarrow> table_at r' v' j s' = Some u"
      and tc2: "touches (bitmap_area \<union> video_window \<union> (\<Union>a \<in> dom T2. region a 4096)) s1 s'"
      and res2: "case res of None \<Rightarrow> free_frames s1 = {} \<and> \<not> present (get_entry t (vindex k v) s1)
       | Some u \<Rightarrow> table_at r v (Suc k) s' = Some u \<and>
         card (free_frames s1) \<le> card (free_frames s') + (if present (get_entry t (vindex k v) s1) then 0 else 1)"
      by (rule next_table_step [OF wf1 T1 [OF r] k at call]) (rule that; assumption)
    have pres: "present (get_entry t (vindex k v) s1)" if "table_at r v (Suc k) s \<noteq> None"
    proof -
      from that obtain u where "table_at r v (Suc k) s = Some u" by blast
      from at1 [OF r _ this] k at show ?thesis by (auto simp: Let_def split: if_splits)
    qed
    have "touches (bitmap_area \<union> video_window \<union> (\<Union>a \<in> dom T2. region a 4096)) s s1"
      by (rule touches_mono [OF tc1]) (use map_le_implies_dom_le [OF 2(2)] in auto)
    from touches_trans [OF this tc2]
    have "touches (bitmap_area \<union> video_window \<union> (\<Union>a \<in> dom T2. region a 4096)) s s'" .
    moreover have "T \<subseteq>\<^sub>m T2" using sub1(1) 2(2) by (rule map_le_trans)
    moreover have "case res of None \<Rightarrow> card (free_frames s) < missing (Suc k) r v s
     | Some u \<Rightarrow> table_at r v (Suc k) s' = Some u \<and> card (free_frames s) \<le> card (free_frames s') + missing (Suc k) r v s"
      using res1 res2 Some pres by (auto split: option.splits if_splits)
    moreover have "dom T2 \<subseteq> dom T \<union> free_frames s" using 2(4) sub1(2,3) by blast
    moreover have "free_frames s' \<subseteq> free_frames s" using 2(3) sub1(2) by blast
    moreover have "\<forall>r' v'. T r' = Some 0 \<longrightarrow> translate r' v' s' = translate r' v' s" using tr1 tr2 T1 by simp
    moreover have "\<forall>r' v' j u. T r' = Some 0 \<longrightarrow> j \<le> 3 \<longrightarrow> table_at r' v' j s = Some u \<longrightarrow> table_at r' v' j s' = Some u"
      using at1 at2 T1 by simp
    ultimately show ?thesis using 2(1) by (intro exI [of _ T2] conjI)
  qed
qed

text \<open>Within one PML4, a table is reached by one sequence of indices only.\<close>

lemma table_at_inj:
  assumes wf: "pt_wf s T" and r: "T r = Some 0"
  shows "k \<le> 3 \<Longrightarrow> table_at r v k s = Some t \<Longrightarrow> table_at r w k s = Some t \<Longrightarrow> \<forall>j < k. vindex j v = vindex j w"
proof (induction k arbitrary: t)
  case (Suc k)
  from Suc.prems obtain u u' where u: "table_at r v k s = Some u" "table_at r w k s = Some u'"
    "present (get_entry u (vindex k v) s)" "present (get_entry u' (vindex k w) s)"
    "get_entry u (vindex k v) s AND ADDR_MASK = get_entry u' (vindex k w) s AND ADDR_MASK"
    by (auto simp: Let_def split: option.splits if_splits)
  have d: "T u = Some k" "T u' = Some k" using table_at_depth [OF wf r] u(1,2) Suc.prems(1) by auto
  have "vindex k v = vindex k w \<and> (u = u' \<or> k = 0)"
    by (rule pt_wf_inj [OF wf d]) (use Suc.prems(1) u vindex_lt in auto)
  moreover have "k = 0 \<Longrightarrow> u = u'" using u by simp
  ultimately show ?case using Suc.IH [of u] u(1,2) Suc.prems(1) by (auto simp: less_Suc_eq)
qed simp

lemma set_page_entry:
  assumes wf: "pt_wf s T" and r: "T r = Some 0" and at: "table_at r v 3 s = Some t"
    and s': "s' = set_entry t (vindex 3 v) e s"
  shows "pt_wf s' T" and "free_frames s' = free_frames s"
    and "T r' = Some 0 \<Longrightarrow> k \<le> 3 \<Longrightarrow> table_at r' w k s' = table_at r' w k s"
    and "T r' = Some 0 \<Longrightarrow> translate r' w s' =
      (if table_at r' w 3 s = Some t \<and> vindex 3 w = vindex 3 v then (if present e then Some e else None)
       else translate r' w s)"
proof -
  have t: "T t = Some 3" using table_at_depth [OF wf r _ at] by simp
  have pmm: "pmm_wf s" by (rule pt_wf_pmm [OF wf])
  have tf: "t \<in> frames s" using pt_wf_frame [OF wf t] by simp
  have tc: "touches (region t 4096) s s'" unfolding s' by (rule touches_set_entry [OF vindex_lt])
  note pmm' = pmm_frame [OF pmm tc frame_regions(1) [OF pmm tf]]
  have fr: "frames s' = frames s" "free_frames s' = free_frames s"
    using touches_frames [OF tc] pmm'(2) by (simp_all add: free_frames_def)
  show "free_frames s' = free_frames s" by (rule fr)
  have same: "get_entry a i s' = get_entry a i s" if "T a = Some d" "unat i < 512" "(a, i) \<noteq> (t, vindex 3 v)" for a d i
    unfolding s' by (rule get_set_entry_other) (use that pmm tf vindex_lt pt_wf_frame [OF wf that(1)] in auto)
  have upper: "get_entry a i s' = get_entry a i s" if "T a = Some d" "d < 3" "unat i < 512" for a d i
    using same [OF that(1,3)] that(1,2) t by (cases "a = t") auto
  show "pt_wf s' T" using wf pmm'(1) unfolding pt_wf_def fr by (auto simp: upper)
  show tab: "table_at r' w k s' = table_at r' w k s" if "T r' = Some 0" "k \<le> 3" for r' w k
    using that(2)
  proof (induction k)
    case (Suc k)
    have "get_entry u (vindex k w) s' = get_entry u (vindex k w) s" if "table_at r' w k s = Some u" for u
      using upper [OF table_at_depth [OF wf \<open>T r' = Some 0\<close> _ that] _ vindex_lt] Suc.prems by simp
    then show ?case using Suc by (auto split: option.splits)
  qed simp
  show "translate r' w s' =
      (if table_at r' w 3 s = Some t \<and> vindex 3 w = vindex 3 v then (if present e then Some e else None)
       else translate r' w s)" if "T r' = Some 0"
  proof (cases "table_at r' w 3 s")
    case None
    then show ?thesis using tab [OF that, of 3] by (simp add: translate_def)
  next
    case (Some u)
    have "T u = Some 3" using table_at_depth [OF wf that _ Some] by simp
    from same [OF this vindex_lt, of 3 w] show ?thesis using tab [OF that, of 3] Some
      by (auto simp: translate_def s')
  qed
qed

lemma tlb_update [simp]:
  "get_entry a i (s\<lparr>tlb := x\<rparr>) = get_entry a i s" "pmm_wf (s\<lparr>tlb := x\<rparr>) = pmm_wf s"
  "frames (s\<lparr>tlb := x\<rparr>) = frames s" "free_frames (s\<lparr>tlb := x\<rparr>) = free_frames s"
  by (simp_all add: get_entry_def pmm_wf_def frames_def free_frames_def free_blocks_def block_used_def)

lemma tlb_update_tables [simp]:
  "pt_wf (s\<lparr>tlb := x\<rparr>) T = pt_wf s T" "table_at r v k (s\<lparr>tlb := x\<rparr>) = table_at r v k s"
  "translate r v (s\<lparr>tlb := x\<rparr>) = translate r v s"
proof -
  show tab: "table_at r v k (s\<lparr>tlb := x\<rparr>) = table_at r v k s" for k by (induction k) (auto split: option.splits)
  show "pt_wf (s\<lparr>tlb := x\<rparr>) T = pt_wf s T" by (simp add: pt_wf_def)
  show "translate r v (s\<lparr>tlb := x\<rparr>) = translate r v s" by (auto simp: translate_def tab split: option.splits)
qed

lemma touches_vmm:
  assumes "touches A s s'"
  shows "tlb s' = tlb s" "kernel_pml4 s' = kernel_pml4 s" "current_pml4 s' = current_pml4 s" "cr3 s' = cr3 s"
  using arg_cong [OF touches_eq [OF assms], of tlb] arg_cong [OF touches_eq [OF assms], of kernel_pml4]
    arg_cong [OF touches_eq [OF assms], of current_pml4] arg_cong [OF touches_eq [OF assms], of cr3]
  by simp_all

lemmas touches_tlb = touches_vmm(1)

text \<open>What a call of \<^verbatim>\<open>vmm_map_page\<close> does, with enough frames for the missing tables and without.\<close>

lemma map_page_spec:
  assumes wf: "pt_wf s T" and r: "T r = Some 0"
    and s': "s' = vmm_map_page r v paddr flags s" and e: "e = (paddr AND ADDR_MASK) OR flags"
  shows "\<exists>T'. pt_wf s' T' \<and> T \<subseteq>\<^sub>m T' \<and> free_frames s' \<subseteq> free_frames s \<and> dom T' \<subseteq> dom T \<union> free_frames s \<and>
    touches (bitmap_area \<union> video_window \<union> (\<Union>a \<in> dom T'. region a 4096)) s (s'\<lparr>tlb := tlb s\<rparr>) \<and>
    (card (free_frames s) \<le> card (free_frames s') + missing 3 r v s \<and>
       tlb s' = (tlb s)(drop_bit 12 v := None) \<and> table_at r v 3 s' \<noteq> None \<and>
       (\<forall>r' w. T r' = Some 0 \<longrightarrow> translate r' w s' =
          (if table_at r' w 3 s' = table_at r v 3 s' \<and> vindex 3 w = vindex 3 v
           then (if present e then Some e else None) else translate r' w s))
     \<or> card (free_frames s) < missing 3 r v s \<and> tlb s' = tlb s \<and>
       (\<forall>r' w. T r' = Some 0 \<longrightarrow> translate r' w s' = translate r' w s)) \<and>
    (\<forall>r' w j u. T r' = Some 0 \<longrightarrow> j \<le> 3 \<longrightarrow> table_at r' w j s = Some u \<longrightarrow> table_at r' w j s' = Some u)"
proof -
  obtain res s1 where s1: "reach 3 r v s = (res, s1)" by force
  from reach_spec [OF wf r _ s1] obtain T1 where wf1: "pt_wf s1 T1" and sub1: "T \<subseteq>\<^sub>m T1"
    "free_frames s1 \<subseteq> free_frames s" "dom T1 \<subseteq> dom T \<union> free_frames s"
    and tr1: "\<And>r' v'. T r' = Some 0 \<Longrightarrow> translate r' v' s1 = translate r' v' s"
    and at1: "\<And>r' v' j u. T r' = Some 0 \<Longrightarrow> j \<le> 3 \<Longrightarrow> table_at r' v' j s = Some u \<Longrightarrow> table_at r' v' j s1 = Some u"
    and tc1: "touches (bitmap_area \<union> video_window \<union> (\<Union>a \<in> dom T1. region a 4096)) s s1"
    and res: "case res of None \<Rightarrow> card (free_frames s) < missing 3 r v s
     | Some t \<Rightarrow> table_at r v 3 s1 = Some t \<and> card (free_frames s) \<le> card (free_frames s1) + missing 3 r v s"
    by auto
  have T1: "T1 r' = Some 0" if "T r' = Some 0" for r' using sub1(1) that by (metis domI map_le_def)
  show ?thesis
  proof (cases res)
    case None
    then have "s' = s1" by (simp add: s' vmm_map_page_reach s1)
    moreover have "s1\<lparr>tlb := tlb s\<rparr> = s1" using touches_tlb [OF tc1] by simp
    then have "touches (bitmap_area \<union> video_window \<union> (\<Union>a \<in> dom T1. region a 4096)) s (s1\<lparr>tlb := tlb s\<rparr>)"
      using tc1 by (simp only:)
    ultimately show ?thesis using None res wf1 sub1 tr1 at1 touches_tlb [OF tc1] by (intro exI [of _ T1]) simp
  next
    case (Some t)
    define s2 where "s2 = set_entry t (vindex 3 v) e s1"
    have s2: "s' = s2\<lparr>tlb := (tlb s2)(drop_bit 12 v := None)\<rparr>"
      by (simp add: s' vmm_map_page_reach s1 Some s2_def e invlpg_def)
    have t: "table_at r v 3 s1 = Some t" using res Some by simp
    note set = set_page_entry [OF wf1 T1 [OF r] t s2_def]
    have "touches (bitmap_area \<union> video_window \<union> (\<Union>a \<in> dom T1. region a 4096)) s1 s2"
      unfolding s2_def
      by (rule touches_mono [OF touches_set_entry [OF vindex_lt]])
        (use table_at_depth [OF wf1 T1 [OF r] _ t] in auto)
    from touches_trans [OF tc1 this]
    have tc2: "touches (bitmap_area \<union> video_window \<union> (\<Union>a \<in> dom T1. region a 4096)) s s2" .
    have tlb: "tlb s2 = tlb s" by (rule touches_tlb [OF tc2])
    then have "s2\<lparr>tlb := tlb s\<rparr> = s2" by simp
    then have keep: "touches (bitmap_area \<union> video_window \<union> (\<Union>a \<in> dom T1. region a 4096)) s (s2\<lparr>tlb := tlb s\<rparr>)"
      using tc2 by (simp only:)
    have "translate r' w s' = (if table_at r' w 3 s' = table_at r v 3 s' \<and> vindex 3 w = vindex 3 v
        then (if present e then Some e else None) else translate r' w s)" if "T r' = Some 0" for r' w
      using set(3,4) T1 [OF that] T1 [OF r] t tr1 [OF that] by (simp add: s2)
    moreover have "card (free_frames s) \<le> card (free_frames s') + missing 3 r v s"
      using res Some set(2) by (simp add: s2)
    moreover have "table_at r v 3 s' \<noteq> None" using set(3) T1 [OF r] t by (simp add: s2)
    moreover have "table_at r' w j s' = Some u" if "T r' = Some 0" "j \<le> 3" "table_at r' w j s = Some u" for r' w j u
      using set(3) T1 [OF that(1)] that at1 [OF that] by (simp add: s2)
    ultimately show ?thesis using set(1,2) sub1 tlb keep by (intro exI [of _ T1]) (simp add: s2)
  qed
qed

lemma table_at_cong:
  "(\<And>j. j < k \<Longrightarrow> vindex j v = vindex j w) \<Longrightarrow> table_at r v k s = table_at r w k s"
proof (induction k)
  case (Suc k)
  then have "table_at r v k s = table_at r w k s" by simp
  with Suc.prems [of k] show ?case by (simp split: option.splits)
qed simp

lemma translate_page_cong: "page_of v = page_of w \<Longrightarrow> translate r v s = translate r w s"
  using table_at_cong [of 3 v w r s] by (auto simp: page_of_eq_iff translate_def split: option.splits)

text \<open>Within the PML4 of the call, exactly the page of the address is changed.\<close>

lemma same_page_iff:
  assumes "pt_wf s T" and "T r = Some 0" and "table_at r v 3 s \<noteq> None"
  shows "table_at r w 3 s = table_at r v 3 s \<and> vindex 3 w = vindex 3 v \<longleftrightarrow> page_of w = page_of v"
proof
  assume l: "table_at r w 3 s = table_at r v 3 s \<and> vindex 3 w = vindex 3 v"
  moreover from assms(3) obtain t where "table_at r v 3 s = Some t" by blast
  ultimately have "\<forall>j < 3. vindex j w = vindex j v"
    by (intro table_at_inj [OF assms(1,2), of 3 w t v]) auto
  with l show "page_of w = page_of v" by (auto simp: page_of_eq_iff less_Suc_eq numeral_eq_Suc)
next
  assume "page_of w = page_of v"
  then show "table_at r w 3 s = table_at r v 3 s \<and> vindex 3 w = vindex 3 v"
    using table_at_cong [of 3 w v r s] by (auto simp: page_of_eq_iff)
qed

section \<open>The identity mapping\<close>

lemma vindex_page:
  assumes "j < 2 ^ 36"
  shows "vindex k (of_nat (4096 * j)) = of_nat (j div 512 ^ (3 - k) mod 512)"
proof (rule bit_word_eqI)
  fix n
  have "j < 2 ^ 40" using assms by simp
  note b = bit_frame [OF this]
  have p: "512 ^ (3 - k) = (2 :: nat) ^ (9 * (3 - k))" by (simp add: power_mult)
  have m: "j div 512 ^ (3 - k) mod 512 = take_bit 9 (drop_bit (9 * (3 - k)) j)"
    by (simp only: p take_bit_eq_mod drop_bit_eq_div) simp
  have hi: "\<not> bit j x" if "36 \<le> x" for x
  proof -
    have "j < 2 ^ x" using assms that by (intro less_le_trans [OF assms] power_increasing) auto
    then show ?thesis by (simp add: bit_iff_odd)
  qed
  show "bit (vindex k (of_nat (4096 * j))) n = bit (of_nat (j div 512 ^ (3 - k) mod 512) :: u64) n"
    unfolding vindex_bit b m unfolding bit_of_nat_iff bit_take_bit_iff bit_drop_bit_eq
    using hi [of "9 * (3 - k) + n"] by (cases "9 * (3 - k) + n < 36") (auto simp: add.assoc)
qed

lemma page_of_page: "j < 2 ^ 36 \<Longrightarrow> page_of (of_nat (4096 * j)) = of_nat j"
proof (rule bit_word_eqI)
  fix n assume j: "j < 2 ^ 36"
  then have "j < 2 ^ 40" by simp
  note b = bit_frame [OF this]
  have hi: "\<not> bit j x" if "36 \<le> x" for x
  proof -
    have "j < 2 ^ x" using that by (intro less_le_trans [OF j] power_increasing) auto
    then show ?thesis by (simp add: bit_iff_odd)
  qed
  show "bit (page_of (of_nat (4096 * j))) n = bit (of_nat j :: u64) n"
    unfolding page_of_def bit_take_bit_iff bit_drop_bit_eq b unfolding bit_of_nat_iff
    using hi [of n] by (cases "n < 36") auto
qed

abbreviation kernel_flags :: u64 where
  "kernel_flags \<equiv> PAGING_FLAG_PRESENT OR PAGING_FLAG_WRITABLE OR PAGING_FLAG_USER"

text \<open>The frames that mapping the first \<open>k\<close> pages takes, besides the PML4.\<close>

definition tables_for :: "nat \<Rightarrow> nat" where
  "tables_for k = (if k = 0 then 0 else 2 + (k + 511) div 512)"

definition identity_mapped :: "u64 \<Rightarrow> nat \<Rightarrow> 'a machine_scheme \<Rightarrow> bool" where
  "identity_mapped r k s \<longleftrightarrow>
     (\<forall>j < k. translate r (of_nat (4096 * j)) s = Some (of_nat (4096 * j) OR kernel_flags))"

lemma missing_le: "missing k r v s \<le> k"
  by (induction k) auto

lemma translate_tables: "translate r v s \<noteq> None \<Longrightarrow> k \<le> 3 \<Longrightarrow> table_at r v k s \<noteq> None"
proof -
  have step: "table_at r v (Suc k) s \<noteq> None \<Longrightarrow> table_at r v k s \<noteq> None" for k
    by (auto split: option.splits)
  assume "translate r v s \<noteq> None" "k \<le> 3"
  then have "table_at r v 3 s \<noteq> None" by (auto simp: translate_def split: option.splits)
  with step [of 0] step [of 1] step [of 2] \<open>k \<le> 3\<close> show "table_at r v k s \<noteq> None"
    by (auto simp: le_Suc_eq numeral_eq_Suc)
qed

lemma missing_identity:
  assumes m: "identity_mapped r k s" and k: "k < 2 ^ 17"
  shows "missing 3 r (of_nat (4096 * k)) s + tables_for k \<le> tables_for (Suc k)"
proof (cases "k = 0")
  case True
  then show ?thesis using missing_le [of 3 r 0 s] by (simp add: tables_for_def)
next
  case False
  let ?v = "of_nat (4096 * k) :: u64"
  have up: "table_at r ?v j s \<noteq> None" if "j \<le> 2" for j
  proof -
    have "vindex i ?v = vindex i (of_nat (4096 * 0))" if "i < 2" for i
    proof -
      have "(512 :: nat) ^ 2 \<le> 512 ^ (3 - i)" using that by (intro power_increasing) auto
      then have "k div 512 ^ (3 - i) = 0" using k by simp
      then show ?thesis using vindex_page [of k i] vindex_page [of 0 i] k by simp
    qed
    then have "table_at r ?v j s = table_at r (of_nat (4096 * 0)) j s"
      using that by (intro table_at_cong) auto
    moreover have "translate r (of_nat (4096 * 0)) s \<noteq> None"
      using m [unfolded identity_mapped_def, rule_format, of 0] False by simp
    ultimately show ?thesis using translate_tables [of r _ s j] that by simp
  qed
  have pt: "table_at r ?v 3 s \<noteq> None" if "k mod 512 \<noteq> 0"
  proof -
    have d: "k div 512 = (k - 1) div 512" using that False by (cases k) (simp_all add: div_Suc)
    have "vindex i ?v = vindex i (of_nat (4096 * (k - 1)))" if "i < 3" for i
    proof -
      have "3 - i = Suc (2 - i)" using that by simp
      then have "512 ^ (3 - i) = 512 * (512 :: nat) ^ (2 - i)" by (simp only: power_Suc)
      then have "k div 512 ^ (3 - i) = (k - 1) div 512 ^ (3 - i)" by (simp only: div_mult2_eq d)
      then show ?thesis using vindex_page [of k i] vindex_page [of "k - 1" i] k by (simp del: of_nat_mult)
    qed
    then have "table_at r ?v 3 s = table_at r (of_nat (4096 * (k - 1))) 3 s" by (rule table_at_cong)
    moreover have "translate r (of_nat (4096 * (k - 1))) s \<noteq> None"
      using m False by (simp add: identity_mapped_def del: of_nat_mult)
    ultimately show ?thesis using translate_tables [of r _ s 3] by simp
  qed
  have "missing 3 r ?v s = (if table_at r ?v 3 s = None then 1 else 0)"
    using up [of 1] up [of 2] by (simp add: numeral_eq_Suc)
  moreover have "(Suc k + 511) div 512 = (k + 511) div 512 + (if k mod 512 = 0 then 1 else 0)"
    using div_Suc [of "k + 511" 512] mod_add_self2 [of k 512] by (simp add: add.commute)
  then have "tables_for (Suc k) = tables_for k + (if k mod 512 = 0 then 1 else 0)"
    using False by (simp add: tables_for_def)
  ultimately show ?thesis using pt by (cases "k mod 512 = 0") auto
qed

lemma page_entry:
  assumes "j < 2 ^ 36"
  shows "(of_nat (4096 * j) AND ADDR_MASK) OR flags = of_nat (4096 * j) OR flags"
proof -
  have j: "j < 2 ^ 40" using assms by simp
  have "of_nat (4096 * j) AND ADDR_MASK = (of_nat (4096 * j) :: u64)"
    by (rule bit_word_eqI) (unfold bit_and_iff ADDR_MASK_eq bit_push_bit_iff bit_mask_iff bit_frame [OF j], auto)
  then show "(of_nat (4096 * j) AND ADDR_MASK) OR flags = of_nat (4096 * j) OR flags" by (simp only:)
qed

lemma page_present: "present (x OR kernel_flags)"
proof -
  have "bit ((x OR kernel_flags) AND PAGING_FLAG_PRESENT) 0"
    by (simp add: bit_and_iff bit_or_iff PAGING_FLAG_PRESENT_def)
  then show "present (x OR kernel_flags)" unfolding present_def by (metis bit_0_eq bot_apply bot_bool_def)
qed

lemma identity_step:
  assumes wf: "pt_wf s T" and r: "T r = Some 0" and m: "identity_mapped r k s" and k: "k < 2 ^ 17"
    and free: "N \<le> card (free_frames s) + tables_for k" and N: "tables_for (Suc k) \<le> N"
    and s': "s' = vmm_map_page r (of_nat k * PAGE_SIZE) (of_nat k * PAGE_SIZE) kernel_flags s"
  shows "\<exists>T'. pt_wf s' T' \<and> T' r = Some 0 \<and> identity_mapped r (Suc k) s' \<and>
    N \<le> card (free_frames s') + tables_for (Suc k) \<and> kernel_pml4 s' = kernel_pml4 s"
proof -
  let ?v = "of_nat (4096 * k) :: u64"
  have v: "of_nat k * PAGE_SIZE = ?v" by (simp add: PAGE_SIZE_def)
  note mi = missing_identity [OF m k]
  obtain T' where T': "pt_wf s' T'" "T \<subseteq>\<^sub>m T'"
    and tc: "touches (bitmap_area \<union> video_window \<union> (\<Union>a \<in> dom T'. region a 4096)) s (s'\<lparr>tlb := tlb s\<rparr>)"
    and cardf: "card (free_frames s) \<le> card (free_frames s') + missing 3 r ?v s"
    and at: "table_at r ?v 3 s' \<noteq> None"
    and tr: "\<And>w. translate r w s' =
          (if table_at r w 3 s' = table_at r ?v 3 s' \<and> vindex 3 w = vindex 3 ?v
           then (if present (?v OR kernel_flags) then Some (?v OR kernel_flags) else None) else translate r w s)"
    using map_page_spec [OF wf r s' [unfolded v] page_entry [symmetric]] mi free N k r by auto
  have T'r: "T' r = Some 0" using T'(2) r by (metis domI map_le_def)
  have "translate r (of_nat (4096 * j)) s' = Some (of_nat (4096 * j) OR kernel_flags)" if j: "j < Suc k" for j
  proof -
    have "page_of (of_nat (4096 * j)) = page_of ?v \<longleftrightarrow> j = k"
      using page_of_page [of j] page_of_page [of k] j k of_nat_u64_inj [of j k] by simp
    then show ?thesis
      using tr [of "of_nat (4096 * j)"] same_page_iff [OF T'(1) T'r at] page_present m j
      by (auto simp: identity_mapped_def less_Suc_eq)
  qed
  then have "identity_mapped r (Suc k) s'" unfolding identity_mapped_def by blast
  with T'(1) T'r cardf mi free touches_vmm(2) [OF tc] show ?thesis by (intro exI [of _ T']) simp
qed

lemma identity_map_spec:
  assumes wf: "pt_wf s T" and r: "T r = Some 0" "r = kernel_pml4 s" and k: "k \<le> 2 ^ 17"
    and free: "tables_for k \<le> card (free_frames s)"
  shows "\<exists>T'. pt_wf (identity_map k s) T' \<and> T' r = Some 0 \<and> identity_mapped r k (identity_map k s) \<and>
    card (free_frames s) \<le> card (free_frames (identity_map k s)) + tables_for k \<and>
    kernel_pml4 (identity_map k s) = r"
  using k free
proof (induction k)
  case 0
  then show ?case using wf r by (auto simp: identity_map_def identity_mapped_def tables_for_def)
next
  case (Suc k)
  let ?t = "identity_map k s"
  have mono: "tables_for k \<le> tables_for (Suc k)" by (simp add: tables_for_def div_le_mono)
  then obtain T' where T': "pt_wf ?t T'" "T' r = Some 0" "identity_mapped r k ?t"
    "card (free_frames s) \<le> card (free_frames ?t) + tables_for k" "kernel_pml4 ?t = r"
    using Suc by auto
  have "identity_map (Suc k) s = vmm_map_page r (of_nat k * PAGE_SIZE) (of_nat k * PAGE_SIZE) kernel_flags ?t"
    using T'(5) by (simp add: identity_map_def)
  from identity_step [OF T'(1-3) _ T'(4) _ this] Suc.prems T'(5) show ?case by auto
qed

lemma empty_pml4_wf:
  assumes "pmm_wf s" and "r \<in> frames s" "r \<notin> free_frames s" and "\<And>i. unat i < 512 \<Longrightarrow> get_entry r i s = 0"
  shows "pt_wf s [r \<mapsto> 0]"
  using assms by (auto simp: pt_wf_def split: if_splits)

lemma kernel_pml4_update [simp]:
  "pt_wf (s\<lparr>kernel_pml4 := x\<rparr>) T = pt_wf s T" "pmm_wf (s\<lparr>kernel_pml4 := x\<rparr>) = pmm_wf s"
  "frames (s\<lparr>kernel_pml4 := x\<rparr>) = frames s" "free_frames (s\<lparr>kernel_pml4 := x\<rparr>) = free_frames s"
  by (simp_all add: pt_wf_def get_entry_def pmm_wf_def frames_def free_frames_def free_blocks_def block_used_def)

lemma load_cr3_simps [simp]:
  "pt_wf (vmm_switch_pml4 x s) T = pt_wf s T" "free_frames (vmm_switch_pml4 x s) = free_frames s"
  "translate r v (vmm_switch_pml4 x s) = translate r v s"
  "kernel_pml4 (vmm_switch_pml4 x s) = kernel_pml4 s" "cr3 (vmm_switch_pml4 x s) = x"
  "tlb (vmm_switch_pml4 x s) = Map.empty" "current_pml4 (vmm_switch_pml4 x s) = x"
proof -
  have e: "get_entry a i (vmm_switch_pml4 x s) = get_entry a i s" for a i
    by (simp add: get_entry_def vmm_switch_pml4_def load_cr3_def)
  then have tab: "table_at r v k (vmm_switch_pml4 x s) = table_at r v k s" for k
    by (induction k) (auto split: option.splits)
  show "translate r v (vmm_switch_pml4 x s) = translate r v s"
    by (auto simp: translate_def tab e split: option.splits)
  have f: "frames (vmm_switch_pml4 x s) = frames s" "free_frames (vmm_switch_pml4 x s) = free_frames s"
    "pmm_wf (vmm_switch_pml4 x s) = pmm_wf s"
    by (simp_all add: frames_def free_frames_def free_blocks_def block_used_def pmm_wf_def
        vmm_switch_pml4_def load_cr3_def)
  then show "pt_wf (vmm_switch_pml4 x s) T = pt_wf s T" "free_frames (vmm_switch_pml4 x s) = free_frames s"
    by (simp_all add: pt_wf_def e)
qed (simp_all add: vmm_switch_pml4_def load_cr3_def)

text \<open>A step that writes to video memory only leaves the tables alone.\<close>

lemma pt_video:
  assumes wf: "pt_wf s T" and t: "touches video_window s s'"
  shows "pt_wf s' T" and "free_frames s' = free_frames s"
    and "T r = Some 0 \<Longrightarrow> translate r v s' = translate r v s"
proof -
  have pmm: "pmm_wf s" by (rule pt_wf_pmm [OF wf])
  have "video_window \<inter> region a 4096 = {}" if "a \<in> dom T" for a
    using frame_regions(2) [OF pmm] pt_wf_frame [OF wf] that by (auto simp: Int_commute)
  note fr = pt_frame [OF wf t video_not_bitmap this]
  show "pt_wf s' T" by (rule fr)
  show "free_frames s' = free_frames s"
    using pmm_frame(2) [OF pmm t video_not_bitmap] by (simp add: free_frames_def)
  show "T r = Some 0 \<Longrightarrow> translate r v s' = translate r v s" by (rule translate_cong(2) [OF wf _ fr(2)])
qed

lemma vmm_init_spec:
  assumes wf: "pmm_wf s" and free: "259 \<le> card (free_frames s)"
  defines "s' \<equiv> vmm_init s"
  shows "\<exists>T. pt_wf s' T \<and> T (kernel_pml4 s') = Some 0 \<and> identity_mapped (kernel_pml4 s') (2 ^ 17) s' \<and>
    card (free_frames s) \<le> card (free_frames s') + 259 \<and>
    cr3 s' = kernel_pml4 s' \<and> current_pml4 s' = kernel_pml4 s' \<and> tlb s' = Map.empty"
proof -
  have "free_frames s \<noteq> {}" using free by auto
  with wf obtain p s1 where p: "pmm_alloc_block s = (p, s1)" "p \<noteq> 0" "p \<in> free_frames s" "p \<in> frames s"
    "pmm_wf s1" "frames s1 = frames s" "free_frames s1 = free_frames s - {p}" "touches bitmap_area s s1"
    by (rule alloc_frame)
  define s2 where "s2 = memset p 0 PAGE_SIZE (s1\<lparr>kernel_pml4 := p\<rparr>)"
  define s3 where "s3 = identity_map (2 ^ 17) s2"
  have k2: "kernel_pml4 s2 = p" by (simp add: s2_def memset_def)
  have t2: "touches (region p 4096) (s1\<lparr>kernel_pml4 := p\<rparr>) s2"
    unfolding s2_def by (rule touches_memset) (simp add: PAGE_SIZE_def)
  have "region p 4096 \<inter> bitmap_area = {}" by (rule frame_regions(1) [OF wf p(4)])
  note fr = pmm_frame [OF _ t2 this]
  have wf2: "pmm_wf s2" "free_frames s2 = free_frames s - {p}" "frames s2 = frames s"
    using fr p(5-7) touches_frames [OF t2] by (simp_all add: free_frames_def)
      (simp_all add: free_blocks_def block_used_def)
  have wfp: "pt_wf s2 [p \<mapsto> 0]"
    by (rule empty_pml4_wf) (use wf2 p(3,4) get_entry_cleared [of _ p] in \<open>auto simp: s2_def\<close>)
  have root: "[p \<mapsto> 0] p = Some (0 :: nat)" by simp
  have card2: "card (free_frames s) = card (free_frames s2) + 1"
    using card_Suc_Diff1 [OF page_frames.avail_finite [OF wf] p(3)] wf2(2) by simp
  have need: "tables_for (2 ^ 17) = 258" by (simp add: tables_for_def)
  have enough: "tables_for (2 ^ 17) \<le> card (free_frames s2)" unfolding need using card2 free by simp
  obtain T where T: "pt_wf s3 T" "T p = Some 0" "identity_mapped p (2 ^ 17) s3"
    "card (free_frames s2) \<le> card (free_frames s3) + tables_for (2 ^ 17)" "kernel_pml4 s3 = p"
    using identity_map_spec [OF wfp root k2 [symmetric] order_refl enough] unfolding s3_def by blast
  have s': "s' = kprint (chars ''VMM Initialized.'' @ [10]) (vmm_switch_pml4 p s3)"
    using p(1) T(5) k2 by (simp add: s'_def vmm_init_def Let_def s3_def s2_def PAGE_SIZE_def memset_def)
  have "touches video_window (vmm_switch_pml4 p s3) s'" unfolding s' by (rule kprint_touches)
  note v = pt_video [OF _ this] touches_vmm [OF this]
  have "identity_mapped p (2 ^ 17) s'" using T(3) v(3) T(1,2) by (simp add: identity_mapped_def)
  moreover have "card (free_frames s) \<le> card (free_frames s') + 259"
    using v(2) T(1,4) card2 unfolding need by simp
  ultimately show ?thesis using v(1,4-7) T(1,2,5) by (intro exI [of _ T]) simp
qed

section \<open>Address spaces\<close>

text \<open>A fresh PML4 that shares slot 0 with another one.\<close>

lemma clone_pml4_wf:
  assumes wf: "pt_wf s T" and k: "T k = Some 0" and pf: "p \<in> frames s" and new: "T p = None"
    and pmm': "pmm_wf s'" and fr: "frames s' = frames s" "free_frames s' = free_frames s - {p}"
    and e0: "get_entry p 0 s' = get_entry k 0 s"
    and zero: "\<And>i. unat i < 512 \<Longrightarrow> i \<noteq> 0 \<Longrightarrow> get_entry p i s' = 0"
    and same: "\<And>a i. a \<in> dom T \<Longrightarrow> unat i < 512 \<Longrightarrow> get_entry a i s' = get_entry a i s"
  shows "pt_wf s' (T(p \<mapsto> 0))"
proof -
  have old: "(a = p \<and> j = 0 \<and> d = 0 \<or> a \<noteq> p \<and> T a = Some d) \<and>
      (\<exists>b. T b = Some d \<and> (b = a \<or> d = 0) \<and> get_entry a j s' = get_entry b j s)"
    if "(T(p \<mapsto> 0)) a = Some d" "unat j < 512" "present (get_entry a j s')" for a j d
    using that e0 zero [of j] same [OF domI, of a d j] k by (cases "a = p"; cases "j = 0") auto
  have child: "(T(p \<mapsto> 0)) x = Some d" if "T x = Some d" for x d using that new by auto
  show ?thesis unfolding pt_wf_def
  proof (intro conjI allI impI)
    show "pmm_wf s'" by (rule pmm')
    fix a d assume "(T(p \<mapsto> 0)) a = Some d"
    then show "d \<le> 3" "a \<in> frames s' - free_frames s'"
      using pt_wf_frame [OF wf, of a d] pf fr by (auto split: if_splits)
  next
    fix a d i assume a: "(T(p \<mapsto> 0)) a = Some d" "d < 3" "unat i < 512" "present (get_entry a i s')"
    from old [OF a(1,3,4)] obtain b where "T b = Some d" "get_entry a i s' = get_entry b i s" by blast
    with pt_wf_child [OF wf this(1) a(2,3)] a(4) child
    show "(T(p \<mapsto> 0)) (get_entry a i s' AND ADDR_MASK) = Some (Suc d)"
      "get_entry a i s' AND PAGING_FLAG_HUGE_PAGE = 0" by simp_all
  next
    fix a b d i j assume a: "(T(p \<mapsto> 0)) a = Some d" "(T(p \<mapsto> 0)) b = Some d" "d < 3" "unat i < 512" "unat j < 512"
      "present (get_entry a i s')" "present (get_entry b j s')"
      "get_entry a i s' AND ADDR_MASK = get_entry b j s' AND ADDR_MASK"
    from old [OF a(1,4,6)] obtain a' where a': "T a' = Some d" "a' = a \<or> d = 0" "get_entry a i s' = get_entry a' i s" by blast
    from old [OF a(2,5,7)] obtain b' where b': "T b' = Some d" "b' = b \<or> d = 0" "get_entry b j s' = get_entry b' j s" by blast
    have "i = j \<and> (a' = b' \<or> d = 0)" by (rule pt_wf_inj [OF wf a'(1) b'(1) a(3,4,5)]) (use a a' b' in auto)
    then show "i = j" "a = b \<or> d = 0" using a' b' by auto
  qed
qed

lemma create_user_pml4_spec:
  assumes wf: "pt_wf s T" and k: "T (kernel_pml4 s) = Some 0" and ne: "free_frames s \<noteq> {}"
  shows "\<exists>p s'. vmm_create_user_pml4 s = (p, s') \<and> p \<noteq> 0 \<and> T p = None \<and> pt_wf s' (T(p \<mapsto> 0)) \<and>
    kernel_pml4 s' = kernel_pml4 s \<and> card (free_frames s) = card (free_frames s') + 1 \<and>
    get_entry p 0 s' = get_entry (kernel_pml4 s) 0 s \<and>
    (\<forall>i. unat i < 512 \<longrightarrow> i \<noteq> 0 \<longrightarrow> get_entry p i s' = 0) \<and>
    (\<forall>a \<in> dom T. \<forall>i. unat i < 512 \<longrightarrow> get_entry a i s' = get_entry a i s)"
proof -
  let ?k = "kernel_pml4 s"
  have pmm: "pmm_wf s" by (rule pt_wf_pmm [OF wf])
  from pmm ne obtain p s1 where p: "pmm_alloc_block s = (p, s1)" "p \<noteq> 0" "p \<in> free_frames s" "p \<in> frames s"
    "pmm_wf s1" "frames s1 = frames s" "free_frames s1 = free_frames s - {p}" "touches bitmap_area s s1"
    by (rule alloc_frame)
  define s2 where "s2 = memset p 0 PAGE_SIZE s1"
  define e where "e = get_entry ?k 0 s2"
  define s' where "s' = set_entry p 0 e s2"
  have new: "T p = None" using pt_wf_frame [OF wf, of p] p(3) by (cases "T p") auto
  have t2: "touches (region p 4096) s1 s2"
    unfolding s2_def by (rule touches_memset) (simp add: PAGE_SIZE_def)
  have t3: "touches (region p 4096) s2 s'" unfolding s'_def by (rule touches_set_entry) simp
  have t: "touches (region p 4096) s1 s'" by (rule touches_trans [OF t2 t3])
  note fp = frame_regions [OF pmm p(4)]
  note pmm' = pmm_frame [OF p(5) t fp(1)]
  have fr: "frames s' = frames s" "free_frames s' = free_frames s - {p}"
    using touches_frames [OF t] p(6,7) pmm'(2) by (simp_all add: free_frames_def)
  have kp: "kernel_pml4 s2 = ?k" using touches_vmm(2) p(8) t2 by metis
  have "vmm_create_user_pml4 s = (p, s')"
    using p(1,2) kp by (simp add: vmm_create_user_pml4_def s'_def e_def s2_def Let_def)
  moreover have same: "get_entry a i s' = get_entry a i s" "get_entry a i s2 = get_entry a i s"
    if "a \<in> dom T" "unat i < 512" for a i
  proof -
    have a: "a \<in> frames s" "a \<noteq> p" using pt_wf_frame [OF wf] that(1) new by auto
    have "get_entry a i s1 = get_entry a i s"
      using get_entry_frame [OF p(8) _ that(2)] frame_regions(1) [OF pmm a(1)] by (simp add: Int_commute)
    then show "get_entry a i s' = get_entry a i s" "get_entry a i s2 = get_entry a i s"
      using get_entry_frame [OF t _ that(2)] get_entry_frame [OF t2 _ that(2)] fp(3) [OF a(1)] a(2) by auto
  qed
  moreover have e0: "get_entry p 0 s' = get_entry ?k 0 s" using same(2) [of ?k 0] k by (auto simp: s'_def e_def)
  moreover have zero: "get_entry p i s' = 0" if "unat i < 512" "i \<noteq> 0" for i
    using get_entry_cleared [of i p s1] that by (simp add: s'_def s2_def get_set_entry_same_table)
  moreover have "pt_wf s' (T(p \<mapsto> 0))"
    by (rule clone_pml4_wf [OF wf k p(4) new pmm'(1) fr e0 zero same(1)])
  moreover have "card (free_frames s) = card (free_frames s') + 1"
    using card_Suc_Diff1 [OF page_frames.avail_finite [OF pmm] p(3)] fr(2) by simp
  moreover have "kernel_pml4 s' = ?k" using touches_vmm(2) [OF t3] kp by simp
  ultimately show ?thesis using p(2) new by blast
qed

lemma table_at_share:
  "table_at r v 1 s = table_at u v 1 s \<Longrightarrow> table_at r v (Suc k) s = table_at u v (Suc k) s"
proof (induction k)
  case (Suc k)
  then have "table_at r v (Suc k) s = table_at u v (Suc k) s" by simp
  then show ?case by (simp only: table_at.simps(2) [of r v "Suc k"] table_at.simps(2) [of u v "Suc k"])
qed simp

lemma translate_share:
  assumes "table_at r v 1 s = table_at u v 1 s"
  shows "table_at r v 3 s = table_at u v 3 s" and "translate r v s = translate u v s"
  using table_at_share [OF assms, of 2] by (simp_all add: translate_def numeral_3_eq_3)

section \<open>Properties\<close>

text \<open>The translation that a memory access of the CPU gets: from the cache, or from the tables of CR3.\<close>

definition mmu :: "u64 \<Rightarrow> 'a vmm_scheme \<Rightarrow> u64 option" where
  "mmu v s = (case tlb s (drop_bit 12 v) of Some e \<Rightarrow> Some e | None \<Rightarrow> translate (cr3 s) v s)"

text \<open>
  C10: With frames for the missing tables, \<^verbatim>\<open>vmm_map_page\<close> maps exactly the page of the given address
  in the given address space: that page translates to the given frame and flags, also for the CPU
  when the address space is active, and every other page translates as before. The tables stay
  well formed, and memory changes only in tables, in the frame bitmap and on the screen.
\<close>

theorem vmm_map_page_maps:
  assumes "pt_wf s T" and "T r = Some 0" and "flags AND PAGING_FLAG_PRESENT \<noteq> 0"
    and "missing 3 r v s \<le> card (free_frames s)"
  shows "let s' = vmm_map_page r v paddr flags s in
    (\<forall>w. translate r w s' =
       (if page_of w = page_of v then Some ((paddr AND ADDR_MASK) OR flags) else translate r w s)) \<and>
    (cr3 s = r \<longrightarrow> mmu v s' = Some ((paddr AND ADDR_MASK) OR flags)) \<and>
    (\<exists>T'. pt_wf s' T' \<and> T \<subseteq>\<^sub>m T' \<and>
       touches (bitmap_area \<union> video_window \<union> (\<Union>a \<in> dom T'. region a 4096)) s (s'\<lparr>tlb := tlb s\<rparr>))"
proof -
  let ?s = "vmm_map_page r v paddr flags s" and ?e = "(paddr AND ADDR_MASK) OR flags"
  have e: "present ?e" using assms(3) unfolding present_def by (simp add: bit.conj_disj_distrib2 or_eq_0_iff)
  obtain T' where T': "pt_wf ?s T'" "T \<subseteq>\<^sub>m T'"
    "touches (bitmap_area \<union> video_window \<union> (\<Union>a \<in> dom T'. region a 4096)) s (?s\<lparr>tlb := tlb s\<rparr>)"
    and tlb: "tlb ?s = (tlb s)(drop_bit 12 v := None)" and at: "table_at r v 3 ?s \<noteq> None"
    and tr: "\<And>w. translate r w ?s = (if table_at r w 3 ?s = table_at r v 3 ?s \<and> vindex 3 w = vindex 3 v
           then Some ?e else translate r w s)"
    using map_page_spec [OF assms(1,2) refl refl, of v paddr flags] assms(2,4) e by auto
  have r': "T' r = Some 0" using T'(2) assms(2) by (metis domI map_le_def)
  have 1: "translate r w ?s = (if page_of w = page_of v then Some ?e else translate r w s)" for w
    using tr [of w] same_page_iff [OF T'(1) r' at, of w] by simp
  have "cr3 ?s = cr3 s" using touches_vmm(4) [OF T'(3)] by simp
  then have "cr3 s = r \<longrightarrow> mmu v ?s = Some ?e" using 1 [of v] by (simp add: mmu_def tlb)
  with 1 T' show ?thesis unfolding Let_def by blast
qed

text \<open>
  C22: After \<^verbatim>\<open>vmm_init\<close> on a manager with 259 free frames, the kernel's tables are active and every
  address below 512 MB is mapped to itself.
\<close>

theorem vmm_init_maps_identity:
  assumes "pmm_wf s" and "259 \<le> card (free_frames s)" and "unat v < 0x20000000"
  shows "\<exists>e. mmu v (vmm_init s) = Some e \<and> (e AND ADDR_MASK) + (v AND 0xFFF) = v \<and>
    e AND kernel_flags = kernel_flags"
proof -
  let ?s = "vmm_init s"
  from vmm_init_spec [OF assms(1,2)] have m: "identity_mapped (kernel_pml4 ?s) (2 ^ 17) ?s"
    and c: "cr3 ?s = kernel_pml4 ?s" "tlb ?s = Map.empty" by auto
  define j where "j = unat v div 4096"
  have j: "j < 2 ^ 17" using assms(3) by (simp add: j_def less_mult_imp_div_less)
  have j36: "j < 2 ^ 36" and j40: "j < 2 ^ 40" using j by simp_all
  have bj: "bit j n \<longleftrightarrow> bit v (12 + n)" for n
  proof -
    have "j = drop_bit 12 (unat v)" by (simp add: j_def drop_bit_eq_div)
    then show ?thesis by (simp add: bit_drop_bit_eq bit_unsigned_iff)
  qed
  note b = bit_frame [OF j40, unfolded bj]
  have "page_of v = page_of (of_nat (4096 * j))"
    by (rule bit_word_eqI) (unfold page_of_def bit_take_bit_iff bit_drop_bit_eq b, auto)
  then have "mmu v ?s = translate (kernel_pml4 ?s) (of_nat (4096 * j)) ?s"
    by (simp only: mmu_def c option.case translate_page_cong [of v "of_nat (4096 * j)"])
  then have t: "mmu v ?s = Some (of_nat (4096 * j) OR kernel_flags)"
    using m [unfolded identity_mapped_def, rule_format, OF j] by (simp only:)
  have "(of_nat (4096 * j) OR kernel_flags) AND ADDR_MASK = (of_nat (4096 * j) :: u64)"
    by (rule bit_word_eqI)
      (unfold bit_and_iff bit_table_entry b ADDR_MASK_eq bit_push_bit_iff bit_mask_iff, auto)
  moreover have "of_nat (4096 * j) + (v AND 0xFFF) = v"
  proof -
    have "v AND 0xFFF = take_bit 12 v" by (simp add: take_bit_eq_mask mask_eq_exp_minus_1)
    also have "\<dots> = of_nat (unat v mod 4096)"
      by (simp add: take_bit_eq_mod word_arith_nat_mod)
    finally show ?thesis by (simp add: j_def flip: of_nat_add of_nat_mult)
  qed
  moreover have "(of_nat (4096 * j) OR kernel_flags) AND kernel_flags = kernel_flags"
    by (rule bit_word_eqI) (unfold bit_and_iff bit_table_entry bit_kernel_flags, auto)
  ultimately show ?thesis using t by (intro exI conjI) (assumption, simp_all only:)
qed

text \<open>
  C23: \<^verbatim>\<open>vmm_create_user_pml4\<close> makes a new address space: in the first 512 GB it translates like the
  kernel's, above it nothing is mapped, and the existing address spaces are as before.
\<close>

theorem vmm_create_user_pml4_copies_kernel:
  assumes "pt_wf s T" and "T (kernel_pml4 s) = Some 0" and "free_frames s \<noteq> {}"
  shows "\<exists>p s'. vmm_create_user_pml4 s = (p, s') \<and> p \<noteq> 0 \<and> pt_wf s' (T(p \<mapsto> 0)) \<and>
    (\<forall>w. translate p w s' = (if PML4_INDEX w = 0 then translate (kernel_pml4 s) w s else None)) \<and>
    (\<forall>r w. T r = Some 0 \<longrightarrow> translate r w s' = translate r w s)"
proof -
  from create_user_pml4_spec [OF assms] obtain p s' where
    p: "vmm_create_user_pml4 s = (p, s')" "p \<noteq> 0" "T p = None" "pt_wf s' (T(p \<mapsto> 0))" and
    e0: "get_entry p 0 s' = get_entry (kernel_pml4 s) 0 s" and
    zero: "\<And>i. unat i < 512 \<Longrightarrow> i \<noteq> 0 \<Longrightarrow> get_entry p i s' = 0" and
    same: "\<And>a i. a \<in> dom T \<Longrightarrow> unat i < 512 \<Longrightarrow> get_entry a i s' = get_entry a i s"
    by blast
  have old: "translate r w s' = translate r w s" if "T r = Some 0" for r w
    by (rule translate_cong(2) [OF assms(1) that same])
  have "translate p w s' = (if PML4_INDEX w = 0 then translate (kernel_pml4 s) w s else None)" for w
  proof (cases "PML4_INDEX w = 0")
    case True
    moreover have "kernel_pml4 s \<in> dom T" using assms(2) by (simp add: dom_def)
    ultimately have "table_at p w 1 s' = table_at (kernel_pml4 s) w 1 s'"
      using e0 same [of "kernel_pml4 s" 0] by (simp add: index_vindex Let_def)
    from translate_share(2) [OF this] old [OF assms(2)] True show ?thesis by simp
  next
    case False
    then have "table_at p w 1 s' = None" using zero [OF vindex_lt, of 0 w] by (simp add: index_vindex)
    then have "table_at p w 3 s' = None" by (simp add: numeral_3_eq_3)
    with False show ?thesis by (simp add: translate_def)
  qed
  with p old show ?thesis by blast
qed

text \<open>
  C36: Address spaces are not isolated below 512 GB: when two of them share slot 0, as every address
  space made by \<^verbatim>\<open>vmm_create_user_pml4\<close> does, a page mapped there in one of them is mapped in the
  other as well.
\<close>

theorem vmm_user_mapping_shared:
  assumes wf: "pt_wf s T" and u: "T u = Some 0" and r: "T r = Some 0"
    and share: "get_entry u 0 s = get_entry r 0 s" "present (get_entry r 0 s)"
    and v: "PML4_INDEX v = 0" and "flags AND PAGING_FLAG_PRESENT \<noteq> 0"
    and "missing 3 u v s \<le> card (free_frames s)"
  shows "translate r v (vmm_map_page u v paddr flags s) = Some ((paddr AND ADDR_MASK) OR flags)"
proof -
  let ?s = "vmm_map_page u v paddr flags s" and ?e = "(paddr AND ADDR_MASK) OR flags"
  have e: "present ?e" using assms(7) unfolding present_def by (simp add: bit.conj_disj_distrib2 or_eq_0_iff)
  have keep: "table_at r' w j ?s = Some x" if "T r' = Some 0" "j \<le> 3" "table_at r' w j s = Some x" for r' w j x
    using map_page_spec [OF wf u refl refl, of v paddr flags] that by blast
  have tr: "translate r v ?s = (if table_at r v 3 ?s = table_at u v 3 ?s then Some ?e else translate r v s)"
    using map_page_spec [OF wf u refl refl, of v paddr flags] r assms(8) e by auto
  define c where "c = get_entry r 0 s AND ADDR_MASK"
  have "table_at r v 1 s = Some c" "table_at u v 1 s = Some c"
    using share v by (simp_all add: c_def index_vindex)
  from keep [OF r _ this(1)] keep [OF u _ this(2)] have "table_at r v 1 ?s = table_at u v 1 ?s" by simp
  from translate_share(1) [OF this] tr show ?thesis by simp
qed

section \<open>Witnesses\<close>

text \<open>A machine with 512 free frames from 32 MB on.\<close>

definition page_machine :: vmm where
  "page_machine =
     \<lparr>mem = (\<lambda>a. if unat a < 0x200400 then 0xff else 0), io = [], dev8 = (\<lambda>_ _. 0), dev16 = (\<lambda>_ _. 0),
      bitmap = 0x200000, total_blocks = 8704, bitmap_size = 1088, head = 0,
      current_pml4 = 0, kernel_pml4 = 0, cr3 = 0, tlb = Map.empty\<rparr>"

lemma page_machine_used: "i < 8704 \<Longrightarrow> block_used page_machine i \<longleftrightarrow> i < 8192"
proof -
  assume i: "i < 8704"
  then have "0x200000 + of_nat (i div 8) = (of_nat (0x200000 + i div 8) :: u64)" by simp
  then have "unat (0x200000 + of_nat (i div 8) :: u64) = 0x200000 + i div 8"
    using i by (simp only:) (rule unat64_of_nat, simp)
  moreover have "bit (0xff :: u8) (i mod 8)" by (rule bit_ff) simp
  ultimately show ?thesis using i by (auto simp: block_used_def page_machine_def)
qed

lemma page_machine_wf: "pmm_wf page_machine" and page_machine_free: "card (free_frames page_machine) = 512"
proof -
  show "pmm_wf page_machine"
    using page_machine_used by (simp add: pmm_wf_def) (simp add: page_machine_def max_blocks_def)
  have "unat (total_blocks page_machine) = 8704" by (simp add: page_machine_def)
  then have fb: "free_blocks page_machine = {8192..<8704}" using page_machine_used by (auto simp: free_blocks_def)
  have "inj_on (\<lambda>i. of_nat i * BLOCK_SIZE :: u64) {8192..<8704}"
    by (rule inj_onI) (simp add: frame_addr_inj)
  then show "card (free_frames page_machine) = 512" by (simp add: free_frames_def fb card_image)
qed

text \<open>The machine after \<^verbatim>\<open>vmm_init\<close>, and with a user address space.\<close>

definition paged_machine :: vmm where
  "paged_machine = vmm_init page_machine"

lemma paged_machine_tables:
  "\<exists>T. pt_wf paged_machine T \<and> T (kernel_pml4 paged_machine) = Some 0 \<and>
     253 \<le> card (free_frames paged_machine) \<and> cr3 paged_machine = kernel_pml4 paged_machine \<and>
     present (get_entry (kernel_pml4 paged_machine) 0 paged_machine)"
proof -
  let ?s = paged_machine
  obtain T where T: "pt_wf ?s T" "T (kernel_pml4 ?s) = Some 0" "identity_mapped (kernel_pml4 ?s) (2 ^ 17) ?s"
    "512 \<le> card (free_frames ?s) + 259" "cr3 ?s = kernel_pml4 ?s"
    using vmm_init_spec [OF page_machine_wf] unfolding paged_machine_def page_machine_free by auto
  have "translate (kernel_pml4 ?s) 0 ?s \<noteq> None"
    using T(3) [unfolded identity_mapped_def, rule_format, of 0] by simp
  from translate_tables [OF this, of 1] have "present (get_entry (kernel_pml4 ?s) 0 ?s)"
    by (auto simp: vindex_def Let_def split: if_splits)
  with T show ?thesis by auto
qed

theorem vmm_map_page_maps_witness:
  "mmu 0x30000000 (vmm_map_page (kernel_pml4 paged_machine) 0x30000000 0x5000 7 paged_machine) = Some 0x5007"
proof -
  let ?s = paged_machine
  obtain T where T: "pt_wf ?s T" "T (kernel_pml4 ?s) = Some 0" "253 \<le> card (free_frames ?s)" "cr3 ?s = kernel_pml4 ?s"
    using paged_machine_tables by blast
  have "missing 3 (kernel_pml4 ?s) 0x30000000 ?s \<le> card (free_frames ?s)"
    using missing_le [of 3 "kernel_pml4 ?s" "0x30000000" ?s] T(3) by simp
  from vmm_map_page_maps [OF T(1,2) _ this, of 7 "0x5000"] T(4)
  show ?thesis by (simp add: Let_def PAGING_FLAG_PRESENT_def ADDR_MASK_def)
qed

theorem vmm_init_maps_identity_witness:
  "\<exists>e. mmu 0xb8000 (vmm_init page_machine) = Some e \<and> (e AND ADDR_MASK) + (0xb8000 AND 0xFFF) = 0xb8000"
  using vmm_init_maps_identity [OF page_machine_wf, of "0xb8000"] page_machine_free by auto

theorem vmm_create_user_pml4_copies_kernel_witness:
  "\<exists>p s'. vmm_create_user_pml4 paged_machine = (p, s') \<and> p \<noteq> 0 \<and>
    translate p 0xb8000 s' = translate (kernel_pml4 paged_machine) 0xb8000 paged_machine"
proof -
  let ?s = paged_machine
  obtain T where T: "pt_wf ?s T" "T (kernel_pml4 ?s) = Some 0" "253 \<le> card (free_frames ?s)"
    using paged_machine_tables by blast
  then have "free_frames ?s \<noteq> {}" by auto
  moreover have "PML4_INDEX 0xb8000 = 0" by (simp add: PML4_INDEX_def)
  ultimately show ?thesis using vmm_create_user_pml4_copies_kernel [OF T(1,2)] by fastforce
qed

theorem vmm_user_mapping_shared_witness:
  "\<exists>p s'. vmm_create_user_pml4 paged_machine = (p, s') \<and>
    translate (kernel_pml4 paged_machine) 0x10000000 (vmm_map_page p 0x10000000 0x3000000 7 s') = Some 0x3000007"
proof -
  let ?s = paged_machine
  obtain T where T: "pt_wf ?s T" "T (kernel_pml4 ?s) = Some 0" "253 \<le> card (free_frames ?s)"
    "present (get_entry (kernel_pml4 ?s) 0 ?s)"
    using paged_machine_tables by blast
  then have "free_frames ?s \<noteq> {}" by auto
  from create_user_pml4_spec [OF T(1,2) this] obtain p s' where p: "vmm_create_user_pml4 ?s = (p, s')"
    "pt_wf s' (T(p \<mapsto> 0))" "T p = None" "card (free_frames ?s) = card (free_frames s') + 1"
    "get_entry p 0 s' = get_entry (kernel_pml4 ?s) 0 ?s"
    and same: "\<forall>a \<in> dom T. \<forall>i. unat i < 512 \<longrightarrow> get_entry a i s' = get_entry a i ?s" by blast
  have "kernel_pml4 ?s \<in> dom T" using T(2) by (simp add: dom_def)
  then have "get_entry (kernel_pml4 ?s) 0 s' = get_entry (kernel_pml4 ?s) 0 ?s" using same by simp
  note p = p this
  have k: "(T(p \<mapsto> 0)) (kernel_pml4 ?s) = Some 0" using T(2) p(3) by auto
  have "missing 3 p 0x10000000 s' \<le> card (free_frames s')"
    using missing_le [of 3 p "0x10000000" s'] T(3) p(4) by simp
  then have "translate (kernel_pml4 ?s) 0x10000000 (vmm_map_page p 0x10000000 0x3000000 7 s')
      = Some ((0x3000000 AND ADDR_MASK) OR 7)"
    by (rule vmm_user_mapping_shared [OF p(2) _ k, rotated -1])
      (simp_all add: p(5,6) T(4) PAGING_FLAG_PRESENT_def PML4_INDEX_def)
  with p(1) show ?thesis by (simp add: ADDR_MASK_def)
qed

end
