(* ===== verification/Gdt.thy ===== *)
theory Gdt
  imports Vmm
begin

text \<open>
  The segment descriptors of \<^verbatim>\<open>src/kernel/cpu/gdt.c\<close>: the global descriptor table, the task state
  segment, and the two CPU registers that point to them. The addresses of the two C objects are
  fixed by the linker; they are the fields \<open>gdt_entries_addr\<close> and \<open>tss_entry_addr\<close>, which no code
  assigns. \<^verbatim>\<open>gdt_flush\<close> and \<^verbatim>\<open>tss_flush\<close> are the instructions \<^verbatim>\<open>lgdt\<close> and \<^verbatim>\<open>ltr\<close> of gdt_flush.asm.
\<close>

record gdt_entry_t =
  limit_low :: u16
  base_low :: u16
  base_middle :: u8
  gdt_access :: u8
  granularity :: u8
  base_high :: u8

record gdt_ptr_t =
  gdt_limit :: u16
  gdt_base :: u64

record tss_entry_t =
  reserved1 :: u32
  rsp0 :: u64
  rsp1 :: u64
  rsp2 :: u64
  reserved2 :: u64
  ist1 :: u64
  ist2 :: u64
  ist3 :: u64
  ist4 :: u64
  ist5 :: u64
  ist6 :: u64
  ist7 :: u64
  reserved3 :: u64
  reserved4 :: u16
  iomap_base :: u16

record gdt = vmm +
  gdt_entries :: "gdt_entry_t list"
  gdt_ptr :: gdt_ptr_t
  tss_entry :: tss_entry_t
  gdt_entries_addr :: u64
  tss_entry_addr :: u64
  gdtr :: gdt_ptr_t
  task_register :: u16

section \<open>The operations of gdt.c\<close>

text \<open>The callers use the slots 0 to 6 of the seven entries.\<close>

definition set_gdt_gate :: "nat \<Rightarrow> u64 \<Rightarrow> u64 \<Rightarrow> u8 \<Rightarrow> u8 \<Rightarrow> 'a gdt_scheme \<Rightarrow> 'a gdt_scheme" where
  "set_gdt_gate num base limit acc gran s =
     s\<lparr>gdt_entries := (gdt_entries s)[num :=
       \<lparr>limit_low = ucast (limit AND 0xFFFF),
        base_low = ucast (base AND 0xFFFF),
        base_middle = ucast (drop_bit 16 base AND 0xFF),
        gdt_access = acc,
        granularity = ucast (drop_bit 16 limit AND 0x0F) OR (gran AND 0xF0),
        base_high = ucast (drop_bit 24 base AND 0xFF)\<rparr>]\<rparr>"

definition set_tss_gate :: "nat \<Rightarrow> u64 \<Rightarrow> u64 \<Rightarrow> 'a gdt_scheme \<Rightarrow> 'a gdt_scheme" where
  "set_tss_gate num base limit s =
     (let s = set_gdt_gate num base limit 0x89 0x00 s;
          upper_base = drop_bit 32 base
      in s\<lparr>gdt_entries := (gdt_entries s)[num + 1 :=
           \<lparr>limit_low = ucast (upper_base AND 0xFFFF),
            base_low = ucast (drop_bit 16 upper_base AND 0xFFFF),
            base_middle = ucast (drop_bit 32 upper_base AND 0xFF),
            gdt_access = 0,
            granularity = 0,
            base_high = 0\<rparr>]\<rparr>)"

definition zero_tss :: tss_entry_t where
  "zero_tss = \<lparr>reserved1 = 0, rsp0 = 0, rsp1 = 0, rsp2 = 0, reserved2 = 0, ist1 = 0, ist2 = 0, ist3 = 0,
     ist4 = 0, ist5 = 0, ist6 = 0, ist7 = 0, reserved3 = 0, reserved4 = 0, iomap_base = 0\<rparr>"

text \<open>The size of the packed structures: 8 bytes and 104 bytes.\<close>

definition sizeof_gdt_entry :: nat where "sizeof_gdt_entry = 2 + 2 + 1 + 1 + 1 + 1"
definition sizeof_tss_entry :: nat where "sizeof_tss_entry = 4 + 12 * 8 + 2 + 2"

definition gdt_flush :: "'a gdt_scheme \<Rightarrow> 'a gdt_scheme" where
  "gdt_flush s = s\<lparr>gdtr := gdt_ptr s\<rparr>"

definition tss_flush :: "'a gdt_scheme \<Rightarrow> 'a gdt_scheme" where
  "tss_flush s = s\<lparr>task_register := 0x28\<rparr>"

definition init_gdt :: "'a gdt_scheme \<Rightarrow> 'a gdt_scheme" where
  "init_gdt s =
     (let s = s\<lparr>gdt_ptr := \<lparr>gdt_limit = of_nat (sizeof_gdt_entry * 7 - 1), gdt_base = gdt_entries_addr s\<rparr>\<rparr>;
          s = set_gdt_gate 0 0 0 0 0 s;
          s = set_gdt_gate 1 0 0xFFFFF 0x9A 0x20 s;
          s = set_gdt_gate 2 0 0xFFFFF 0x92 0x00 s;
          s = set_gdt_gate 3 0 0xFFFFF 0xF2 0x00 s;
          s = set_gdt_gate 4 0 0xFFFFF 0xFA 0x20 s;
          s = s\<lparr>tss_entry := zero_tss\<rparr>;
          s = s\<lparr>tss_entry := (tss_entry s)\<lparr>iomap_base := of_nat sizeof_tss_entry\<rparr>\<rparr>;
          s = set_tss_gate 5 (tss_entry_addr s) (of_nat sizeof_tss_entry - 1) s;
          s = gdt_flush s
      in tss_flush s)"

definition set_tss_rsp0 :: "u64 \<Rightarrow> 'a gdt_scheme \<Rightarrow> 'a gdt_scheme" where
  "set_tss_rsp0 rsp s = s\<lparr>tss_entry := (tss_entry s)\<lparr>rsp0 := rsp\<rparr>\<rparr>"

section \<open>How the CPU reads a descriptor\<close>

definition seg_base :: "gdt_entry_t \<Rightarrow> u64" where
  "seg_base e = ucast (base_low e) OR push_bit 16 (ucast (base_middle e)) OR push_bit 24 (ucast (base_high e))"

definition seg_limit :: "gdt_entry_t \<Rightarrow> u64" where
  "seg_limit e = ucast (limit_low e) OR push_bit 16 (ucast (granularity e AND 0x0F))"

definition seg_present :: "gdt_entry_t \<Rightarrow> bool" where "seg_present e \<longleftrightarrow> bit (gdt_access e) 7"
definition seg_dpl :: "gdt_entry_t \<Rightarrow> nat" where "seg_dpl e = unat (drop_bit 5 (gdt_access e) AND 3)"
definition seg_code :: "gdt_entry_t \<Rightarrow> bool" where "seg_code e \<longleftrightarrow> bit (gdt_access e) 4 \<and> bit (gdt_access e) 3"
definition seg_data :: "gdt_entry_t \<Rightarrow> bool" where "seg_data e \<longleftrightarrow> bit (gdt_access e) 4 \<and> \<not> bit (gdt_access e) 3"
definition seg_long :: "gdt_entry_t \<Rightarrow> bool" where "seg_long e \<longleftrightarrow> bit (granularity e) 5"
definition seg_tss :: "gdt_entry_t \<Rightarrow> bool" where "seg_tss e \<longleftrightarrow> gdt_access e AND 0x1F = 0x09"

text \<open>A system descriptor takes two slots; the second one holds the upper half of the base.\<close>

definition sys_base :: "gdt_entry_t \<Rightarrow> gdt_entry_t \<Rightarrow> u64" where
  "sys_base e e' = seg_base e OR push_bit 32 (ucast (limit_low e')) OR push_bit 48 (ucast (base_low e'))"

definition selected :: "u16 \<Rightarrow> 'a gdt_scheme \<Rightarrow> gdt_entry_t" where
  "selected sel s = gdt_entries s ! unat (drop_bit 3 sel)"

definition sel_rpl :: "u16 \<Rightarrow> nat" where
  "sel_rpl sel = unat (sel AND 3)"

lemma mask_numerals:
  "(0xFFFF :: 'a::len word) = mask 16" "(0xFF :: 'a::len word) = mask 8" "(0x0F :: 'a::len word) = mask 4"
  by (simp_all add: mask_eq_exp_minus_1)

lemma F0_eq: "(0xF0 :: u8) = push_bit 4 (mask 4)"
  by (simp add: mask_eq_exp_minus_1 push_bit_eq_mult)

lemma seg_fields:
  assumes "num < length (gdt_entries s)" and e_def: "e = gdt_entries (set_gdt_gate num base limit acc gran s) ! num"
  shows "seg_base e = take_bit 32 base" and "seg_limit e = take_bit 20 limit"
    and "gdt_access e = acc" and "granularity e AND 0xF0 = gran AND 0xF0"
proof -
  have e: "e = \<lparr>limit_low = ucast (limit AND mask 16), base_low = ucast (base AND mask 16),
        base_middle = ucast (drop_bit 16 base AND mask 8), gdt_access = acc,
        granularity = ucast (drop_bit 16 limit AND mask 4) OR (gran AND 0xF0),
        base_high = ucast (drop_bit 24 base AND mask 8)\<rparr>"
    using assms(1) by (simp add: e_def set_gdt_gate_def mask_numerals)
  show "gdt_access e = acc" by (simp add: e)
  show "seg_base e = take_bit 32 base"
    unfolding e seg_base_def gdt_entry_t.simps
  proof (rule bit_word_eqI)
    fix n
    show "bit (ucast (ucast (base AND mask 16) :: u16) OR push_bit 16 (ucast (ucast (drop_bit 16 base AND mask 8) :: u8)) OR
        push_bit 24 (ucast (ucast (drop_bit 24 base AND mask 8) :: u8)) :: u64) n = bit (take_bit 32 base) n"
      by (cases "n < 24") (auto simp: bit_or_iff bit_and_iff bit_push_bit_iff bit_ucast_iff bit_drop_bit_eq
          bit_mask_iff bit_take_bit_iff)
  qed
  show "seg_limit e = take_bit 20 limit"
    unfolding e seg_limit_def gdt_entry_t.simps mask_numerals F0_eq
    by (rule bit_word_eqI)
      (unfold bit_or_iff bit_and_iff bit_push_bit_iff bit_ucast_iff bit_drop_bit_eq bit_mask_iff bit_take_bit_iff, auto)
  show "granularity e AND 0xF0 = gran AND 0xF0"
    unfolding e gdt_entry_t.simps F0_eq
    by (rule bit_word_eqI)
      (unfold bit_or_iff bit_and_iff bit_push_bit_iff bit_ucast_iff bit_drop_bit_eq bit_mask_iff, auto)
qed

lemma tss_base:
  assumes "num + 1 < length (gdt_entries s)"
  shows "sys_base (gdt_entries (set_tss_gate num base limit s) ! num)
    (gdt_entries (set_tss_gate num base limit s) ! (num + 1)) = base"
proof -
  let ?t = "set_gdt_gate num base limit 0x89 0 s"
  let ?e = "gdt_entries ?t ! num"
  have lo: "gdt_entries (set_tss_gate num base limit s) ! num = ?e"
    using assms by (simp add: set_tss_gate_def Let_def set_gdt_gate_def)
  have hi: "gdt_entries (set_tss_gate num base limit s) ! (num + 1) =
     \<lparr>limit_low = ucast (drop_bit 32 base AND mask 16), base_low = ucast (drop_bit 16 (drop_bit 32 base) AND mask 16),
      base_middle = ucast (drop_bit 32 (drop_bit 32 base) AND mask 8), gdt_access = 0, granularity = 0, base_high = 0\<rparr>"
    using assms by (simp add: set_tss_gate_def Let_def set_gdt_gate_def mask_numerals)
  have "seg_base ?e = take_bit 32 base" by (rule seg_fields(1) [of num s]) (use assms in auto)
  moreover have "take_bit 32 base OR push_bit 32 (ucast (ucast (drop_bit 32 base AND mask 16) :: u16)) OR
      push_bit 48 (ucast (ucast (drop_bit 16 (drop_bit 32 base) AND mask 16) :: u16)) = base"
  proof (rule bit_word_eqI)
    fix n assume n: "n < LENGTH(64)"
    show "bit (take_bit 32 base OR push_bit 32 (ucast (ucast (drop_bit 32 base AND mask 16) :: u16)) OR
      push_bit 48 (ucast (ucast (drop_bit 16 (drop_bit 32 base) AND mask 16) :: u16))) n = bit base n"
      using n unfolding bit_or_iff bit_and_iff bit_push_bit_iff bit_ucast_iff bit_drop_bit_eq bit_mask_iff bit_take_bit_iff
      by (cases "n < 32"; cases "n < 48") auto
  qed
  ultimately show ?thesis unfolding lo hi sys_base_def by simp
qed

section \<open>Properties\<close>

text \<open>
  A segment descriptor written by \<^verbatim>\<open>set_gdt_gate\<close> reads back as the low 32 bits of the base, the
  low 20 bits of the limit, the access byte and the flag nibble that were given; the pair of slots
  written by \<^verbatim>\<open>set_tss_gate\<close> reads back as the whole 64-bit base of the task state segment.
\<close>

lemma gdt_descriptor_roundtrip:
  assumes "num + 1 < length (gdt_entries s)"
  shows "(let e = gdt_entries (set_gdt_gate num base limit acc gran s) ! num
     in seg_base e = take_bit 32 base \<and> seg_limit e = take_bit 20 limit \<and> gdt_access e = acc \<and>
        granularity e AND 0xF0 = gran AND 0xF0) \<and>
    (let es = gdt_entries (set_tss_gate num base limit s) in sys_base (es ! num) (es ! (num + 1)) = base)"
  using seg_fields [OF _ refl, of num s base limit acc gran] tss_base [OF assms, of base limit] assms
  unfolding Let_def by simp

text \<open>
  C31: The table that \<^verbatim>\<open>init_gdt\<close> loads gives each selector of the kernel the segment the rest of the
  kernel relies on: 0x08 and 0x10 are ring-0 code and data, 0x23 and 0x1B are ring-3 code and data
  with matching privilege level, the code segments are 64-bit, and 0x28 is the task state segment.
\<close>

theorem init_gdt_selectors:
  assumes "length (gdt_entries s) = 7"
  shows "let s' = init_gdt s in
    gdtr s' = \<lparr>gdt_limit = 55, gdt_base = gdt_entries_addr s\<rparr> \<and> task_register s' = 0x28 \<and>
    (\<forall>sel \<in> {0x08, 0x10, 0x1B, 0x23}. seg_present (selected sel s') \<and> seg_dpl (selected sel s') = sel_rpl sel) \<and>
    (\<forall>sel \<in> {0x08, 0x23}. seg_code (selected sel s') \<and> seg_long (selected sel s')) \<and>
    (\<forall>sel \<in> {0x10, 0x1B}. seg_data (selected sel s')) \<and>
    seg_tss (selected 0x28 s') \<and> seg_limit (selected 0x28 s') = 103 \<and>
    sys_base (gdt_entries s' ! 5) (gdt_entries s' ! 6) = tss_entry_addr s"
proof -
  obtain a b c d e f g where s: "gdt_entries s = [a, b, c, d, e, f, g]"
    using assms by (auto simp: length_Suc_conv numeral_eq_Suc)
  obtain t where t: "init_gdt s = tss_flush (gdt_flush (set_tss_gate 5 (tss_entry_addr s) 103 t))"
    "length (gdt_entries t) = 7"
    by (rule that [of "(set_gdt_gate 4 0 0xFFFFF 0xFA 0x20 (set_gdt_gate 3 0 0xFFFFF 0xF2 0x00
        (set_gdt_gate 2 0 0xFFFFF 0x92 0x00 (set_gdt_gate 1 0 0xFFFFF 0x9A 0x20 (set_gdt_gate 0 0 0 0 0
        (s\<lparr>gdt_ptr := \<lparr>gdt_limit = 55, gdt_base = gdt_entries_addr s\<rparr>\<rparr>))))))
        \<lparr>tss_entry := zero_tss\<lparr>iomap_base := 104\<rparr>\<rparr>"])
      (simp_all add: init_gdt_def Let_def set_gdt_gate_def sizeof_gdt_entry_def sizeof_tss_entry_def assms)
  have base: "sys_base (gdt_entries (init_gdt s) ! 5) (gdt_entries (init_gdt s) ! 6) = tss_entry_addr s"
    using tss_base [of 5 t "tss_entry_addr s" 103] t by (simp add: gdt_flush_def tss_flush_def)
  have lim: "seg_limit (gdt_entries (init_gdt s) ! 5) = 103"
    using seg_fields(2) [OF _ refl, of 5 t "tss_entry_addr s" 103 "0x89" 0] t
    by (simp add: gdt_flush_def tss_flush_def set_tss_gate_def Let_def set_gdt_gate_def seg_limit_def)
  have regs: "gdtr (init_gdt s) = \<lparr>gdt_limit = 55, gdt_base = gdt_entries_addr s\<rparr>" "task_register (init_gdt s) = 0x28"
    by (simp_all add: init_gdt_def Let_def gdt_flush_def tss_flush_def set_gdt_gate_def set_tss_gate_def
        sizeof_gdt_entry_def)
  have acc: "map gdt_access (gdt_entries (init_gdt s)) = [0, 0x9A, 0x92, 0xF2, 0xFA, 0x89, 0]"
    and gran: "map granularity (take 5 (gdt_entries (init_gdt s))) = [0, 0x2F, 0x0F, 0x0F, 0x2F]"
    by (simp_all add: init_gdt_def Let_def gdt_flush_def tss_flush_def set_gdt_gate_def set_tss_gate_def s)
  have "length (gdt_entries (init_gdt s)) = 7" using arg_cong [OF acc, of length] by simp
  then obtain e0 e1 e2 e3 e4 e5 e6 where es: "gdt_entries (init_gdt s) = [e0, e1, e2, e3, e4, e5, e6]"
    by (auto simp: length_Suc_conv numeral_eq_Suc)
  then have "gdt_access e1 = 0x9A" "gdt_access e2 = 0x92" "gdt_access e3 = 0xF2" "gdt_access e4 = 0xFA"
    "gdt_access e5 = 0x89" "granularity e1 = 0x2F" "granularity e4 = 0x2F"
    using acc gran by simp_all
  then show ?thesis using base lim regs
    by (simp add: Let_def es selected_def sel_rpl_def seg_present_def seg_dpl_def seg_code_def seg_data_def
        seg_long_def seg_tss_def)
qed

section \<open>Witnesses\<close>

definition gdt_machine :: gdt where
  "gdt_machine = vmm.extend page_machine
     (gdt.fields (replicate 7 \<lparr>limit_low = 0, base_low = 0, base_middle = 0, gdt_access = 0, granularity = 0, base_high = 0\<rparr>)
        \<lparr>gdt_limit = 0, gdt_base = 0\<rparr> zero_tss 0x9000 0x123456789abc \<lparr>gdt_limit = 0, gdt_base = 0\<rparr> 0)"

lemma gdt_machine_entries: "length (gdt_entries gdt_machine) = 7" "tss_entry_addr gdt_machine = 0x123456789abc"
  by (simp_all add: gdt_machine_def vmm.extend_def gdt.fields_def)

lemma gdt_descriptor_roundtrip_witness:
  "(let es = gdt_entries (set_tss_gate 5 0x123456789abc 103 gdt_machine)
    in sys_base (es ! 5) (es ! 6)) = 0x123456789abc"
  using gdt_descriptor_roundtrip [of 5 gdt_machine 0 0 0 0] gdt_descriptor_roundtrip [of 5 gdt_machine "0x123456789abc" 103 0 0]
  by (simp add: Let_def gdt_machine_entries)

theorem init_gdt_selectors_witness:
  "seg_dpl (selected 0x23 (init_gdt gdt_machine)) = 3 \<and> seg_code (selected 0x23 (init_gdt gdt_machine))"
  using init_gdt_selectors [OF gdt_machine_entries(1)] by (simp add: Let_def sel_rpl_def)

end
