(* ===== verification/Interrupt_Setup.thy ===== *)
theory Interrupt_Setup
  imports Gdt
begin

text \<open>
  The setting up of interrupts: the descriptor table of \<^verbatim>\<open>src/kernel/idt.c\<close>, the remapping of the
  interrupt controllers of \<^verbatim>\<open>src/kernel/pic.c\<close> and the interval timer of \<^verbatim>\<open>src/drivers/timer.c\<close>.
  The address of the table is fixed by the linker, the field \<open>idt_addr\<close>.
\<close>

record idt_gate_t =
  low_offset :: u16
  idt_sel :: u16
  ist :: u8
  idt_flags :: u8
  mid_offset :: u16
  high_offset :: u32
  idt_reserved :: u32

record idt_register_t =
  idt_limit :: u16
  idt_base :: u64

record interrupts = gdt +
  idt :: "idt_gate_t list"
  idt_reg :: idt_register_t
  idt_addr :: u64
  idtr :: idt_register_t
  tick :: u32

definition IDT_ENTRIES :: nat where "IDT_ENTRIES = 256"

section \<open>The interrupt descriptor table (idt.c)\<close>

definition set_idt_gate :: "nat \<Rightarrow> u64 \<Rightarrow> u8 \<Rightarrow> 'a interrupts_scheme \<Rightarrow> 'a interrupts_scheme" where
  "set_idt_gate n handler flags s =
     s\<lparr>idt := (idt s)[n :=
       \<lparr>low_offset = ucast handler, idt_sel = 0x08, ist = 0, idt_flags = flags,
        mid_offset = ucast (drop_bit 16 handler), high_offset = ucast (drop_bit 32 handler),
        idt_reserved = 0\<rparr>]\<rparr>"

text \<open>A gate takes 16 bytes; \<^verbatim>\<open>lidt\<close> loads the register from \<^verbatim>\<open>idt_reg\<close>.\<close>

definition sizeof_idt_gate :: nat where "sizeof_idt_gate = 2 + 2 + 1 + 1 + 2 + 4 + 4"

definition set_idt :: "'a interrupts_scheme \<Rightarrow> 'a interrupts_scheme" where
  "set_idt s =
     (let s = s\<lparr>idt_reg := (idt_reg s)\<lparr>idt_base := idt_addr s\<rparr>\<rparr>;
          s = s\<lparr>idt_reg := (idt_reg s)\<lparr>idt_limit := of_nat (IDT_ENTRIES * sizeof_idt_gate - 1)\<rparr>\<rparr>
      in s\<lparr>idtr := idt_reg s\<rparr>)"

text \<open>The handler address that the CPU takes from a gate.\<close>

definition gate_offset :: "idt_gate_t \<Rightarrow> u64" where
  "gate_offset g = ucast (low_offset g) OR push_bit 16 (ucast (mid_offset g)) OR push_bit 32 (ucast (high_offset g))"

text \<open>The privilege level from which software may call a gate.\<close>

definition gate_dpl :: "idt_gate_t \<Rightarrow> nat" where
  "gate_dpl g = unat (drop_bit 5 (idt_flags g) AND 3)"

section \<open>The interrupt controllers (pic.c)\<close>

definition PIC1_COMMAND :: u16 where "PIC1_COMMAND = 0x20"
definition PIC1_DATA :: u16 where "PIC1_DATA = 0x21"
definition PIC2_COMMAND :: u16 where "PIC2_COMMAND = 0xA0"
definition PIC2_DATA :: u16 where "PIC2_DATA = 0xA1"
definition ICW1_INIT :: u8 where "ICW1_INIT = 0x11"
definition ICW4_8086 :: u8 where "ICW4_8086 = 0x01"

definition pic_remap :: "'a machine_scheme \<Rightarrow> 'a machine_scheme" where
  "pic_remap s =
     (let (a1, s) = inb PIC1_DATA s;
          (a2, s) = inb PIC2_DATA s;
          s = outb PIC1_COMMAND ICW1_INIT s;
          s = outb PIC2_COMMAND ICW1_INIT s;
          s = outb PIC1_DATA 0x20 s;
          s = outb PIC2_DATA 0x28 s;
          s = outb PIC1_DATA 0x04 s;
          s = outb PIC2_DATA 0x02 s;
          s = outb PIC1_DATA ICW4_8086 s;
          s = outb PIC2_DATA ICW4_8086 s;
          s = outb PIC1_DATA 0xff s
      in outb PIC2_DATA 0xff s)"

text \<open>
  The programming interface of one controller: a command with bit 4 starts the initialisation, and
  the next three data bytes are the vector offset, the cascade setting and the mode; every other
  data byte is the interrupt mask.
\<close>

datatype pic_phase = PicReady | PicICW2 | PicICW3 | PicICW4

record pic =
  pic_phase :: pic_phase
  pic_vector :: u8
  pic_cascade :: u8
  pic_mode :: u8
  pic_mask :: u8

definition pic_command :: "u8 \<Rightarrow> pic \<Rightarrow> pic" where
  "pic_command v p = (if bit v 4 then p\<lparr>pic_phase := PicICW2\<rparr> else p)"

definition pic_data :: "u8 \<Rightarrow> pic \<Rightarrow> pic" where
  "pic_data v p =
     (case pic_phase p of
        PicReady \<Rightarrow> p\<lparr>pic_mask := v\<rparr>
      | PicICW2 \<Rightarrow> p\<lparr>pic_vector := v, pic_phase := PicICW3\<rparr>
      | PicICW3 \<Rightarrow> p\<lparr>pic_cascade := v, pic_phase := PicICW4\<rparr>
      | PicICW4 \<Rightarrow> p\<lparr>pic_mode := v, pic_phase := PicReady\<rparr>)"

fun pic_state :: "u16 \<Rightarrow> u16 \<Rightarrow> pic \<Rightarrow> io_event list \<Rightarrow> pic" where
  "pic_state cmd dat p [] = p"
| "pic_state cmd dat p (OutB port v # h) =
     (let q = pic_state cmd dat p h
      in if port = cmd then pic_command v q else if port = dat then pic_data v q else q)"
| "pic_state cmd dat p (_ # h) = pic_state cmd dat p h"

section \<open>The interval timer (timer.c)\<close>

text \<open>\<open>None\<close> is the division by zero, which stops the CPU with an exception.\<close>

definition init_timer :: "u32 \<Rightarrow> 'a machine_scheme \<Rightarrow> 'a machine_scheme option" where
  "init_timer freq s =
     (if freq = 0 then None
      else
        let divisor = 1193180 div freq;
            low = ucast (divisor AND 0xff);
            high = ucast (drop_bit 8 divisor AND 0xff);
            s = outb 0x43 0x36 s;
            s = outb 0x40 low s;
            s = outb 0x40 high s
        in Some (kprint (chars ''Timer initialized.'' @ [10]) s))"

definition timer_handler :: "'a interrupts_scheme \<Rightarrow> 'a interrupts_scheme" where
  "timer_handler s = s\<lparr>tick := tick s + 1\<rparr>"

text \<open>
  Channel 0 of the timer: the control word 0x36 makes the next two bytes of port 0x40 the low and
  the high byte of the counter; the value 0 stands for 65536.
\<close>

datatype pit = PitIdle | PitLow | PitHigh u8 | PitCount u16

fun pit_step :: "io_event \<Rightarrow> pit \<Rightarrow> pit" where
  "pit_step (OutB port v) p =
     (if port = 0x43 then (if v = 0x36 then PitLow else PitIdle)
      else if port = 0x40 then
        (case p of PitLow \<Rightarrow> PitHigh v | PitHigh l \<Rightarrow> PitCount (ucast l OR push_bit 8 (ucast v)) | _ \<Rightarrow> p)
      else p)"
| "pit_step _ p = p"

definition pit_state :: "io_event list \<Rightarrow> pit" where
  "pit_state h = foldr pit_step h PitIdle"

definition pit_period :: "u16 \<Rightarrow> nat" where
  "pit_period c = (if c = 0 then 65536 else unat c)"

section \<open>Properties\<close>

lemma gate_offset_handler:
  "ucast (ucast h :: u16) OR push_bit 16 (ucast (ucast (drop_bit 16 h) :: u16)) OR
     push_bit 32 (ucast (ucast (drop_bit 32 h) :: u32)) = (h :: u64)"
proof (rule bit_word_eqI)
  fix n assume "n < LENGTH(64)"
  then show "bit (ucast (ucast h :: u16) OR push_bit 16 (ucast (ucast (drop_bit 16 h) :: u16)) OR
     push_bit 32 (ucast (ucast (drop_bit 32 h) :: u32)) :: u64) n = bit h n"
    unfolding bit_or_iff bit_push_bit_iff bit_ucast_iff bit_drop_bit_eq
    by (cases "n < 16"; cases "n < 32") auto
qed

text \<open>
  A gate written by \<^verbatim>\<open>set_idt_gate\<close> gives the CPU the whole 64-bit address of the handler, in the
  kernel code segment and with the given flags; no other gate changes.
\<close>

lemma idt_gate_roundtrip:
  assumes "n < length (idt s)"
  shows "let s' = set_idt_gate n handler flags s in
    gate_offset (idt s' ! n) = handler \<and> idt_sel (idt s' ! n) = 0x08 \<and> idt_flags (idt s' ! n) = flags \<and>
    (\<forall>m. m \<noteq> n \<longrightarrow> idt s' ! m = idt s ! m) \<and> length (idt s') = length (idt s)"
  using assms by (simp add: Let_def set_idt_gate_def gate_offset_def gate_offset_handler)

text \<open>
  Whatever state the two controllers are in before, after \<^verbatim>\<open>pic_remap\<close> the first one delivers its
  interrupts from vector 0x20 on and the second one from 0x28 on, they are cascaded on line 2, in
  8086 mode, and every line is masked. In particular no line uses a vector of a CPU exception.
\<close>

lemma pic_remap_programs_controllers:
  "\<exists>h. io (pic_remap s) = h @ io s \<and>
     (let master = pic_state PIC1_COMMAND PIC1_DATA p h; slave = pic_state PIC2_COMMAND PIC2_DATA q h
      in pic_vector master = 0x20 \<and> pic_vector slave = 0x28 \<and> pic_cascade master = 0x04 \<and>
         pic_cascade slave = 0x02 \<and> pic_mode master = 0x01 \<and> pic_mode slave = 0x01 \<and>
         pic_mask master = 0xff \<and> pic_mask slave = 0xff \<and>
         pic_phase master = PicReady \<and> pic_phase slave = PicReady)"
  by (simp add: pic_remap_def inb_def outb_def Let_def pic_command_def pic_data_def PIC1_COMMAND_def PIC1_DATA_def
      PIC2_COMMAND_def PIC2_DATA_def ICW1_INIT_def ICW4_8086_def)

lemma pit_state_other:
  "(\<And>e. e \<in> set h \<Longrightarrow> event_port e \<notin> {0x40, 0x43}) \<Longrightarrow> pit_state (h @ h') = pit_state h'"
proof (induction h)
  case (Cons e h)
  then have "pit_state (h @ h') = pit_state h'" and "event_port e \<noteq> 0x40" "event_port e \<noteq> 0x43" by force+
  then show ?case by (cases e) (simp_all add: pit_state_def)
qed (simp add: pit_state_def)

lemma pit_count_bytes:
  "ucast (ucast (d AND 0xff :: u32) :: u8) OR push_bit 8 (ucast (ucast (drop_bit 8 d AND 0xff) :: u8)) = (ucast d :: u16)"
proof (rule bit_word_eqI)
  fix n assume n: "n < LENGTH(16)"
  have m: "(0xff :: u32) = mask 8" by (simp add: mask_eq_exp_minus_1)
  show "bit (ucast (ucast (d AND 0xff) :: u8) OR push_bit 8 (ucast (ucast (drop_bit 8 d AND 0xff) :: u8)) :: u16) n
      = bit (ucast d :: u16) n"
    using n unfolding m bit_or_iff bit_and_iff bit_push_bit_iff bit_ucast_iff bit_drop_bit_eq bit_mask_iff
    by (cases "n < 8") auto
qed

text \<open>
  C32: \<^verbatim>\<open>init_timer\<close> divides by zero exactly for the frequency 0. Otherwise it loads the counter of
  channel 0 with \<^verbatim>\<open>1193180 / freq\<close> modulo 65536, so the period is right for every frequency from
  19 Hz up to the clock rate, and wrong for lower ones.
\<close>

theorem init_timer_period:
  "case init_timer freq s of
     None \<Rightarrow> freq = 0
   | Some s' \<Rightarrow> freq \<noteq> 0 \<and>
       (\<exists>c. pit_state (io s') = PitCount c \<and> unat c = 1193180 div unat freq mod 65536 \<and>
          (pit_period c = 1193180 div unat freq \<longleftrightarrow> 19 \<le> unat freq \<and> unat freq \<le> 1193180))"
proof (cases "freq = 0")
  case True
  then show ?thesis by (simp add: init_timer_def)
next
  case False
  define d where "d = 1193180 div freq"
  define t where "t = outb 0x40 (ucast (drop_bit 8 d AND 0xff)) (outb 0x40 (ucast (d AND 0xff)) (outb 0x43 0x36 s))"
  have init: "init_timer freq s = Some (kprint (chars ''Timer initialized.'' @ [10]) t)"
    using False by (simp add: init_timer_def t_def d_def Let_def)
  obtain h where h: "io (kprint (chars ''Timer initialized.'' @ [10]) t) = h @ io t"
    "\<And>e. e \<in> set h \<Longrightarrow> event_port e \<in> crtc_ports"
    using kprint_ports [of t] unfolding on_ports_def by blast
  have "pit_state (h @ io t) = pit_state (io t)"
    by (rule pit_state_other) (use h(2) in \<open>force simp: screen_consts\<close>)
  also have "\<dots> = PitCount (ucast d)"
    unfolding pit_count_bytes [of d, symmetric] by (simp add: t_def pit_state_def outb_def)
  finally have c: "pit_state (io (kprint (chars ''Timer initialized.'' @ [10]) t)) = PitCount (ucast d)"
    using h(1) by simp
  define n where "n = unat freq"
  have n0: "n \<noteq> 0" using False by (simp add: n_def unat_eq_zero)
  have ud: "unat d = 1193180 div n" by (simp add: d_def unat_div n_def)
  have uc: "unat (ucast d :: u16) = 1193180 div n mod 65536"
    by (simp add: unsigned_ucast_eq take_bit_eq_mod ud)
  define D where "D = 1193180 div n"
  have zero: "ucast d = (0 :: u16) \<longleftrightarrow> D mod 65536 = 0"
    using uc unfolding D_def by (metis unat_eq_zero)
  have D: "(n \<le> 18 \<longrightarrow> 66287 \<le> D) \<and> (19 \<le> n \<longrightarrow> D \<le> 62798) \<and> (D = 0 \<longleftrightarrow> 1193180 < n)"
    using n0 div_le_mono2 [of n 18 1193180] div_le_mono2 [of 19 n 1193180]
    by (auto simp: D_def div_eq_0_iff)
  have "D mod 65536 < D" if "65536 \<le> D" using that mod_less_divisor [of 65536 D] by linarith
  then have "pit_period (ucast d) = D \<longleftrightarrow> 19 \<le> n \<and> n \<le> 1193180"
    using D uc zero unfolding pit_period_def D_def [symmetric] by (cases "19 \<le> n") auto
  then show ?thesis using False c uc unfolding init by (simp add: D_def n_def)
qed

section \<open>Witnesses\<close>

definition idt_machine :: interrupts where
  "idt_machine = gdt.extend gdt_machine
     (interrupts.fields (replicate 256 \<lparr>low_offset = 0, idt_sel = 0, ist = 0, idt_flags = 0, mid_offset = 0,
        high_offset = 0, idt_reserved = 0\<rparr>) \<lparr>idt_limit = 0, idt_base = 0\<rparr> 0x8000 \<lparr>idt_limit = 0, idt_base = 0\<rparr> 0)"

lemma idt_machine_entries: "length (idt idt_machine) = 256"
  by (simp add: idt_machine_def gdt.extend_def interrupts.fields_def)

lemma idt_gate_roundtrip_witness:
  "gate_offset (idt (set_idt_gate 128 0xffff800000101234 0xee idt_machine) ! 128) = 0xffff800000101234"
  using idt_gate_roundtrip [of 128 idt_machine] by (simp add: Let_def idt_machine_entries)

theorem init_timer_period_witness:
  "\<exists>s' c. init_timer 50 idt_machine = Some s' \<and> pit_state (io s') = PitCount c \<and> unat c = 23863"
  using init_timer_period [of 50 idt_machine] by (auto split: option.splits)

end
