(* ===== verification/Process.thy ===== *)
theory Process
  imports Interrupt_Setup
begin

text \<open>
  Processes and the scheduler of \<^verbatim>\<open>src/kernel/process/process.c\<close>: a table of sixteen process control
  blocks, the creation of kernel and user processes with their first trap frame, and the
  round-robin switch. \<^verbatim>\<open>kill_current_process\<close>, which prints the shell prompt, is in the theory of the
  interrupt handler.
\<close>

datatype process_state_t = PROCESS_READY | PROCESS_RUNNING | PROCESS_WAITING | PROCESS_DEAD

record process_t =
  proc_rsp :: u64
  pid :: u64
  proc_state :: process_state_t
  stack_base :: u64
  kernel_stack_base :: u64
  kernel_stack_top :: u64
  pml4 :: u64

record process = interrupts +
  processes :: "process_t list"
  current_pid :: int
  process_count :: int

definition MAX_PROCESSES :: int where "MAX_PROCESSES = 16"
definition STACK_SIZE :: u64 where "STACK_SIZE = 4096"

section \<open>The operations of process.c\<close>

text \<open>\<^verbatim>\<open>processes[i]\<close> for an index in range, and an assignment to its fields.\<close>

definition proc :: "int \<Rightarrow> 'a process_scheme \<Rightarrow> process_t" where
  "proc i s = processes s ! nat i"

definition set_proc :: "int \<Rightarrow> (process_t \<Rightarrow> process_t) \<Rightarrow> 'a process_scheme \<Rightarrow> 'a process_scheme" where
  "set_proc i f s = s\<lparr>processes := (processes s)[nat i := f (proc i s)]\<rparr>"

definition init_multitasking :: "'a process_scheme \<Rightarrow> 'a process_scheme" where
  "init_multitasking s =
     (let s = fold (\<lambda>i. set_proc i (\<lambda>p. p\<lparr>proc_state := PROCESS_WAITING\<rparr>)) [0..MAX_PROCESSES - 1] s;
          s = set_proc 0 (\<lambda>p. p\<lparr>pid := 0\<rparr>) s;
          s = set_proc 0 (\<lambda>p. p\<lparr>proc_state := PROCESS_RUNNING\<rparr>) s;
          s = s\<lparr>process_count := 1\<rparr>;
          s = s\<lparr>current_pid := 0\<rparr>
      in kprint (chars ''Multitasking Initialized.'' @ [10]) s)"

text \<open>\<^verbatim>\<open>rsp -= 8; *((uint64_t*)rsp) = v;\<close>\<close>

definition push :: "u64 \<Rightarrow> u64 \<times> 'a machine_scheme \<Rightarrow> u64 \<times> 'a machine_scheme" where
  "push v = (\<lambda>(rsp, s). (rsp - 8, poke64 (rsp - 8) v s))"

definition announce :: "string \<Rightarrow> u64 \<Rightarrow> 'a machine_scheme \<Rightarrow> 'a machine_scheme" where
  "announce msg n s = kprint [10] (kprint_hex n (kprint (chars msg) s))"

definition create_kernel_process :: "u64 \<Rightarrow> 'a process_scheme \<Rightarrow> 'a process_scheme" where
  "create_kernel_process entry s =
     (if process_count s \<ge> MAX_PROCESSES then kprint (chars ''Max processes reached!'' @ [10]) s
      else
        let n = process_count s;
            s = set_proc n (\<lambda>p. p\<lparr>pid := word_of_int n, proc_state := PROCESS_READY\<rparr>) s;
            (stack, s) = pmm_alloc_block s;
            s = set_proc n (\<lambda>p. p\<lparr>stack_base := stack, kernel_stack_base := stack,
                  kernel_stack_top := stack + STACK_SIZE, pml4 := kernel_pml4 s\<rparr>) s;
            rsp = kernel_stack_top (proc n s);
            (rsp, s) = fold push [0x10, (rsp - 16) + 16, 0x202, 0x08, entry, 0, 0] (rsp, s);
            (rsp, s) = fold push (replicate 16 0) (rsp, s);
            s = set_proc n (\<lambda>p. p\<lparr>proc_rsp := rsp\<rparr>) s;
            s = s\<lparr>process_count := process_count s + 1\<rparr>
        in announce ''Created Kernel Process PID '' (pid (proc n s)) s)"

definition create_user_process :: "u64 \<Rightarrow> u64 \<Rightarrow> 'a process_scheme \<Rightarrow> 'a process_scheme" where
  "create_user_process entry pml4_phys_addr s =
     (if process_count s \<ge> MAX_PROCESSES then kprint (chars ''Max processes reached!'' @ [10]) s
      else
        let n = process_count s;
            s = set_proc n (\<lambda>p. p\<lparr>pid := word_of_int n, proc_state := PROCESS_READY\<rparr>) s;
            (user_stack, s) = pmm_alloc_block s
        in if user_stack = 0 then kprint (chars ''Proc Alloc Fail: User Stack'' @ [10]) s
           else
             let s = set_proc n (\<lambda>p. p\<lparr>stack_base := user_stack\<rparr>) s;
                 user_rsp = user_stack + STACK_SIZE;
                 (kernel_stack, s) = pmm_alloc_block s
             in if kernel_stack = 0 then kprint (chars ''Proc Alloc Fail: Kernel Stack'' @ [10]) s
                else
                  let s = set_proc n (\<lambda>p. p\<lparr>kernel_stack_base := kernel_stack,
                        kernel_stack_top := kernel_stack + STACK_SIZE, pml4 := pml4_phys_addr\<rparr>) s;
                      k_rsp = kernel_stack_top (proc n s);
                      (k_rsp, s) = fold push [0x1B, user_rsp, 0x202, 0x23, entry, 0, 0] (k_rsp, s);
                      (k_rsp, s) = fold push (replicate 16 0) (k_rsp, s);
                      s = set_proc n (\<lambda>p. p\<lparr>proc_rsp := k_rsp\<rparr>) s;
                      s = s\<lparr>process_count := process_count s + 1\<rparr>
                  in announce ''Created User Process PID '' (pid (proc n s)) s)"

text \<open>
  The search loop of \<^verbatim>\<open>schedule\<close>: the next process in cyclic order that is ready, or the current one
  after a full round; \<open>None\<close> is the early return after more than \<^verbatim>\<open>MAX_PROCESSES + 1\<close> rounds.
\<close>

function schedule_next :: "'a process_scheme \<Rightarrow> int \<Rightarrow> nat \<Rightarrow> int option" where
  "schedule_next s next loop_count =
     (let next = next + 1;
          next = (if next \<ge> process_count s then 0 else next);
          loop_count = loop_count + 1
      in if int loop_count > MAX_PROCESSES + 1 then None
         else if proc_state (proc next s) \<noteq> PROCESS_READY \<and> next \<noteq> current_pid s
         then schedule_next s next loop_count
         else Some next)"
  by pat_completeness auto
termination
  by (relation "measure (\<lambda>(s, next, loop_count). 18 - loop_count)") (auto simp: MAX_PROCESSES_def)

declare schedule_next.simps [simp del]

definition schedule_save :: "u64 \<Rightarrow> 'a process_scheme \<Rightarrow> 'a process_scheme" where
  "schedule_save current_rsp s =
     (if proc_state (proc (current_pid s) s) \<noteq> PROCESS_DEAD then
        let s = set_proc (current_pid s) (\<lambda>p. p\<lparr>proc_rsp := current_rsp\<rparr>) s
        in if proc_state (proc (current_pid s) s) = PROCESS_RUNNING
           then set_proc (current_pid s) (\<lambda>p. p\<lparr>proc_state := PROCESS_READY\<rparr>) s else s
      else s)"

definition schedule_switch :: "int \<Rightarrow> 'a process_scheme \<Rightarrow> u64 \<times> 'a process_scheme" where
  "schedule_switch next s =
     (let s = s\<lparr>current_pid := next\<rparr>;
          s = set_proc (current_pid s) (\<lambda>p. p\<lparr>proc_state := PROCESS_RUNNING\<rparr>) s;
          s = (if pml4 (proc (current_pid s) s) \<noteq> 0 then vmm_switch_pml4 (pml4 (proc (current_pid s) s)) s else s);
          s = (if kernel_stack_top (proc (current_pid s) s) \<noteq> 0
               then set_tss_rsp0 (kernel_stack_top (proc (current_pid s) s)) s else s)
      in (proc_rsp (proc (current_pid s) s), s))"

text \<open>Outside the table the C code has no defined result: \<open>None\<close>.\<close>

definition schedule :: "u64 \<Rightarrow> 'a process_scheme \<Rightarrow> (u64 \<times> 'a process_scheme) option" where
  "schedule current_rsp s =
     (if current_pid s < 0 \<or> current_pid s \<ge> MAX_PROCESSES then None
      else
        let s = schedule_save current_rsp s
        in case schedule_next s (current_pid s) 0 of
             None \<Rightarrow> Some (current_rsp, s)
           | Some next \<Rightarrow>
               let next =
                 (if next = current_pid s \<and> proc_state (proc next s) \<noteq> PROCESS_READY \<and>
                     (proc_state (proc 0 s) = PROCESS_READY \<or> proc_state (proc 0 s) = PROCESS_RUNNING)
                  then 0 else next)
               in Some (schedule_switch next s))"

section \<open>The process table\<close>

definition proc_wf :: "'a process_scheme \<Rightarrow> bool" where
  "proc_wf s \<longleftrightarrow> length (processes s) = 16 \<and> 0 \<le> current_pid s \<and> current_pid s < process_count s \<and>
     process_count s \<le> MAX_PROCESSES \<and>
     proc_state (proc (current_pid s) s) \<in> {PROCESS_RUNNING, PROCESS_DEAD} \<and>
     (\<forall>i. 0 \<le> i \<longrightarrow> i < process_count s \<longrightarrow> i \<noteq> current_pid s \<longrightarrow> proc_state (proc i s) \<noteq> PROCESS_RUNNING)"

abbreviation in_table :: "'a process_scheme \<Rightarrow> int \<Rightarrow> bool" where
  "in_table s i \<equiv> 0 \<le> i \<and> i < int (length (processes s))"

lemma proc_set_proc [simp]:
  "in_table s i \<Longrightarrow> 0 \<le> j \<Longrightarrow> proc j (set_proc i f s) = (if j = i then f (proc i s) else proc j s)"
  by (auto simp: proc_def set_proc_def nth_list_update)

lemma set_proc_simps [simp]:
  "length (processes (set_proc i f s)) = length (processes s)"
  "current_pid (set_proc i f s) = current_pid s" "process_count (set_proc i f s) = process_count s"
  "mem (set_proc i f s) = mem s" "kernel_pml4 (set_proc i f s) = kernel_pml4 s" "cr3 (set_proc i f s) = cr3 s"
  "tss_entry (set_proc i f s) = tss_entry s"
  by (simp_all add: set_proc_def)

lemma proc_updates [simp]:
  "proc i (s\<lparr>current_pid := c\<rparr>) = proc i s" "proc i (s\<lparr>process_count := n\<rparr>) = proc i s"
  "proc i (vmm_switch_pml4 x s) = proc i s" "proc i (set_tss_rsp0 y s) = proc i s"
  by (simp_all add: proc_def vmm_switch_pml4_def load_cr3_def set_tss_rsp0_def)

lemma switch_simps [simp]:
  "current_pid (vmm_switch_pml4 x s) = current_pid s" "process_count (vmm_switch_pml4 x s) = process_count s"
  "processes (vmm_switch_pml4 x s) = processes s" "tss_entry (vmm_switch_pml4 x s) = tss_entry s"
  "mem (vmm_switch_pml4 x s) = mem s"
  "current_pid (set_tss_rsp0 y s) = current_pid s" "process_count (set_tss_rsp0 y s) = process_count s"
  "processes (set_tss_rsp0 y s) = processes s" "cr3 (set_tss_rsp0 y s) = cr3 s" "mem (set_tss_rsp0 y s) = mem s"
  by (simp_all add: vmm_switch_pml4_def load_cr3_def set_tss_rsp0_def)

section \<open>Round robin\<close>

text \<open>The process that comes \<open>k\<close> places after the current one.\<close>

definition after :: "'a process_scheme \<Rightarrow> nat \<Rightarrow> int" where
  "after s k = (current_pid s + int k) mod process_count s"

abbreviation ready :: "'a process_scheme \<Rightarrow> int \<Rightarrow> bool" where
  "ready s i \<equiv> proc_state (proc i s) = PROCESS_READY"

text \<open>How many places ahead the search of \<^verbatim>\<open>schedule\<close> goes.\<close>

definition turn :: "'a process_scheme \<Rightarrow> nat" where
  "turn s = (LEAST k. 0 < k \<and> (ready s (after s k) \<or> k = nat (process_count s)))"

lemma after_range: "0 < process_count s \<Longrightarrow> 0 \<le> after s k \<and> after s k < process_count s"
  by (simp add: after_def)

lemma after_0: "0 \<le> current_pid s \<Longrightarrow> current_pid s < process_count s \<Longrightarrow> after s 0 = current_pid s"
  by (simp add: after_def)

lemma after_full: "0 \<le> current_pid s \<Longrightarrow> current_pid s < process_count s \<Longrightarrow> after s (nat (process_count s)) = current_pid s"
  by (simp add: after_def)

lemma after_eq_current:
  assumes "0 \<le> current_pid s" "current_pid s < process_count s" "0 < k" "k < nat (process_count s)"
  shows "after s k \<noteq> current_pid s"
proof
  assume "after s k = current_pid s"
  then have "(current_pid s + int k) mod process_count s = current_pid s mod process_count s"
    using assms by (simp add: after_def)
  then have "process_count s dvd int k"
    by (metis add_diff_cancel_left' mod_eq_dvd_iff)
  with assms show False by (auto dest: zdvd_imp_le)
qed

lemma after_Suc:
  assumes "0 < process_count s"
  shows "after s (Suc k) = (if after s k + 1 \<ge> process_count s then 0 else after s k + 1)"
proof -
  let ?n = "process_count s"
  have "after s (Suc k) = (after s k + 1) mod ?n"
    by (simp add: after_def mod_simps add.commute add.left_commute)
  moreover have "0 \<le> after s k" "after s k < ?n" using after_range [OF assms] by auto
  moreover have "(after s k + 1) mod ?n = 0" if "after s k + 1 = ?n" using that by simp
  ultimately show ?thesis by (cases "after s k + 1 = ?n") auto
qed

lemma turn_facts:
  assumes "0 \<le> current_pid s" "current_pid s < process_count s"
  shows "0 < turn s" and "turn s \<le> nat (process_count s)"
    and "ready s (after s (turn s)) \<or> turn s = nat (process_count s)"
    and "0 < k \<Longrightarrow> k < turn s \<Longrightarrow> \<not> ready s (after s k)"
    and "0 < k \<Longrightarrow> ready s (after s k) \<Longrightarrow> turn s \<le> k"
proof -
  let ?P = "\<lambda>k. 0 < k \<and> (ready s (after s k) \<or> k = nat (process_count s))"
  have ex: "?P (nat (process_count s))" using assms by simp
  show "0 < turn s" "ready s (after s (turn s)) \<or> turn s = nat (process_count s)"
    using LeastI [of ?P, OF ex] unfolding turn_def by blast+
  show "turn s \<le> nat (process_count s)" unfolding turn_def by (rule Least_le [of ?P, OF ex])
  show "0 < k \<Longrightarrow> k < turn s \<Longrightarrow> \<not> ready s (after s k)" using not_less_Least [of k ?P] unfolding turn_def by blast
  show "0 < k \<Longrightarrow> ready s (after s k) \<Longrightarrow> turn s \<le> k" unfolding turn_def by (rule Least_le) simp
qed

lemma schedule_next_turn:
  assumes "0 \<le> current_pid s" "current_pid s < process_count s" "process_count s \<le> MAX_PROCESSES"
  shows "schedule_next s (current_pid s) 0 = Some (after s (turn s))"
proof -
  note f = turn_facts [OF assms(1,2)]
  have pos: "0 < process_count s" using assms by simp
  have "schedule_next s (after s k) k = Some (after s (turn s))" if "k < turn s" for k
    using that
  proof (induction "turn s - k" arbitrary: k)
    case 0
    then show ?case by simp
  next
    case (Suc d)
    have "k < nat (process_count s)" using Suc.prems f(2) by simp
    then have small: "\<not> int (k + 1) > MAX_PROCESSES + 1" using assms(3) by (simp add: MAX_PROCESSES_def)
    have step: "schedule_next s (after s k) k =
      (if \<not> ready s (after s (Suc k)) \<and> after s (Suc k) \<noteq> current_pid s
       then schedule_next s (after s (Suc k)) (Suc k) else Some (after s (Suc k)))"
      using small by (subst schedule_next.simps) (simp add: Let_def after_Suc [OF pos])
    show ?case
    proof (cases "Suc k = turn s")
      case True
      then show ?thesis using step f(3) after_full [OF assms(1,2)] by auto
    next
      case False
      then have k: "Suc k < turn s" using Suc.prems by simp
      then have "\<not> ready s (after s (Suc k))" "after s (Suc k) \<noteq> current_pid s"
        using f(4) [of "Suc k"] after_eq_current [OF assms(1,2), of "Suc k"] f(2) by auto
      then show ?thesis using step Suc.hyps(1) [of "Suc k"] Suc.hyps(2) k by simp
    qed
  qed
  from this [of 0] f(1) after_0 [OF assms(1,2)] show ?thesis by simp
qed

lemma schedule_save_facts:
  assumes "proc_wf s"
  shows "current_pid (schedule_save r s) = current_pid s" "process_count (schedule_save r s) = process_count s"
    "length (processes (schedule_save r s)) = 16"
    "0 \<le> j \<Longrightarrow> proc j (schedule_save r s) =
      (if j = current_pid s \<and> proc_state (proc j s) = PROCESS_RUNNING
       then (proc j s)\<lparr>proc_rsp := r, proc_state := PROCESS_READY\<rparr> else proc j s)"
    "cr3 (schedule_save r s) = cr3 s" "tss_entry (schedule_save r s) = tss_entry s" "mem (schedule_save r s) = mem s"
  using assms by (auto simp: schedule_save_def proc_wf_def Let_def MAX_PROCESSES_def)

text \<open>The process that runs next: the first ready one in cyclic order, else the shell when it is usable.\<close>

definition successor :: "'a process_scheme \<Rightarrow> int" where
  "successor t =
     (let i = after t (turn t) in
      if i = current_pid t \<and> \<not> ready t i \<and> proc_state (proc 0 t) \<in> {PROCESS_READY, PROCESS_RUNNING} then 0 else i)"

lemma schedule_eq:
  assumes "proc_wf s"
  shows "schedule r s = Some (schedule_switch (successor (schedule_save r s)) (schedule_save r s))"
proof -
  note sv = schedule_save_facts [OF assms, where r = r]
  have "0 \<le> current_pid s" "current_pid s < MAX_PROCESSES" using assms by (auto simp: proc_wf_def)
  moreover have "schedule_next (schedule_save r s) (current_pid s) 0
      = Some (after (schedule_save r s) (turn (schedule_save r s)))"
    using schedule_next_turn [of "schedule_save r s"] sv assms by (simp add: proc_wf_def)
  ultimately show ?thesis by (simp add: schedule_def Let_def sv successor_def)
qed

lemma schedule_switch_facts:
  assumes "0 \<le> i" "i < 16" "length (processes t) = 16"
  shows "fst (schedule_switch i t) = proc_rsp (proc i t)"
    and "current_pid (snd (schedule_switch i t)) = i"
    and "process_count (snd (schedule_switch i t)) = process_count t"
    and "length (processes (snd (schedule_switch i t))) = 16"
    and "0 \<le> j \<Longrightarrow> proc j (snd (schedule_switch i t)) =
      (if j = i then (proc i t)\<lparr>proc_state := PROCESS_RUNNING\<rparr> else proc j t)"
    and "cr3 (snd (schedule_switch i t)) = (if pml4 (proc i t) \<noteq> 0 then pml4 (proc i t) else cr3 t)"
    and "rsp0 (tss_entry (snd (schedule_switch i t))) =
      (if kernel_stack_top (proc i t) \<noteq> 0 then kernel_stack_top (proc i t) else rsp0 (tss_entry t))"
    and "mem (snd (schedule_switch i t)) = mem t"
proof -
  have s: "cr3 (vmm_switch_pml4 x u) = x" "rsp0 (tss_entry (set_tss_rsp0 x u)) = x" for x and u :: "'a process_scheme"
    by (simp_all add: vmm_switch_pml4_def load_cr3_def set_tss_rsp0_def)
  show "fst (schedule_switch i t) = proc_rsp (proc i t)"
    "current_pid (snd (schedule_switch i t)) = i"
    "process_count (snd (schedule_switch i t)) = process_count t"
    "length (processes (snd (schedule_switch i t))) = 16"
    "0 \<le> j \<Longrightarrow> proc j (snd (schedule_switch i t)) =
      (if j = i then (proc i t)\<lparr>proc_state := PROCESS_RUNNING\<rparr> else proc j t)"
    "cr3 (snd (schedule_switch i t)) = (if pml4 (proc i t) \<noteq> 0 then pml4 (proc i t) else cr3 t)"
    "rsp0 (tss_entry (snd (schedule_switch i t))) =
      (if kernel_stack_top (proc i t) \<noteq> 0 then kernel_stack_top (proc i t) else rsp0 (tss_entry t))"
    "mem (snd (schedule_switch i t)) = mem t"
    using assms by (simp_all add: schedule_switch_def Let_def s)
qed

text \<open>How far ahead in cyclic order a process is; the current one is last.\<close>

definition ahead :: "'a process_scheme \<Rightarrow> int \<Rightarrow> nat" where
  "ahead s j = nat ((j - current_pid s - 1) mod process_count s)"

lemma after_ahead:
  assumes "0 \<le> j" "j < process_count s"
  shows "after s (Suc (ahead s j)) = j"
proof -
  let ?n = "process_count s" and ?c = "current_pid s"
  have "after s (Suc (ahead s j)) = (?c + 1 + (j - ?c - 1) mod ?n) mod ?n"
    using assms by (simp add: after_def ahead_def add.assoc)
  also have "\<dots> = (?c + 1 + (j - ?c - 1)) mod ?n" by (rule mod_add_right_eq)
  also have "\<dots> = j" using assms by simp
  finally show ?thesis .
qed

lemma ahead_after:
  assumes "0 < k" "k \<le> nat (process_count s)"
  shows "Suc (ahead s (after s k)) = k"
proof -
  have "(after s k - current_pid s - 1) mod process_count s = (int k - 1) mod process_count s"
    by (simp add: after_def mod_simps algebra_simps)
  also have "\<dots> = int k - 1" using assms by simp
  finally show ?thesis using assms by (simp add: ahead_def)
qed

definition runnable :: "'a process_scheme \<Rightarrow> int \<Rightarrow> bool" where
  "runnable s j \<longleftrightarrow> 0 \<le> j \<and> j < process_count s \<and>
     (ready s j \<or> j = current_pid s \<and> proc_state (proc j s) = PROCESS_RUNNING)"

lemma runnable_save:
  assumes "proc_wf s" "0 \<le> j" "j < process_count s"
  shows "ready (schedule_save r s) j \<longleftrightarrow> runnable s j"
  using assms by (auto simp: runnable_def schedule_save_facts(4) [OF assms(1)])

lemma after_save: "proc_wf s \<Longrightarrow> after (schedule_save r s) k = after s k"
  by (simp add: after_def schedule_save_facts)

text \<open>The successor is the runnable process that is closest ahead, when there is one.\<close>

lemma successor_closest:
  assumes wf: "proc_wf s" and ex: "runnable s j"
  shows "runnable s (successor (schedule_save r s))"
    and "runnable s j' \<Longrightarrow> ahead s (successor (schedule_save r s)) \<le> ahead s j'"
proof -
  let ?t = "schedule_save r s"
  have c: "0 \<le> current_pid ?t" "current_pid ?t < process_count ?t" and pos: "0 < process_count s"
    using wf schedule_save_facts [OF wf] by (auto simp: proc_wf_def)
  note f = turn_facts [OF c]
  have cnt: "process_count ?t = process_count s" by (simp add: schedule_save_facts [OF wf])
  have rdy: "ready ?t (after s k) = runnable s (after s k)" for k
    using runnable_save [OF wf] after_range [OF pos] by blast
  have le: "turn ?t \<le> Suc (ahead s i)" if "runnable s i" for i
  proof -
    have "after s (Suc (ahead s i)) = i" using that by (intro after_ahead) (auto simp: runnable_def)
    then show ?thesis using f(5) [of "Suc (ahead s i)"] that rdy [of "Suc (ahead s i)"] by (simp add: after_save [OF wf])
  qed
  have run: "runnable s (after s (turn ?t))"
  proof (rule ccontr)
    assume n: "\<not> runnable s (after s (turn ?t))"
    then have full: "turn ?t = nat (process_count s)" using f(3) rdy by (simp add: after_save [OF wf] cnt)
    have "Suc (ahead s j) \<le> nat (process_count s)"
      using pos by (simp add: ahead_def Suc_le_eq nat_less_iff)
    with le [OF ex] full have "Suc (ahead s j) = turn ?t" by simp
    then have "after s (turn ?t) = j" using after_ahead [of j s] ex by (auto simp: runnable_def)
    with n ex show False by simp
  qed
  then have "ready ?t (after s (turn ?t))" using rdy by blast
  then have succ: "successor ?t = after s (turn ?t)" by (simp add: successor_def Let_def after_save [OF wf])
  show "runnable s (successor ?t)" using succ run by simp
  show "runnable s j' \<Longrightarrow> ahead s (successor ?t) \<le> ahead s j'"
    using le [of j'] ahead_after [of "turn ?t" s] f(1,2) by (simp add: succ cnt)
qed

lemma successor_range:
  assumes "proc_wf s"
  shows "0 \<le> successor (schedule_save r s)" "successor (schedule_save r s) < process_count s"
proof -
  have pos: "0 < process_count s" using assms by (auto simp: proc_wf_def)
  from after_range [OF pos] pos show "0 \<le> successor (schedule_save r s)" "successor (schedule_save r s) < process_count s"
    by (auto simp: successor_def Let_def after_save [OF assms])
qed

lemma schedule_proc_wf:
  assumes wf: "proc_wf s" and call: "schedule r s = Some (r', s')"
  shows "proc_wf s'"
proof -
  let ?t = "schedule_save r s" and ?i = "successor (schedule_save r s)"
  note sv = schedule_save_facts [OF wf, where r = r]
  have i: "0 \<le> ?i" "?i < 16" "?i < process_count s"
    using successor_range [OF wf, where r = r] wf by (auto simp: proc_wf_def MAX_PROCESSES_def)
  note sw = schedule_switch_facts [OF i(1,2) sv(3)]
  have s': "s' = snd (schedule_switch ?i ?t)" using schedule_eq [OF wf, of r] call by (metis option.inject snd_conv)
  have "proc_state (proc j s') \<noteq> PROCESS_RUNNING" if "0 \<le> j" "j < process_count s" "j \<noteq> ?i" for j
    using that wf sw(5) [OF that(1)] sv(4) [OF that(1)] by (auto simp: s' proc_wf_def)
  then show ?thesis using wf i sw(2-4) sw(5) [OF i(1)] by (simp add: proc_wf_def s' sv)
qed

section \<open>Scheduling properties\<close>

lemma schedule_step:
  assumes wf: "proc_wf s" and "runnable s j"
  shows "\<exists>s' q. schedule r s = Some (proc_rsp (proc q s'), s') \<and> proc_wf s' \<and>
    process_count s' = process_count s \<and> current_pid s' = q \<and> runnable s q \<and> (\<forall>i. runnable s i \<longrightarrow> ahead s q \<le> ahead s i) \<and>
    proc_state (proc q s') = PROCESS_RUNNING \<and>
    proc_rsp (proc q s') = (if q = current_pid s then r else proc_rsp (proc q s)) \<and>
    (pml4 (proc q s) \<noteq> 0 \<longrightarrow> cr3 s' = pml4 (proc q s)) \<and>
    (kernel_stack_top (proc q s) \<noteq> 0 \<longrightarrow> rsp0 (tss_entry s') = kernel_stack_top (proc q s)) \<and>
    (proc_state (proc (current_pid s) s) = PROCESS_RUNNING \<longrightarrow> proc_rsp (proc (current_pid s) s') = r) \<and>
    (\<forall>i. 0 \<le> i \<longrightarrow> i \<noteq> current_pid s \<longrightarrow> i \<noteq> q \<longrightarrow> proc i s' = proc i s)"
proof -
  let ?t = "schedule_save r s" and ?i = "successor (schedule_save r s)"
  note sv = schedule_save_facts [OF wf, where r = r]
  have i: "0 \<le> ?i" "?i < 16" "?i < process_count s" and c: "0 \<le> current_pid s"
    using successor_range [OF wf, where r = r] wf by (auto simp: proc_wf_def MAX_PROCESSES_def)
  note sw = schedule_switch_facts [OF i(1,2) sv(3)]
  define s' where "s' = snd (schedule_switch ?i ?t)"
  have eq: "schedule r s = Some (proc_rsp (proc ?i s'), s')"
    using schedule_eq [OF wf, of r] sw(1) sw(5) [OF i(1)] by (simp add: s'_def prod_eq_iff)
  note close = successor_closest [OF wf assms(2), where r = r]
  have run: "?i = current_pid s \<Longrightarrow> proc_state (proc ?i s) = PROCESS_RUNNING"
    using close(1) wf by (auto simp: runnable_def proc_wf_def)
  have p: "proc k s' = (if k = ?i then (proc ?i ?t)\<lparr>proc_state := PROCESS_RUNNING\<rparr> else proc k ?t)" if "0 \<le> k" for k
    unfolding s'_def using sw(5) [OF that] .
  show ?thesis
    using eq schedule_proc_wf [OF wf eq] close p [OF i(1)] p [OF c] sv(4) [OF i(1)] sv(4) [OF c] sw(2,3,6,7) run p sv(2,4)
    by (intro exI [of _ s'] exI [of _ ?i]) (auto simp: s'_def [symmetric])
qed

text \<open>
  C6: On a well-formed process table \<^verbatim>\<open>schedule\<close> always returns and keeps the table well formed, so that
  exactly the current process is running. It saves the stack pointer of the interrupted process,
  makes the runnable process that comes first in cyclic order the running one, and returns its
  stack pointer, with its page tables in CR3 and its kernel stack in the task state segment. A dead
  process is not chosen as long as any process is runnable.
\<close>

theorem schedule_round_robin:
  assumes wf: "proc_wf s" and "runnable s j"
  shows "\<exists>s' q. schedule r s = Some (proc_rsp (proc q s'), s') \<and> proc_wf s' \<and>
    process_count s' = process_count s \<and> current_pid s' = q \<and> runnable s q \<and> (\<forall>i. runnable s i \<longrightarrow> ahead s q \<le> ahead s i) \<and>
    proc_state (proc q s') = PROCESS_RUNNING \<and>
    proc_rsp (proc q s') = (if q = current_pid s then r else proc_rsp (proc q s)) \<and>
    (pml4 (proc q s) \<noteq> 0 \<longrightarrow> cr3 s' = pml4 (proc q s)) \<and>
    (kernel_stack_top (proc q s) \<noteq> 0 \<longrightarrow> rsp0 (tss_entry s') = kernel_stack_top (proc q s)) \<and>
    (proc_state (proc (current_pid s) s) = PROCESS_RUNNING \<longrightarrow> proc_rsp (proc (current_pid s) s') = r) \<and>
    (\<forall>i. 0 \<le> i \<longrightarrow> i \<noteq> current_pid s \<longrightarrow> i \<noteq> q \<longrightarrow> proc i s' = proc i s)"
  by (rule schedule_step [OF assms])

primrec run_schedule :: "u64 list \<Rightarrow> 'a process_scheme \<Rightarrow> 'a process_scheme option" where
  "run_schedule [] s = Some s"
| "run_schedule (r # rs) s = (case schedule r s of None \<Rightarrow> None | Some (_, s) \<Rightarrow> run_schedule rs s)"

lemma ahead_less: "proc_wf s \<Longrightarrow> int (ahead s j) < process_count s"
  by (simp add: ahead_def proc_wf_def)

lemma ahead_shift:
  assumes "proc_wf s" "proc_wf s1" "process_count s1 = process_count s" "current_pid s1 = q'"
    and "0 \<le> q" "q < process_count s" "0 \<le> q'" "q' < process_count s" "ahead s q' < ahead s q"
  shows "ahead s1 q < ahead s q"
proof -
  let ?n = "process_count s"
  have h: "(current_pid s + int (Suc (ahead s q))) mod ?n = q" "(current_pid s + int (Suc (ahead s q'))) mod ?n = q'"
    using after_ahead [of q s] after_ahead [of q' s] assms by (simp_all add: after_def)
  have "(x mod n - y mod n - 1) mod n = (x - y - 1) mod n" for x y n :: int
    by (metis mod_diff_eq mod_diff_left_eq)
  then have "((c + int (Suc a)) mod n - (c + int (Suc a')) mod n - 1) mod n = (int a - int a' - 1) mod n" for c a a' n
    by simp
  from this [of "current_pid s" "ahead s q" ?n "ahead s q'", unfolded h]
  have "(q - q' - 1) mod ?n = (int (ahead s q) - int (ahead s q') - 1) mod ?n" .
  also have "\<dots> = int (ahead s q) - int (ahead s q') - 1"
    using assms(9) ahead_less [OF assms(1), of q] by simp
  finally show ?thesis using assms(3,4,9) by (simp add: ahead_def [of s1])
qed

lemma ready_gets_turn:
  assumes "proc_wf s" "ready s q" "0 \<le> q" "q < process_count s" "ahead s q < length rs"
  shows "\<exists>k \<le> Suc (ahead s q). \<exists>s'. run_schedule (take k rs) s = Some s' \<and> current_pid s' = q"
  using assms
proof (induction "ahead s q" arbitrary: s rs rule: less_induct)
  case less
  then obtain r rs' where rs: "rs = r # rs'" by (cases rs) auto
  have "runnable s q" using less.prems by (simp add: runnable_def)
  from schedule_step [OF less.prems(1) this, of r] obtain s1 q' v where
    s1: "schedule r s = Some (v, s1)" "proc_wf s1" "current_pid s1 = q'" "runnable s q'" "ahead s q' \<le> ahead s q"
      and cnt: "process_count s1 = process_count s" and same: "\<And>i. 0 \<le> i \<Longrightarrow> i \<noteq> current_pid s \<Longrightarrow> i \<noteq> q' \<Longrightarrow> proc i s1 = proc i s"
    using \<open>runnable s q\<close> by blast
  show ?case
  proof (cases "q' = q")
    case True
    then show ?thesis using s1 rs by (intro exI [of _ 1]) auto
  next
    case False
    have q': "0 \<le> q'" "q' < process_count s" using s1(4) by (auto simp: runnable_def)
    have "ahead s q' \<noteq> ahead s q"
      using False after_ahead [of q s] after_ahead [of q' s] q' less.prems by metis
    then have lt: "ahead s q' < ahead s q" using s1(5) by simp
    have qc: "q \<noteq> current_pid s" using less.prems by (auto simp: proc_wf_def)
    have r1: "ready s1 q" using same [OF less.prems(3) qc] False less.prems(2) by simp
    have sh: "ahead s1 q < ahead s q"
      by (rule ahead_shift [OF less.prems(1) s1(2) cnt s1(3) less.prems(3,4) q' lt])
    then have "ahead s1 q < length rs'" using less.prems(5) rs by simp
    from less.hyps [OF sh s1(2) r1 less.prems(3) _ this] less.prems(4) cnt
    obtain k s' where "k \<le> Suc (ahead s1 q)" "run_schedule (take k rs') s1 = Some s'" "current_pid s' = q" by auto
    then show ?thesis using s1(1) rs sh by (intro exI [of _ "Suc k"]) auto
  qed
qed

text \<open>
  C24: No ready process starves: whatever stack pointers the interrupted processes have, a process that
  is ready becomes the current one within as many scheduler calls as there are processes.
\<close>

theorem schedule_no_starvation:
  assumes "proc_wf s" and "0 \<le> q" "q < process_count s" and "ready s q"
    and "length rs = nat (process_count s)"
  shows "\<exists>k \<le> length rs. \<exists>s'. run_schedule (take k rs) s = Some s' \<and> current_pid s' = q"
proof -
  have "ahead s q < length rs" using ahead_less [OF assms(1), of q] assms(5) by simp
  with ready_gets_turn [OF assms(1,4,2,3) this] show ?thesis
    by (blast intro: order.trans [OF _ Suc_leI])
qed

text \<open>
  C37: When the current process is dead and nothing is runnable, \<^verbatim>\<open>schedule\<close> marks the dead process as
  running again and returns its old stack pointer.
\<close>

theorem schedule_resurrects_dead_process:
  assumes wf: "proc_wf s" and dead: "proc_state (proc (current_pid s) s) = PROCESS_DEAD"
    and none: "\<forall>i. \<not> runnable s i"
  shows "\<exists>s'. schedule r s = Some (proc_rsp (proc (current_pid s) s), s') \<and> current_pid s' = current_pid s \<and>
    proc_state (proc (current_pid s) s') = PROCESS_RUNNING"
proof -
  let ?t = "schedule_save r s" and ?c = "current_pid s"
  have t: "?t = s" using dead by (simp add: schedule_save_def)
  have c: "0 \<le> ?c" "?c < process_count s" "?c < 16" "length (processes s) = 16" "0 < process_count s"
    using wf by (auto simp: proc_wf_def MAX_PROCESSES_def)
  have nr: "\<not> ready s (after s k)" for k
    using none after_range [OF c(5), of k] by (auto simp: runnable_def)
  have "turn s = nat (process_count s)" using turn_facts(3) [OF c(1,2)] nr by blast
  then have "after s (turn s) = ?c" using after_full [OF c(1,2)] by simp
  moreover have "proc_state (proc 0 s) \<notin> {PROCESS_READY, PROCESS_RUNNING}"
    using none [rule_format, of 0] wf c(5) by (cases "?c = 0") (auto simp: runnable_def proc_wf_def)
  ultimately have "successor s = ?c" by (simp add: successor_def Let_def)
  then show ?thesis
    using schedule_eq [OF wf, of r] schedule_switch_facts(1,2) [OF c(1,3,4)] schedule_switch_facts(5) [OF c(1,3,4,1)]
    by (simp add: t prod_eq_iff)
qed

section \<open>Creating processes\<close>

lemma push_list:
  assumes "8 * length ws \<le> 2 ^ 64"
  shows "\<exists>s'. fold push ws (tp, s) = (tp - of_nat (8 * length ws), s') \<and>
     touches (region (tp - of_nat (8 * length ws)) (8 * length ws)) s s' \<and> io s' = io s \<and>
     (\<forall>i < length ws. read64 (mem s') (tp - of_nat (8 * length ws) + of_nat (8 * i)) = rev ws ! i)"
  using assms
proof (induction ws rule: rev_induct)
  case Nil
  then show ?case by simp
next
  case (snoc w ws)
  let ?n = "8 * length ws"
  let ?r = "tp - of_nat ?n - 8 :: u64"
  obtain s' where IH: "fold push ws (tp, s) = (tp - of_nat ?n, s')" "io s' = io s"
     "touches (region (tp - of_nat ?n) ?n) s s'"
     "\<forall>i < length ws. read64 (mem s') (tp - of_nat ?n + of_nat (8 * i)) = rev ws ! i"
    using snoc by auto
  have r: "tp - of_nat (8 * length (ws @ [w])) = ?r" "tp - of_nat ?n = ?r + of_nat 8"
    by (simp_all add: algebra_simps)
  have sub: "region (?r + of_nat 8) ?n \<subseteq> region ?r (8 * length (ws @ [w]))"
    "region ?r 8 \<subseteq> region ?r (8 * length (ws @ [w]))"
    by (rule region_sub, use snoc.prems in simp_all) (rule region_mono, simp)
  have "touches (region ?r (8 * length (ws @ [w]))) s (poke64 ?r w s')"
    using IH(3) sub by (simp only: r(2) [symmetric]) (blast intro: touches_trans touches_mono touches_poke64)
  moreover have "read64 (mem (poke64 ?r w s')) (?r + of_nat (8 * i)) = rev (ws @ [w]) ! i"
    if i: "i < length (ws @ [w])" for i
  proof (cases i)
    case 0
    then show ?thesis by (simp add: poke64_def read64_def write64_def load_store_same)
  next
    case (Suc j)
    have a: "?r + of_nat (8 * i) = tp - of_nat ?n + of_nat (8 * j)" by (simp add: Suc algebra_simps)
    have "region ?r 8 \<inter> region (?r + of_nat (8 * i)) 8 = {}"
      using region_offset_disjoint [of 0 8 "8 * i" 8 ?r] i snoc.prems by (simp add: Suc)
    then have "read64 (mem (poke64 ?r w s')) (?r + of_nat (8 * i)) = read64 (mem s') (?r + of_nat (8 * i))"
      by (simp add: poke64_def read64_def write64_def load_store_other)
    then show ?thesis using IH(4) i unfolding a by (simp add: Suc)
  qed
  moreover have "push w (tp - of_nat ?n, s') = (?r, poke64 ?r w s')" "io (poke64 ?r w s') = io s"
    using IH(2) by (simp_all add: push_def poke64_def)
  ultimately show ?case using IH(1) unfolding r(1) by auto
qed

lemma touches_process_vars:
  fixes s :: "'a process_scheme"
  assumes "touches A s s'"
  shows "processes s' = processes s" "current_pid s' = current_pid s" "process_count s' = process_count s"
    "kernel_pml4 s' = kernel_pml4 s"
proof -
  obtain m h where s': "s' = s\<lparr>mem := m, io := h\<rparr>" using touches_eq [OF assms] by metis
  show "processes s' = processes s" "current_pid s' = current_pid s" "process_count s' = process_count s"
    "kernel_pml4 s' = kernel_pml4 s" by (simp_all add: s')
qed

lemma touches_proc: "touches A s s' \<Longrightarrow> proc i s' = proc i s"
  by (simp add: proc_def touches_process_vars)

lemma pmm_set_proc [simp]:
  "pmm_wf (set_proc i f s) = pmm_wf s" "frames (set_proc i f s) = frames s"
  "free_frames (set_proc i f s) = free_frames s"
  by (simp_all add: set_proc_def pmm_wf_def frames_def free_frames_def free_blocks_def block_used_def)

lemma pmm_process_count [simp]:
  "pmm_wf (s\<lparr>process_count := n\<rparr>) = pmm_wf s" "frames (s\<lparr>process_count := n\<rparr>) = frames s"
  "free_frames (s\<lparr>process_count := n\<rparr>) = free_frames s"
  by (simp_all add: pmm_wf_def frames_def free_frames_def free_blocks_def block_used_def)

lemma announce_touches: "touches video_window s (announce msg n s)"
  unfolding announce_def by (blast intro: touches_trans kprint_touches kprint_hex_touches)

text \<open>The twenty-three words of a first trap frame, in the order in which the stack is popped.\<close>

definition first_frame :: "u64 \<Rightarrow> u64 \<Rightarrow> u64 \<Rightarrow> u64 \<Rightarrow> u64 list" where
  "first_frame entry cs rsp ss = replicate 18 0 @ [entry, cs, 0x202, rsp, ss]"

definition holds_words :: "u64 \<Rightarrow> u64 list \<Rightarrow> 'a machine_scheme \<Rightarrow> bool" where
  "holds_words a ws s \<longleftrightarrow> (\<forall>i < length ws. read64 (mem s) (a + of_nat (8 * i)) = ws ! i)"

lemma push_frame:
  obtains s' where
    "fold push (replicate 16 0) (fold push [ss, sp, 0x202, cs, entry, 0, 0] (tp, s)) = (tp - 184, s')"
    "touches (region (tp - 184) 184) s s'" "io s' = io s" "holds_words (tp - 184) (first_frame entry cs sp ss) s'"
proof -
  let ?ws = "[ss, sp, 0x202, cs, entry, 0, 0] @ replicate 16 0 :: u64 list"
  have l: "length ?ws = 23" and r: "rev ?ws = first_frame entry cs sp ss"
    by (simp_all add: first_frame_def numeral_eq_Suc)
  have lf: "length (first_frame entry cs sp ss) = 23" by (simp add: first_frame_def)
  have f: "fold push (replicate 16 0) (fold push [ss, sp, 0x202, cs, entry, 0, 0] (tp, s)) = fold push ?ws (tp, s)"
    by (simp only: fold_append o_apply)
  have "8 * length ?ws \<le> 2 ^ 64" unfolding l by simp
  from push_list [OF this, of tp s, unfolded l r] show ?thesis
    unfolding f by (auto simp: holds_words_def lf intro!: that)
qed

lemma holds_words_frame:
  assumes "holds_words a ws s" "touches A s s'" "A \<inter> region a (8 * length ws) = {}" "8 * length ws \<le> 2 ^ 64"
  shows "holds_words a ws s'"
  unfolding holds_words_def
proof (intro allI impI)
  fix i assume i: "i < length ws"
  have "region (a + of_nat (8 * i)) 8 \<subseteq> region a (8 * length ws)"
    by (rule region_sub) (use i assms(4) in auto)
  then have "read64 (mem s') (a + of_nat (8 * i)) = read64 (mem s) (a + of_nat (8 * i))"
    unfolding read64_def using assms(2,3) by (intro load_cong_region) (auto dest: touches_mem)
  with assms(1) i show "read64 (mem s') (a + of_nat (8 * i)) = ws ! i" by (simp add: holds_words_def)
qed

text \<open>What both creating functions do once the kernel stack is there.\<close>

definition enter_frame :: "string \<Rightarrow> int \<Rightarrow> (u64 \<Rightarrow> u64 list) \<Rightarrow> 'a process_scheme \<Rightarrow> 'a process_scheme" where
  "enter_frame msg n ws s =
     (let rsp = kernel_stack_top (proc n s);
          (rsp, s) = fold push (ws rsp) (rsp, s);
          (rsp, s) = fold push (replicate 16 0) (rsp, s);
          s = set_proc n (\<lambda>p. p\<lparr>proc_rsp := rsp\<rparr>) s;
          s = s\<lparr>process_count := process_count s + 1\<rparr>
      in announce msg (pid (proc n s)) s)"

lemma enter_frame_spec:
  fixes s :: "'a process_scheme"
  assumes n: "length (processes s) = 16" "0 \<le> n" "n < 16"
    and ws: "ws (kernel_stack_top (proc n s)) = [ss, sp, 0x202, cs, entry, 0, 0]"
    and area_def: "area = region (kernel_stack_top (proc n s) - 184) 184"
    and s'_def: "s' = enter_frame msg n ws s"
  shows "process_count s' = process_count s + 1" "current_pid s' = current_pid s" "length (processes s') = 16"
    "0 \<le> i \<Longrightarrow> proc i s' = (if i = n then (proc n s)\<lparr>proc_rsp := kernel_stack_top (proc n s) - 184\<rparr> else proc i s)"
    "area \<inter> video_window = {} \<Longrightarrow> holds_words (kernel_stack_top (proc n s) - 184) (first_frame entry cs sp ss) s'"
    "pmm_wf s \<Longrightarrow> area \<inter> bitmap_area = {} \<Longrightarrow> pmm_wf s' \<and> free_frames s' = free_frames s"
    "a \<notin> area \<union> video_window \<Longrightarrow> mem s' a = mem s a"
proof -
  let ?t = "kernel_stack_top (proc n s)"
  obtain s1 where f: "fold push (replicate 16 0) (fold push [ss, sp, 0x202, cs, entry, 0, 0] (?t, s)) = (?t - 184, s1)"
    "touches area s s1" "holds_words (?t - 184) (first_frame entry cs sp ss) s1"
    unfolding area_def by (rule push_frame)
  define s2 where "s2 = (set_proc n (\<lambda>p. p\<lparr>proc_rsp := ?t - 184\<rparr>) s1)\<lparr>process_count := process_count s1 + 1\<rparr>"
  have s': "s' = announce msg (pid (proc n s2)) s2"
    using f(1) by (simp add: s'_def ws Let_def s2_def enter_frame_def)
  then have ann: "touches video_window s2 s'" by (simp add: announce_touches)
  note v = touches_process_vars [OF f(2)] and v' = touches_process_vars [OF ann]
  show "process_count s' = process_count s + 1" "current_pid s' = current_pid s" "length (processes s') = 16"
    using n v v' by (simp_all add: s2_def)
  show "0 \<le> i \<Longrightarrow> proc i s' = (if i = n then (proc n s)\<lparr>proc_rsp := ?t - 184\<rparr> else proc i s)"
    using n v by (simp add: touches_proc [OF ann] s2_def touches_proc [OF f(2)])
  have l: "8 * length (first_frame entry cs sp ss) = 184" by (simp add: first_frame_def)
  have "holds_words (?t - 184) (first_frame entry cs sp ss) s2"
    using f(3) by (simp add: holds_words_def s2_def)
  then show "holds_words (?t - 184) (first_frame entry cs sp ss) s'" if "area \<inter> video_window = {}"
    by (rule holds_words_frame [OF _ ann]) (use that in \<open>simp_all only: l area_def Int_commute\<close>, simp)
  show "mem s' a = mem s a" if "a \<notin> area \<union> video_window"
    using that touches_mem [OF f(2)] touches_mem [OF ann] by (simp add: s2_def)
  show "pmm_wf s' \<and> free_frames s' = free_frames s" if "pmm_wf s" "area \<inter> bitmap_area = {}"
  proof -
    have s1: "pmm_wf s1" "free_frames s1 = free_frames s"
      using pmm_frame [OF that(1) f(2) that(2)] by (simp_all add: free_frames_def)
    then have s2: "pmm_wf s2" "free_frames s2 = free_frames s" by (simp_all add: s2_def)
    have "free_frames s' = free_frames s2"
      using pmm_frame(2) [OF s2(1) ann video_not_bitmap] by (simp add: free_frames_def)
    with s2(2) pmm_frame(1) [OF s2(1) ann video_not_bitmap] show ?thesis by simp
  qed
qed

lemma stack_end_sub: "region (ks + 4096 - 184) 184 \<subseteq> region ks 4096"
  using region_sub [of 3912 184 4096 ks] by (simp add: add.commute)

lemma create_user_process_spec:
  fixes s :: "'a process_scheme"
  assumes wf: "pmm_wf s" and two: "2 \<le> card (free_frames s)"
    and tab: "length (processes s) = 16" "0 \<le> process_count s" "process_count s < 16"
  obtains us ks s' where "us \<in> free_frames s" "ks \<in> free_frames s" "us \<noteq> ks"
    "create_user_process entry p4 s = s'"
    "process_count s' = process_count s + 1" "current_pid s' = current_pid s" "length (processes s') = 16"
    "proc (process_count s) s' = \<lparr>proc_rsp = ks + 4096 - 184, pid = word_of_int (process_count s), proc_state = PROCESS_READY,
       stack_base = us, kernel_stack_base = ks, kernel_stack_top = ks + 4096, pml4 = p4\<rparr>"
    "\<And>i. 0 \<le> i \<Longrightarrow> i \<noteq> process_count s \<Longrightarrow> proc i s' = proc i s"
    "pmm_wf s'" "free_frames s' = free_frames s - {us, ks}"
    "holds_words (ks + 4096 - 184) (first_frame entry 0x23 (us + 4096) 0x1B) s'"
proof -
  let ?n = "process_count s"
  define s1 where "s1 = set_proc ?n (\<lambda>p. p\<lparr>pid := word_of_int ?n, proc_state := PROCESS_READY\<rparr>) s"
  have "pmm_wf s1" "free_frames s1 \<noteq> {}" using two wf by (auto simp: s1_def)
  then obtain us s2 where a1: "pmm_alloc_block s1 = (us, s2)" "us \<noteq> 0" "us \<in> free_frames s1" "us \<in> frames s1"
    "pmm_wf s2" "frames s2 = frames s1" "free_frames s2 = free_frames s1 - {us}" "touches bitmap_area s1 s2"
    by (rule alloc_frame)
  define s3 where "s3 = set_proc ?n (\<lambda>p. p\<lparr>stack_base := us\<rparr>) s2"
  have "free_frames s \<noteq> {us}" using two by auto
  then have "pmm_wf s3" "free_frames s3 \<noteq> {}" using a1(3,5,7) by (auto simp: s3_def s1_def)
  then obtain ks s4 where a2: "pmm_alloc_block s3 = (ks, s4)" "ks \<noteq> 0" "ks \<in> free_frames s3" "ks \<in> frames s3"
    "pmm_wf s4" "frames s4 = frames s3" "free_frames s4 = free_frames s3 - {ks}" "touches bitmap_area s3 s4"
    by (rule alloc_frame)
  define s5 where "s5 = set_proc ?n (\<lambda>p. p\<lparr>kernel_stack_base := ks, kernel_stack_top := ks + STACK_SIZE, pml4 := p4\<rparr>) s4"
  note v = touches_process_vars [OF a1(8)] touches_process_vars [OF a2(8)]
  have p5: "proc i s5 = (if i = ?n then (proc ?n s)\<lparr>pid := word_of_int ?n, proc_state := PROCESS_READY, stack_base := us,
      kernel_stack_base := ks, kernel_stack_top := ks + 4096, pml4 := p4\<rparr> else proc i s)" if "0 \<le> i" for i
    using that tab v by (simp add: s5_def touches_proc [OF a2(8)] s3_def touches_proc [OF a1(8)] s1_def STACK_SIZE_def)
  have c5: "length (processes s5) = 16" "process_count s5 = ?n" "current_pid s5 = current_pid s"
    using tab v by (simp_all add: s5_def s3_def s1_def)
  have wf5: "pmm_wf s5" "free_frames s5 = free_frames s - {us, ks}"
    using a2(5,7) a1(7) by (auto simp: s5_def s3_def s1_def)
  have t: "kernel_stack_top (proc ?n s5) = ks + 4096" using p5 tab by simp
  have area: "region (ks + 4096 - 184) 184 \<inter> video_window = {}" "region (ks + 4096 - 184) 184 \<inter> bitmap_area = {}"
    using frame_regions(1,2) [OF a2(5), of ks] a2(4,6) stack_end_sub [of ks] by blast+
  define s' where "s' = create_user_process entry p4 s"
  have run: "s' = enter_frame ''Created User Process PID '' ?n (\<lambda>_. [0x1B, us + STACK_SIZE, 0x202, 0x23, entry, 0, 0]) s5"
    using tab a1(1,2) a2(1,2) t c5(2)
    by (simp add: enter_frame_def s'_def create_user_process_def MAX_PROCESSES_def Let_def s1_def [symmetric] s3_def [symmetric] s5_def [symmetric])
  note e = enter_frame_spec [OF c5(1) tab(2,3) refl refl run, unfolded t c5 wf5 STACK_SIZE_def]
  show ?thesis
  proof (rule that [of us ks s'])
    show "us \<in> free_frames s" "ks \<in> free_frames s" "us \<noteq> ks" using a1(3,7) a2(3) by (auto simp: s1_def s3_def)
  qed (use e area wf5(1) p5 tab in \<open>simp_all add: s'_def\<close>)
qed

section \<open>Creation keeps the table well formed\<close>

lemma proc_wf_slot:
  "proc_wf s \<Longrightarrow> process_count s < 16 \<Longrightarrow> proc_wf (set_proc (process_count s) f s)"
  by (auto simp: proc_wf_def)

lemma proc_wf_touches:
  assumes "touches A s s'"
  shows "proc_wf s' = proc_wf s"
  using touches_process_vars [OF assms] by (simp add: proc_wf_def proc_def)

lemma proc_wf_alloc:
  assumes "proc_wf s" "pmm_wf s" "pmm_alloc_block s = (p, s')"
  shows "proc_wf s'" "process_count s' = process_count s" "pmm_wf s'"
proof -
  obtain A where A: "touches A s s'" using pmm_alloc_vars [OF assms(2)] assms(3) by auto
  show "proc_wf s'" "process_count s' = process_count s"
    using assms(1) proc_wf_touches [OF A] touches_process_vars [OF A] by simp_all
  show "pmm_wf s'" using page_frames.alloc_inv [OF assms(2)] assms(3) by simp
qed

lemma enter_frame_proc_wf:
  assumes wf: "proc_wf s" and n: "process_count s < 16" and st: "proc_state (proc (process_count s) s) = PROCESS_READY"
    and ws: "ws (kernel_stack_top (proc (process_count s) s)) = [ss, sp, 0x202, cs, entry, 0, 0]"
  shows "proc_wf (enter_frame msg (process_count s) ws s)"
proof -
  have n': "length (processes s) = 16" "0 \<le> process_count s" using wf by (auto simp: proc_wf_def)
  note e = enter_frame_spec [where s' = "enter_frame msg (process_count s) ws s", OF n' n ws refl refl]
  show ?thesis
    unfolding proc_wf_def e(1-3)
    using wf n st by (auto simp: proc_wf_def e(4) MAX_PROCESSES_def less_le)
qed

lemma proc_wf_kprint [simp]: "proc_wf (kprint msg s) = proc_wf s"
  by (rule proc_wf_touches [OF kprint_touches])

lemma create_kernel_process_wf:
  assumes "proc_wf s" "pmm_wf s"
  shows "proc_wf (create_kernel_process entry s)"
proof (cases "process_count s \<ge> MAX_PROCESSES")
  case True
  then show ?thesis using assms by (simp add: create_kernel_process_def)
next
  case False
  then have n: "process_count s < 16" "0 \<le> process_count s" "length (processes s) = 16"
    using assms by (auto simp: MAX_PROCESSES_def proc_wf_def)
  define s1 where "s1 = set_proc (process_count s) (\<lambda>p. p\<lparr>pid := word_of_int (process_count s), proc_state := PROCESS_READY\<rparr>) s"
  obtain k s2 where a: "pmm_alloc_block s1 = (k, s2)" by force
  have "proc_wf s1" "pmm_wf s1" using proc_wf_slot [OF assms(1) n(1)] assms(2) by (simp_all add: s1_def)
  note a' = proc_wf_alloc [OF this a]
  obtain A where A: "touches A s1 s2" using pmm_alloc_vars [OF \<open>pmm_wf s1\<close>] a by auto
  have c: "process_count s2 = process_count s" using a'(2) by (simp add: s1_def)
  define s3 where "s3 = set_proc (process_count s) (\<lambda>p. p\<lparr>stack_base := k, kernel_stack_base := k,
                  kernel_stack_top := k + STACK_SIZE, pml4 := kernel_pml4 s2\<rparr>) s2"
  have 3: "proc_wf s3" "process_count s3 = process_count s" "proc_state (proc (process_count s) s3) = PROCESS_READY"
    using proc_wf_slot [OF a'(1)] n touches_process_vars [OF A] by (simp_all add: s3_def c touches_proc [OF A] s1_def)
  have "create_kernel_process entry s = enter_frame ''Created Kernel Process PID '' (process_count s)
      (\<lambda>rsp. [0x10, (rsp - 16) + 16, 0x202, 0x08, entry, 0, 0]) s3"
    using False a by (simp add: enter_frame_def create_kernel_process_def Let_def s1_def [symmetric] s3_def [symmetric])
  moreover have "proc_wf (enter_frame ''Created Kernel Process PID '' (process_count s3)
      (\<lambda>rsp. [0x10, (rsp - 16) + 16, 0x202, 0x08, entry, 0, 0]) s3)"
    by (rule enter_frame_proc_wf [OF 3(1)]) (use n 3 in simp_all)
  ultimately show ?thesis by (simp only: 3(2))
qed

lemma proc_wf_slot_of:
  "proc_wf s \<Longrightarrow> n < 16 \<Longrightarrow> process_count s = n \<Longrightarrow> proc_wf (set_proc n f s) \<and> process_count (set_proc n f s) = n"
  using proc_wf_slot by auto

lemma alloc_keeps_table:
  assumes "proc_wf s" "pmm_wf s" "pmm_alloc_block s = (p, s')" "process_count s = n"
  shows "proc_wf s' \<and> process_count s' = n \<and> pmm_wf s' \<and> (\<forall>i. proc i s' = proc i s) \<and> length (processes s') = 16"
proof -
  obtain A where "touches A s s'" using pmm_alloc_vars [OF assms(2)] assms(3) by auto
  with proc_wf_alloc [OF assms(1-3)] assms(4) show ?thesis by (auto simp: touches_proc proc_wf_def)
qed

lemma create_user_process_wf:
  assumes "proc_wf s" "pmm_wf s"
  shows "proc_wf (create_user_process entry p4 s)"
proof (cases "process_count s \<ge> MAX_PROCESSES")
  case True
  then show ?thesis using assms by (simp add: create_user_process_def)
next
  case False
  define n where "n = process_count s"
  have n: "n < 16" "0 \<le> n" "length (processes s) = 16"
    using False assms by (auto simp: MAX_PROCESSES_def proc_wf_def n_def)
  define s1 where "s1 = set_proc n (\<lambda>p. p\<lparr>pid := word_of_int n, proc_state := PROCESS_READY\<rparr>) s"
  obtain us s2 where a1: "pmm_alloc_block s1 = (us, s2)" by force
  have 1: "proc_wf s1" "process_count s1 = n" "pmm_wf s1" "ready s1 n"
    using proc_wf_slot_of [OF assms(1) n(1)] assms(2) n by (simp_all add: s1_def n_def)
  note 2 = alloc_keeps_table [OF 1(1,3) a1 1(2)]
  define s3 where "s3 = set_proc n (\<lambda>p. p\<lparr>stack_base := us\<rparr>) s2"
  obtain ks s4 where a2: "pmm_alloc_block s3 = (ks, s4)" by force
  have 3: "proc_wf s3" "process_count s3 = n" "pmm_wf s3" "ready s3 n"
    using proc_wf_slot_of [of s2 n] 2 n 1(4) by (simp_all add: s3_def)
  note 4 = alloc_keeps_table [OF 3(1,3) a2 3(2)]
  define s5 where "s5 = set_proc n (\<lambda>p. p\<lparr>kernel_stack_base := ks, kernel_stack_top := ks + STACK_SIZE, pml4 := p4\<rparr>) s4"
  have 5: "proc_wf s5" "process_count s5 = n" "ready s5 n"
    using proc_wf_slot_of [of s4 n] 4 n 3(4) by (simp_all add: s5_def)
  have "proc_wf (enter_frame ''Created User Process PID '' (process_count s5)
      (\<lambda>_. [0x1B, us + STACK_SIZE, 0x202, 0x23, entry, 0, 0]) s5)"
    by (rule enter_frame_proc_wf [OF 5(1)]) (use n 5 in simp_all)
  then show ?thesis
    using False 2 4 a1 a2 unfolding 5(2)
    by (simp add: enter_frame_def create_user_process_def Let_def n_def [symmetric] s1_def [symmetric] s3_def [symmetric]
        s5_def [symmetric])
qed

lemma init_states:
  assumes "length (processes s) = 16"
  shows "length (processes (fold (\<lambda>i. set_proc i f) [0..15] s)) = 16"
    "0 \<le> j \<Longrightarrow> j < 16 \<Longrightarrow> proc j (fold (\<lambda>i. set_proc i f) [0..15] s) = f (proc j s)"
proof -
  have "length (processes (fold (\<lambda>i. set_proc i f) is s)) = 16 \<and>
     (0 \<le> j \<longrightarrow> proc j (fold (\<lambda>i. set_proc i f) is s) = (if j \<in> set is then f (proc j s) else proc j s))"
    if "distinct is" "set is \<subseteq> {0..15}" "length (processes s) = 16" for "is" j s
    using that by (induction "is" arbitrary: s) auto
  from this [of "[0..15]" s j] this [of "[0..15]" s 0] assms
  show "length (processes (fold (\<lambda>i. set_proc i f) [0..15] s)) = 16"
    "0 \<le> j \<Longrightarrow> j < 16 \<Longrightarrow> proc j (fold (\<lambda>i. set_proc i f) [0..15] s) = f (proc j s)"
    by auto
qed

lemma init_multitasking_wf:
  assumes "length (processes s) = 16"
  shows "proc_wf (init_multitasking s)" "process_count (init_multitasking s) = 1" "current_pid (init_multitasking s) = 0"
proof -
  note i = init_states [OF assms, where f = "\<lambda>p. p\<lparr>proc_state := PROCESS_WAITING\<rparr>"]
  define t where "t = fold (\<lambda>i. set_proc i (\<lambda>p. p\<lparr>proc_state := PROCESS_WAITING\<rparr>)) [0..15] s"
  define u where "u = (set_proc 0 (\<lambda>p. p\<lparr>proc_state := PROCESS_RUNNING\<rparr>)
     (set_proc 0 (\<lambda>p. p\<lparr>pid := 0\<rparr>) t))\<lparr>process_count := 1, current_pid := 0\<rparr>"
  have e: "init_multitasking s = kprint (chars ''Multitasking Initialized.'' @ [10]) u"
    by (simp add: init_multitasking_def Let_def u_def t_def MAX_PROCESSES_def)
  show "proc_wf (init_multitasking s)"
    using i unfolding e proc_wf_kprint by (simp add: proc_wf_def u_def t_def MAX_PROCESSES_def)
  show "process_count (init_multitasking s) = 1" "current_pid (init_multitasking s) = 0"
    unfolding e touches_process_vars [OF kprint_touches] by (simp_all add: u_def)
qed

text \<open>
  C25: \<^verbatim>\<open>init_multitasking\<close> establishes the invariant of the process table, and creating processes keeps
  it in every case: with the table full, with either stack missing, and with both stacks allocated.
  A process whose stacks cannot be allocated is not counted.
\<close>

theorem process_table_invariant:
  assumes "length (processes s) = 16"
  shows "proc_wf (init_multitasking s) \<and>
    (\<forall>t. proc_wf (t :: 'a process_scheme) \<and> pmm_wf t \<longrightarrow>
       proc_wf (create_user_process entry p4 t) \<and> proc_wf (create_kernel_process entry t))"
  using init_multitasking_wf(1) [OF assms] create_user_process_wf create_kernel_process_wf by blast

text \<open>
  With two free frames and a free slot \<^verbatim>\<open>create_user_process\<close> takes two different frames, for the user
  and the kernel stack, and makes the new process ready; at the saved stack pointer the kernel stack
  holds exactly the frame that the return from an interrupt pops: cleared registers, the entry
  point, the user selectors 0x23 and 0x1B, interrupts enabled, and the end of the user stack.
\<close>

lemma create_user_process_frame:
  assumes "pmm_wf s" "2 \<le> card (free_frames s)"
    and "length (processes s) = 16" "0 \<le> process_count s" "process_count s < 16"
  shows "\<exists>us ks. us \<in> free_frames s \<and> ks \<in> free_frames s \<and> us \<noteq> ks \<and>
    (let s' = create_user_process entry p4 s; p = proc (process_count s) s' in
       process_count s' = process_count s + 1 \<and> current_pid s' = current_pid s \<and>
       proc_state p = PROCESS_READY \<and> pml4 p = p4 \<and> stack_base p = us \<and> kernel_stack_top p = ks + 4096 \<and>
       holds_words (proc_rsp p) (replicate 18 0 @ [entry, 0x23, 0x202, us + 4096, 0x1B]) s' \<and>
       proc_rsp p + 184 = kernel_stack_top p \<and>
       (\<forall>i. 0 \<le> i \<longrightarrow> i \<noteq> process_count s \<longrightarrow> proc i s' = proc i s) \<and>
       pmm_wf s' \<and> free_frames s' = free_frames s - {us, ks})"
  by (rule create_user_process_spec [OF assms, of entry p4])
    (rule exI, rule exI, auto simp: Let_def first_frame_def)

text \<open>
  \<^verbatim>\<open>create_kernel_process\<close> does not look at the result of the allocation: when memory is exhausted the
  new process is counted and ready all the same, its stack is page 0, and its frame overwrites the
  bytes at the end of that page.
\<close>

lemma create_kernel_process_without_memory:
  assumes "pmm_wf s" "free_frames s = {}"
    and "length (processes s) = 16" "0 \<le> process_count s" "process_count s < 16"
  shows "let s' = create_kernel_process entry s; p = proc (process_count s) s' in
    process_count s' = process_count s + 1 \<and> proc_state p = PROCESS_READY \<and> stack_base p = 0 \<and>
    proc_rsp p = 3912 \<and> holds_words 3912 (replicate 18 0 @ [entry, 0x08, 0x202, 4096, 0x10]) s'"
proof -
  let ?n = "process_count s"
  define s1 where "s1 = set_proc ?n (\<lambda>p. p\<lparr>pid := word_of_int ?n, proc_state := PROCESS_READY\<rparr>) s"
  have "pmm_wf s1" "free_blocks s1 = {}" using assms(1,2) by (simp_all add: s1_def) (simp add: set_proc_def free_frames_def free_blocks_def block_used_def)
  from pmm_alloc_None [OF this] obtain s2 where a: "pmm_alloc_block s1 = (0, s2)" and t: "touches video_window s1 s2" by blast
  define s3 where "s3 = set_proc ?n (\<lambda>p. p\<lparr>stack_base := 0, kernel_stack_base := 0,
                  kernel_stack_top := STACK_SIZE, pml4 := kernel_pml4 s2\<rparr>) s2"
  note v = touches_process_vars [OF t]
  have 3: "length (processes s3) = 16" "process_count s3 = ?n" "kernel_stack_top (proc ?n s3) = 4096"
    "ready s3 ?n" "stack_base (proc ?n s3) = 0"
    using assms(3-5) v by (simp_all add: s3_def touches_proc [OF t] s1_def STACK_SIZE_def)
  have run: "create_kernel_process entry s = enter_frame ''Created Kernel Process PID '' ?n
      (\<lambda>rsp. [0x10, (rsp - 16) + 16, 0x202, 0x08, entry, 0, 0]) s3"
    using assms(5) a by (simp add: enter_frame_def create_kernel_process_def MAX_PROCESSES_def Let_def s1_def [symmetric] s3_def [symmetric])
  have "region 3912 184 \<inter> video_window = {}"
    unfolding video_window_def VIDEO_ADDRESS_def by (rule region_disjointI) auto
  then show ?thesis
    using enter_frame_spec [OF 3(1) assms(4,5) refl refl run] assms(4) 3
    unfolding 3(2,3) first_frame_def Let_def by simp
qed

section \<open>Witnesses\<close>

definition blank_process :: process_t where
  "blank_process = \<lparr>proc_rsp = 0, pid = 0, proc_state = PROCESS_WAITING, stack_base = 0, kernel_stack_base = 0,
     kernel_stack_top = 0, pml4 = 0\<rparr>"

text \<open>A machine whose table has the first processes in the given states, process 0 being the current one.\<close>

definition proc_machine :: "process_state_t list \<Rightarrow> process" where
  "proc_machine sts = interrupts.extend idt_machine
     (process.fields (map (\<lambda>st. blank_process\<lparr>proc_state := st\<rparr>) sts @ replicate (16 - length sts) blank_process)
        0 (int (length sts)))"

lemma proc_machine_base:
  "mem (proc_machine sts) = mem page_machine" "bitmap (proc_machine sts) = bitmap page_machine"
  "total_blocks (proc_machine sts) = total_blocks page_machine"
  by (simp_all add: proc_machine_def idt_machine_def gdt_machine_def interrupts.extend_def gdt.extend_def vmm.extend_def
      page_machine_def interrupts.fields_def gdt.fields_def process.fields_def)

lemma proc_machine_frames: "pmm_wf (proc_machine sts)" "free_frames (proc_machine sts) = free_frames page_machine"
  using page_machine_wf
  by (auto simp: pmm_wf_def free_frames_def free_blocks_def block_used_def proc_machine_base)

lemma proc_machine_table:
  "processes (proc_machine sts) =
     map (\<lambda>st. blank_process\<lparr>proc_state := st\<rparr>) sts @ replicate (16 - length sts) blank_process"
  "current_pid (proc_machine sts) = 0" "process_count (proc_machine sts) = int (length sts)"
  by (simp_all add: proc_machine_def interrupts.extend_def process.fields_def)

lemma proc_machine_state: "0 \<le> i \<Longrightarrow> i < int (length sts) \<Longrightarrow> proc_state (proc i (proc_machine sts)) = sts ! nat i"
  by (simp add: proc_def proc_machine_table nth_append nat_less_iff)

lemma proc_machine_wf:
  assumes "0 < length sts" "length sts \<le> 16" "sts ! 0 \<in> {PROCESS_RUNNING, PROCESS_DEAD}"
    and "\<forall>i < length sts. 0 < i \<longrightarrow> sts ! i \<noteq> PROCESS_RUNNING"
  shows "proc_wf (proc_machine sts)"
  using assms unfolding proc_wf_def
  by (simp add: proc_machine_table proc_machine_state MAX_PROCESSES_def nat_less_iff)

theorem schedule_round_robin_witness:
  "\<exists>s'. schedule 0x8000 (proc_machine [PROCESS_RUNNING, PROCESS_WAITING, PROCESS_READY]) = Some (0, s') \<and>
     current_pid s' = 2 \<and> proc_rsp (proc 0 s') = 0x8000"
proof -
  let ?s = "proc_machine [PROCESS_RUNNING, PROCESS_WAITING, PROCESS_READY]"
  have wf: "proc_wf ?s" by (rule proc_machine_wf) (auto simp: less_Suc_eq numeral_eq_Suc)
  have st: "proc_state (proc 0 ?s) = PROCESS_RUNNING" "proc_state (proc 1 ?s) = PROCESS_WAITING"
    "proc_state (proc 2 ?s) = PROCESS_READY" by (simp_all add: proc_machine_state)
  have r: "runnable ?s 2" "\<not> runnable ?s 1" "current_pid ?s = 0" "process_count ?s = 3"
    using st by (simp_all add: runnable_def proc_machine_table)
  have a: "ahead ?s 0 = 2" "ahead ?s 2 = 1" using r by (simp_all add: ahead_def)
  obtain s' q where q: "schedule 0x8000 ?s = Some (proc_rsp (proc q s'), s')" "current_pid s' = q" "runnable ?s q"
    "\<forall>i. runnable ?s i \<longrightarrow> ahead ?s q \<le> ahead ?s i" "proc_rsp (proc q s') = (if q = 0 then 0x8000 else proc_rsp (proc q ?s))"
    "proc_rsp (proc 0 s') = 0x8000"
    using schedule_round_robin [OF wf r(1), of "0x8000"] st(1) unfolding r(3) by blast
  have "q = 0 \<or> q = 1 \<or> q = 2" using q(3) r(4) by (auto simp: runnable_def)
  then have "q = 2" using q(3,4) r a by auto
  moreover have "proc_rsp (proc 2 ?s) = 0" by (simp add: proc_def proc_machine_table nth_append blank_process_def)
  ultimately show ?thesis using q r by auto
qed

theorem schedule_no_starvation_witness:
  "\<exists>k \<le> 3. \<exists>s'. run_schedule (take k [1, 2, 3]) (proc_machine [PROCESS_RUNNING, PROCESS_READY, PROCESS_READY]) = Some s' \<and>
     current_pid s' = 2"
proof -
  let ?s = "proc_machine [PROCESS_RUNNING, PROCESS_READY, PROCESS_READY]"
  have "proc_wf ?s" by (rule proc_machine_wf) (auto simp: less_Suc_eq numeral_eq_Suc)
  from schedule_no_starvation [OF this, of 2 "[1, 2, 3]"] show ?thesis
    by (simp add: proc_machine_state proc_machine_table numeral_3_eq_3)
qed

theorem schedule_resurrects_dead_process_witness:
  "\<exists>s'. schedule 0x8000 (proc_machine [PROCESS_DEAD, PROCESS_WAITING]) = Some (0, s') \<and> current_pid s' = 0 \<and>
     proc_state (proc 0 s') = PROCESS_RUNNING"
proof -
  let ?s = "proc_machine [PROCESS_DEAD, PROCESS_WAITING]"
  have wf: "proc_wf ?s" by (rule proc_machine_wf) (auto simp: less_Suc_eq numeral_eq_Suc)
  have c: "current_pid ?s = 0" "process_count ?s = 2" by (simp_all add: proc_machine_table)
  have st: "proc_state (proc 0 ?s) = PROCESS_DEAD" "proc_state (proc 1 ?s) = PROCESS_WAITING" by (simp_all add: proc_machine_state)
  have "\<not> runnable ?s i" for i
  proof
    assume "runnable ?s i"
    moreover then have "i = 0 \<or> i = 1" using c by (auto simp: runnable_def)
    ultimately show False using st by (auto simp: runnable_def)
  qed
  moreover have "proc_rsp (proc 0 ?s) = 0" by (simp add: proc_def proc_machine_table nth_append blank_process_def)
  ultimately show ?thesis using schedule_resurrects_dead_process [OF wf, of "0x8000"] c st by simp
qed

theorem process_table_invariant_witness:
  "proc_wf (init_multitasking (proc_machine [])) \<and>
   proc_wf (create_user_process 0x10000000 0x5000 (proc_machine [PROCESS_RUNNING]))"
proof -
  have "proc_wf (proc_machine [PROCESS_RUNNING])" by (rule proc_machine_wf) auto
  then show ?thesis
    using process_table_invariant [where s = "proc_machine []" and entry = "0x10000000" and 'a = unit] proc_machine_frames(1)
    by (auto simp: proc_machine_table)
qed

lemma create_user_process_frame_witness:
  "\<exists>us. let s' = create_user_process 0x10000000 0x5000 (proc_machine [PROCESS_RUNNING]) in
     process_count s' = 2 \<and> read64 (mem s') (proc_rsp (proc 1 s') + 144) = 0x10000000 \<and>
     read64 (mem s') (proc_rsp (proc 1 s') + 168) = us + 4096"
proof -
  let ?s = "proc_machine [PROCESS_RUNNING]"
  obtain us where h: "process_count (create_user_process 0x10000000 0x5000 ?s) = 2"
    "holds_words (proc_rsp (proc 1 (create_user_process 0x10000000 0x5000 ?s)))
       (replicate 18 0 @ [0x10000000, 0x23, 0x202, us + 4096, 0x1B]) (create_user_process 0x10000000 0x5000 ?s)"
    using create_user_process_frame [OF proc_machine_frames(1), of "[PROCESS_RUNNING]" "0x10000000" "0x5000"]
    by (auto simp: proc_machine_frames(2) page_machine_free proc_machine_table Let_def)
  from h(2) [unfolded holds_words_def, rule_format, of 18] h(2) [unfolded holds_words_def, rule_format, of 21] h(1)
  show ?thesis by (simp add: Let_def nth_append)
qed

lemma create_kernel_process_without_memory_witness:
  "let s' = create_kernel_process 0x9000 ((proc_machine [PROCESS_RUNNING])\<lparr>total_blocks := 0\<rparr>)
   in proc_rsp (proc 1 s') = 3912"
proof -
  let ?s = "(proc_machine [PROCESS_RUNNING])\<lparr>total_blocks := 0\<rparr>"
  have "pmm_wf ?s" "free_frames ?s = {}"
    using proc_machine_frames(1) [of "[PROCESS_RUNNING]"] by (auto simp: pmm_wf_def block_used_def free_frames_def free_blocks_def)
  from create_kernel_process_without_memory [OF this, of "0x9000"] show ?thesis by (simp add: Let_def proc_machine_table)
qed

end
