(* ===== verification/Ata.thy ===== *)
theory Ata
  imports Screen
begin

text \<open>
  The disk driver of \<^verbatim>\<open>src/drivers/ata.c\<close>: one sector at a time through the ports of the primary
  channel. The loop that waits for the busy bit has no bound in the code, so the operations return
  an option, \<open>None\<close> standing for a call that never returns. The drive itself is not part of the
  sources: what the driver relies on is stated as a state machine over the port history, the
  predicate \<open>drive_attached\<close>.
\<close>

definition ATA_DATA :: u16 where "ATA_DATA = 0x1f0"
definition ATA_SECTOR_CNT :: u16 where "ATA_SECTOR_CNT = 0x1f2"
definition ATA_LBA_LOW :: u16 where "ATA_LBA_LOW = 0x1f3"
definition ATA_LBA_MID :: u16 where "ATA_LBA_MID = 0x1f4"
definition ATA_LBA_HIGH :: u16 where "ATA_LBA_HIGH = 0x1f5"
definition ATA_DRIVE_HEAD :: u16 where "ATA_DRIVE_HEAD = 0x1f6"
definition ATA_STATUS :: u16 where "ATA_STATUS = 0x1f7"
definition ATA_COMMAND :: u16 where "ATA_COMMAND = 0x1f7"
definition ATA_CONTROL :: u16 where "ATA_CONTROL = 0x3f6"
definition STATUS_BSY :: u8 where "STATUS_BSY = 0x80"
definition STATUS_DRQ :: u8 where "STATUS_DRQ = 0x08"
definition STATUS_ERR :: u8 where "STATUS_ERR = 0x01"
definition STATUS_DF :: u8 where "STATUS_DF = 0x20"

lemmas ata_ports = ATA_DATA_def ATA_SECTOR_CNT_def ATA_LBA_LOW_def ATA_LBA_MID_def ATA_LBA_HIGH_def ATA_DRIVE_HEAD_def
  ATA_STATUS_def ATA_COMMAND_def ATA_CONTROL_def

lemmas status_bits = STATUS_BSY_def STATUS_DRQ_def STATUS_ERR_def STATUS_DF_def

section \<open>The operations of ata.c\<close>

definition ata_disable_irq :: "'a machine_scheme \<Rightarrow> 'a machine_scheme" where
  "ata_disable_irq s = outb ATA_CONTROL 0x02 s"

definition ata_io_wait :: "'a machine_scheme \<Rightarrow> 'a machine_scheme" where
  "ata_io_wait s =
     (let (_, s) = inb ATA_STATUS s; (_, s) = inb ATA_STATUS s; (_, s) = inb ATA_STATUS s; (_, s) = inb ATA_STATUS s
      in s)"

partial_function (option) ata_wait_bsy :: "'a machine_scheme \<Rightarrow> 'a machine_scheme option" where
  "ata_wait_bsy s =
     (let (status, s) = inb ATA_STATUS s
      in if status AND STATUS_BSY \<noteq> 0 then ata_wait_bsy s else Some s)"

text \<open>\<^verbatim>\<open>while (limit-- > 0)\<close>\<close>

primrec ata_wait_drq_loop :: "nat \<Rightarrow> 'a machine_scheme \<Rightarrow> bool \<times> 'a machine_scheme" where
  "ata_wait_drq_loop 0 s = (False, s)"
| "ata_wait_drq_loop (Suc limit) s =
     (let (status, s) = inb ATA_STATUS s
      in if status AND STATUS_ERR \<noteq> 0 then (False, kprint (chars ''ATA Error: ERR bit set!'' @ [10]) s)
         else if status AND STATUS_DF \<noteq> 0 then (False, kprint (chars ''ATA Error: Drive Fault!'' @ [10]) s)
         else if status AND STATUS_DRQ \<noteq> 0 then (True, s)
         else ata_wait_drq_loop limit s)"

definition ata_wait_drq :: "'a machine_scheme \<Rightarrow> bool \<times> 'a machine_scheme" where
  "ata_wait_drq s = ata_wait_drq_loop 100000 s"

text \<open>The address and the command, which both transfers send alike.\<close>

definition ata_send :: "u32 \<Rightarrow> u8 \<Rightarrow> 'a machine_scheme \<Rightarrow> 'a machine_scheme" where
  "ata_send lba cmd s =
     (let s = outb ATA_DRIVE_HEAD (0xe0 OR ucast (drop_bit 24 lba AND 0x0f)) s;
          s = outb ATA_SECTOR_CNT 1 s;
          s = outb ATA_LBA_LOW (ucast lba) s;
          s = outb ATA_LBA_MID (ucast (drop_bit 8 lba)) s;
          s = outb ATA_LBA_HIGH (ucast (drop_bit 16 lba)) s
      in outb ATA_COMMAND cmd s)"

definition read_word :: "u64 \<Rightarrow> nat \<Rightarrow> 'a machine_scheme \<Rightarrow> 'a machine_scheme" where
  "read_word buffer i s =
     (let (data, s) = inw ATA_DATA s;
          s = poke (buffer + of_nat (i * 2)) (ucast data) s
      in poke (buffer + of_nat (i * 2 + 1)) (ucast (drop_bit 8 data)) s)"

definition ata_read_sector :: "u32 \<Rightarrow> u64 \<Rightarrow> 'a machine_scheme \<Rightarrow> 'a machine_scheme option" where
  "ata_read_sector lba buffer s =
     Option.bind (ata_wait_bsy (ata_disable_irq s)) (\<lambda>s.
       let s = ata_send lba 0x20 s;
           (ok, s) = ata_wait_drq s
       in if \<not> ok then Some (kprint (chars ''ATA Error: DRQ Timeout'' @ [10]) s)
          else Some (fold (read_word buffer) [0..<256] s))"

definition write_word :: "u64 \<Rightarrow> nat \<Rightarrow> 'a machine_scheme \<Rightarrow> 'a machine_scheme" where
  "write_word data i s =
     outw ATA_DATA (ucast (mem s (data + of_nat (i * 2))) OR push_bit 8 (ucast (mem s (data + of_nat (i * 2 + 1))))) s"

definition ata_write_sector :: "u32 \<Rightarrow> u64 \<Rightarrow> 'a machine_scheme \<Rightarrow> 'a machine_scheme option" where
  "ata_write_sector lba data s =
     Option.bind (ata_wait_bsy (ata_disable_irq s)) (\<lambda>s.
     Option.bind (ata_wait_bsy (ata_send lba 0x30 s)) (\<lambda>s.
       let (_, s) = ata_wait_drq s;
           s = fold (write_word data) [0..<256] s;
           s = outb ATA_COMMAND 0xe7 s
       in ata_wait_bsy s))"

section \<open>The drive\<close>

text \<open>
  The registers of a drive and its transfer protocol: the command 0x20 offers the 256 words of the
  addressed sector, 0x30 collects 256 words and stores them, 0xe7 flushes. After each command, and
  after the last word of a write, the drive is busy for \<open>lat\<close> reads of the status register.
\<close>

type_synonym image = "u32 \<Rightarrow> nat \<Rightarrow> u8"

datatype phase = Idle | DataIn "u16 list" | DataOut u32 "u16 list"

record drive =
  image :: image
  lba_low :: u8
  lba_mid :: u8
  lba_high :: u8
  drive_head :: u8
  phase :: phase
  busy :: nat

definition drive_lba :: "drive \<Rightarrow> u32" where
  "drive_lba d = ucast (lba_low d) OR push_bit 8 (ucast (lba_mid d)) OR push_bit 16 (ucast (lba_high d)) OR
     push_bit 24 (ucast (drive_head d AND 0x0f))"

definition sector_words :: "(nat \<Rightarrow> u8) \<Rightarrow> u16 list" where
  "sector_words f = map (\<lambda>i. ucast (f (i * 2)) OR push_bit 8 (ucast (f (i * 2 + 1)))) [0..<256]"

definition words_sector :: "u16 list \<Rightarrow> nat \<Rightarrow> u8" where
  "words_sector ws i = (if i < 512 then (if even i then ucast (ws ! (i div 2)) else ucast (drop_bit 8 (ws ! (i div 2)))) else 0)"

text \<open>The end of a write: the words collected become the sector.\<close>

definition stored :: "nat \<Rightarrow> u32 \<Rightarrow> u16 list \<Rightarrow> drive \<Rightarrow> drive" where
  "stored lat lba ws d = d\<lparr>image := (image d)(lba := words_sector ws), phase := Idle, busy := lat\<rparr>"

fun drive_step :: "nat \<Rightarrow> io_event \<Rightarrow> drive \<Rightarrow> drive" where
  "drive_step lat (OutB p v) d =
     (if p = ATA_LBA_LOW then d\<lparr>lba_low := v\<rparr>
      else if p = ATA_LBA_MID then d\<lparr>lba_mid := v\<rparr>
      else if p = ATA_LBA_HIGH then d\<lparr>lba_high := v\<rparr>
      else if p = ATA_DRIVE_HEAD then d\<lparr>drive_head := v\<rparr>
      else if p = ATA_COMMAND then
        (d\<lparr>busy := lat, phase := (if v = 0x20 then DataIn (sector_words (image d (drive_lba d)))
            else if v = 0x30 then DataOut (drive_lba d) [] else Idle)\<rparr>)
      else d)"
| "drive_step lat (InB p v) d = (if p = ATA_STATUS then d\<lparr>busy := busy d - 1\<rparr> else d)"
| "drive_step lat (InW p w) d =
     (if p = ATA_DATA then
        (case phase d of DataIn ws \<Rightarrow> d\<lparr>phase := (if length ws \<le> 1 then Idle else DataIn (tl ws))\<rparr> | _ \<Rightarrow> d)
      else d)"
| "drive_step lat (OutW p w) d =
     (if p = ATA_DATA then
        (case phase d of
           DataOut lba ws \<Rightarrow>
             (if length ws = 255
              then stored lat lba (ws @ [w]) d
              else d\<lparr>phase := DataOut lba (ws @ [w])\<rparr>)
         | _ \<Rightarrow> d)
      else d)"

definition drive_after :: "nat \<Rightarrow> drive \<Rightarrow> io_event list \<Rightarrow> drive" where
  "drive_after lat d h = foldr (drive_step lat) h d"

definition drive_status :: "drive \<Rightarrow> u8" where
  "drive_status d = (if 0 < busy d then 0x80 else if phase d = Idle then 0x50 else 0x58)"

definition drive_word :: "drive \<Rightarrow> u16" where
  "drive_word d = (case phase d of DataIn (w # ws) \<Rightarrow> w | _ \<Rightarrow> 0)"

text \<open>
  The machine has a drive attached, in the state \<open>d\<close>: from now on the status and the data port answer
  as the drive does, whatever the kernel sends.
\<close>

definition drive_attached :: "nat \<Rightarrow> drive \<Rightarrow> 'a machine_scheme \<Rightarrow> bool" where
  "drive_attached lat d s \<longleftrightarrow>
     (\<forall>h. dev8 s (h @ io s) ATA_STATUS = drive_status (drive_after lat d h) \<and>
          dev16 s (h @ io s) ATA_DATA = drive_word (drive_after lat d h))"

lemma drive_after_append: "drive_after lat d (h' @ h) = drive_after lat (drive_after lat d h) h'"
  by (simp add: drive_after_def)

lemma drive_after_Cons: "drive_after lat d (e # h) = drive_step lat e (drive_after lat d h)"
  by (simp add: drive_after_def)

lemma drive_after_Nil [simp]: "drive_after lat d [] = d"
  by (simp add: drive_after_def)

lemma drive_attached_later:
  assumes "drive_attached lat d s" "dev8 s' = dev8 s" "dev16 s' = dev16 s" "io s' = h @ io s"
  shows "drive_attached lat (drive_after lat d h) s'"
  using assms unfolding drive_attached_def by (metis append.assoc drive_after_append)

text \<open>Accesses to ports of other devices leave the drive as it is.\<close>

definition ata_port_set :: "u16 set" where
  "ata_port_set = {0x1f0, 0x1f1, 0x1f2, 0x1f3, 0x1f4, 0x1f5, 0x1f6, 0x1f7, 0x3f6}"

lemma drive_after_other: "(\<And>e. e \<in> set h \<Longrightarrow> event_port e \<notin> ata_port_set) \<Longrightarrow> drive_after lat d h = d"
proof (induction h)
  case (Cons e h)
  then have "drive_after lat d h = d" "event_port e \<notin> ata_port_set" by auto
  then show ?case by (cases e) (auto simp: drive_after_Cons ata_port_set_def ata_ports)
qed simp

lemma drive_attached_other:
  assumes "drive_attached lat d s" "touches A s s'" "on_ports P s s'" "P \<inter> ata_port_set = {}"
  shows "drive_attached lat d s'"
proof -
  obtain h where h: "io s' = h @ io s" "\<And>e. e \<in> set h \<Longrightarrow> event_port e \<in> P"
    using assms(3) by (auto simp: on_ports_def)
  have "drive_after lat d h = d" by (rule drive_after_other) (use h(2) assms(4) in blast)
  then show ?thesis using drive_attached_later [OF assms(1) _ _ h(1)] touches_dev [OF assms(2)] by simp
qed

lemma drive_attached_kprint: "drive_attached lat d s \<Longrightarrow> drive_attached lat d (kprint msg s)"
  by (rule drive_attached_other [OF _ kprint_touches kprint_ports])
    (auto simp: screen_consts ata_port_set_def)

lemma drive_attached_outb: "drive_attached lat d s \<Longrightarrow> drive_attached lat (drive_step lat (OutB p v) d) (outb p v s)"
  using drive_attached_later [of lat d s "outb p v s" "[OutB p v]"] by (simp add: outb_def drive_after_def)

lemma drive_attached_outw: "drive_attached lat d s \<Longrightarrow> drive_attached lat (drive_step lat (OutW p w) d) (outw p w s)"
  using drive_attached_later [of lat d s "outw p w s" "[OutW p w]"] by (simp add: outw_def drive_after_def)

lemma drive_attached_poke: "drive_attached lat d s \<Longrightarrow> drive_attached lat d (poke a v s)"
  by (simp add: drive_attached_def poke_def)

lemma drive_attached_status:
  assumes "drive_attached lat d s"
  shows "fst (inb ATA_STATUS s) = drive_status d" "drive_attached lat (d\<lparr>busy := busy d - 1\<rparr>) (snd (inb ATA_STATUS s))"
proof -
  have "dev8 s ([] @ io s) ATA_STATUS = drive_status (drive_after lat d [])" using assms unfolding drive_attached_def by blast
  then show "fst (inb ATA_STATUS s) = drive_status d" by (simp add: inb_def Let_def)
  show "drive_attached lat (d\<lparr>busy := busy d - 1\<rparr>) (snd (inb ATA_STATUS s))"
    using drive_attached_later [OF assms, of "snd (inb ATA_STATUS s)" "[InB ATA_STATUS (fst (inb ATA_STATUS s))]"]
    by (simp add: inb_def Let_def drive_after_def)
qed

lemma drive_attached_data:
  assumes "drive_attached lat d s" "phase d = DataIn (w # ws)"
  shows "fst (inw ATA_DATA s) = w"
    "drive_attached lat (d\<lparr>phase := (if ws = [] then Idle else DataIn ws)\<rparr>) (snd (inw ATA_DATA s))"
proof -
  have "dev16 s ([] @ io s) ATA_DATA = drive_word (drive_after lat d [])" using assms unfolding drive_attached_def by blast
  then show "fst (inw ATA_DATA s) = w" by (simp add: inw_def Let_def drive_word_def assms)
  show "drive_attached lat (d\<lparr>phase := (if ws = [] then Idle else DataIn ws)\<rparr>) (snd (inw ATA_DATA s))"
    using drive_attached_later [OF assms(1), of "snd (inw ATA_DATA s)" "[InW ATA_DATA (fst (inw ATA_DATA s))]"] assms(2)
    by (cases ws) (simp_all add: inw_def Let_def drive_after_def)
qed

section \<open>Waiting\<close>

lemma wait_bsy_spec:
  assumes "drive_attached lat d s"
  shows "\<exists>s'. ata_wait_bsy s = Some s' \<and> drive_attached lat (d\<lparr>busy := 0\<rparr>) s' \<and> touches {} s s' \<and> on_ports ata_port_set s s'"
  using assms
proof (induction "busy d" arbitrary: d s rule: less_induct)
  case less
  obtain st s1 where i: "inb ATA_STATUS s = (st, s1)" by force
  note a = drive_attached_status [OF less.prems, unfolded i]
  have t: "touches {} s s1" "on_ports ata_port_set s s1"
    using touches_inb [of "{}" s ATA_STATUS, unfolded i snd_conv] on_ports_io(3) [of ATA_STATUS ata_port_set s, unfolded i snd_conv]
    by (simp_all add: ata_port_set_def ata_ports)
  show ?case
  proof (cases "0 < busy d")
    case True
    have "drive_attached lat (d\<lparr>busy := busy d - 1\<rparr>) s1" using a(2) by simp
    from less.hyps [OF _ this] True obtain s' where "ata_wait_bsy s1 = Some s'" "drive_attached lat (d\<lparr>busy := 0\<rparr>) s'"
      "touches {} s1 s'" "on_ports ata_port_set s1 s'" by auto
    moreover have "st AND STATUS_BSY \<noteq> 0" using a(1) True by (simp add: drive_status_def status_bits)
    ultimately show ?thesis using i t by (subst ata_wait_bsy.simps) (auto intro: touches_trans on_ports_trans)
  next
    case False
    then have "st AND STATUS_BSY = 0" using a(1) by (simp add: drive_status_def status_bits)
    moreover have "drive_attached lat (d\<lparr>busy := 0\<rparr>) s1" using a(2) False by simp
    ultimately show ?thesis using i t by (subst ata_wait_bsy.simps) auto
  qed
qed

text \<open>Waiting for data succeeds exactly when the drive stops being busy within the limit.\<close>

lemma wait_drq_loop_spec:
  assumes "drive_attached lat d s" "phase d \<noteq> Idle"
  shows "\<exists>s'. ata_wait_drq_loop n s = (busy d < n, s') \<and> drive_attached lat (d\<lparr>busy := busy d - n\<rparr>) s' \<and> touches {} s s' \<and>
    on_ports ata_port_set s s'"
  using assms
proof (induction n arbitrary: d s)
  case 0
  then show ?case by (simp add: on_ports_same)
next
  case (Suc n)
  obtain st s1 where i: "inb ATA_STATUS s = (st, s1)" by force
  note a = drive_attached_status [OF Suc.prems(1), unfolded i fst_conv snd_conv]
  have t: "touches {} s s1" "on_ports ata_port_set s s1"
    using touches_inb [of "{}" s ATA_STATUS, unfolded i snd_conv] on_ports_io(3) [of ATA_STATUS ata_port_set s, unfolded i snd_conv]
    by (simp_all add: ata_port_set_def ata_ports)
  show ?case
  proof (cases "0 < busy d")
    case True
    then have st: "st AND STATUS_ERR = 0" "st AND STATUS_DF = 0" "st AND STATUS_DRQ = 0"
      using a(1) by (simp_all add: drive_status_def status_bits)
    from Suc.IH [OF a(2)] Suc.prems(2) obtain s' where "ata_wait_drq_loop n s1 = (busy d - 1 < n, s')"
      "drive_attached lat (d\<lparr>busy := busy d - 1 - n\<rparr>) s'" "touches {} s1 s'" "on_ports ata_port_set s1 s'" by auto
    with True st i t show ?thesis by (auto intro: touches_trans on_ports_trans)
  next
    case False
    then have "st AND STATUS_ERR = 0" "st AND STATUS_DF = 0" "st AND STATUS_DRQ \<noteq> 0"
      using a(1) Suc.prems(2) by (simp_all add: drive_status_def status_bits)
    with False i t a(2) show ?thesis by simp
  qed
qed

lemma wait_drq_spec:
  assumes "drive_attached lat d s" "phase d \<noteq> Idle"
  shows "\<exists>s'. ata_wait_drq s = (busy d < 100000, s') \<and> drive_attached lat (d\<lparr>busy := busy d - 100000\<rparr>) s' \<and> touches {} s s' \<and>
    on_ports ata_port_set s s'"
  unfolding ata_wait_drq_def by (rule wait_drq_loop_spec [OF assms])

section \<open>Addressing\<close>

lemma lba_bytes:
  fixes lba :: u32
  shows "ucast (ucast lba :: u8) OR push_bit 8 (ucast (ucast (drop_bit 8 lba) :: u8)) OR
     push_bit 16 (ucast (ucast (drop_bit 16 lba) :: u8)) OR
     push_bit 24 (ucast ((0xe0 OR ucast (drop_bit 24 lba AND 0x0f)) AND 0x0f :: u8)) = take_bit 28 lba"
proof -
  have m: "(0x0f :: u8) = mask 4" "(0x0f :: u32) = mask 4" "(0xe0 :: u8) = push_bit 5 (mask 3)"
    by (simp_all add: mask_eq_exp_minus_1 push_bit_eq_mult)
  show ?thesis
  proof (rule bit_word_eqI)
    fix n assume n: "n < LENGTH(32)"
    show "bit (ucast (ucast lba :: u8) OR push_bit 8 (ucast (ucast (drop_bit 8 lba) :: u8)) OR
     push_bit 16 (ucast (ucast (drop_bit 16 lba) :: u8)) OR
     push_bit 24 (ucast ((0xe0 OR ucast (drop_bit 24 lba AND 0x0f)) AND 0x0f :: u8)) :: u32) n = bit (take_bit 28 lba) n"
      using n unfolding m bit_or_iff bit_and_iff bit_push_bit_iff bit_ucast_iff bit_drop_bit_eq bit_mask_iff bit_take_bit_iff
      by (cases "n < 8"; cases "n < 16"; cases "n < 24") auto
  qed
qed

definition addressed :: "u32 \<Rightarrow> drive \<Rightarrow> drive" where
  "addressed lba d = d\<lparr>drive_head := 0xe0 OR ucast (drop_bit 24 lba AND 0x0f), lba_low := ucast lba,
     lba_mid := ucast (drop_bit 8 lba), lba_high := ucast (drop_bit 16 lba)\<rparr>"

lemma drive_lba_addressed: "drive_lba (addressed lba d) = take_bit 28 lba"
  unfolding drive_lba_def addressed_def by (simp add: lba_bytes)

lemma send_spec:
  assumes "drive_attached lat d s"
  shows "drive_attached lat ((addressed lba d)\<lparr>busy := lat, phase := (if cmd = 0x20 then
      DataIn (sector_words (image d (take_bit 28 lba)))
      else if cmd = 0x30 then DataOut (take_bit 28 lba) [] else Idle)\<rparr>) (ata_send lba cmd s)"
    and "touches {} s (ata_send lba cmd s)" and "on_ports ata_port_set s (ata_send lba cmd s)"
proof -
  let ?s1 = "outb ATA_LBA_HIGH (ucast (drop_bit 16 lba)) (outb ATA_LBA_MID (ucast (drop_bit 8 lba))
    (outb ATA_LBA_LOW (ucast lba) (outb ATA_SECTOR_CNT 1 (outb ATA_DRIVE_HEAD (0xe0 OR ucast (drop_bit 24 lba AND 0x0f)) s))))"
  have "drive_attached lat (addressed lba d) ?s1"
    using drive_attached_outb [OF drive_attached_outb [OF drive_attached_outb [OF drive_attached_outb [OF drive_attached_outb [OF assms]]]],
        of ATA_LBA_HIGH "ucast (drop_bit 16 lba)" ATA_LBA_MID "ucast (drop_bit 8 lba)" ATA_LBA_LOW "ucast lba" ATA_SECTOR_CNT 1 ATA_DRIVE_HEAD
          "0xe0 OR ucast (drop_bit 24 lba AND 0x0f)"]
    by (simp add: addressed_def ata_ports)
  moreover have "drive_step lat (OutB ATA_COMMAND cmd) (addressed lba d) = (addressed lba d)\<lparr>busy := lat, phase := (if cmd = 0x20 then
      DataIn (sector_words (image d (take_bit 28 lba)))
      else if cmd = 0x30 then DataOut (take_bit 28 lba) [] else Idle)\<rparr>"
    by (simp add: drive_lba_addressed) (simp add: ata_ports addressed_def)
  ultimately show "drive_attached lat ((addressed lba d)\<lparr>busy := lat, phase := (if cmd = 0x20 then
      DataIn (sector_words (image d (take_bit 28 lba)))
      else if cmd = 0x30 then DataOut (take_bit 28 lba) [] else Idle)\<rparr>) (ata_send lba cmd s)"
    using drive_attached_outb [of lat "addressed lba d" ?s1 ATA_COMMAND cmd] by (simp only: ata_send_def Let_def)
  show "touches {} s (ata_send lba cmd s)" "on_ports ata_port_set s (ata_send lba cmd s)"
    unfolding ata_send_def Let_def
    by (intro touches_trans [OF _ touches_outb] touches_refl)
      (intro on_ports_trans [OF _ on_ports_io(1)] on_ports_same, simp_all add: ata_port_set_def ata_ports)
qed

section \<open>The transfer of a sector\<close>

lemma byte_words:
  fixes a b :: u8
  shows "(ucast (ucast a OR push_bit 8 (ucast b) :: u16) :: u8) = a"
    and "(ucast (drop_bit 8 (ucast a OR push_bit 8 (ucast b) :: u16)) :: u8) = b"
proof -
  show "(ucast (ucast a OR push_bit 8 (ucast b) :: u16) :: u8) = a"
    by (rule bit_word_eqI) (auto simp: bit_ucast_iff bit_or_iff bit_push_bit_iff)
  show "(ucast (drop_bit 8 (ucast a OR push_bit 8 (ucast b) :: u16)) :: u8) = b"
    by (rule bit_word_eqI)
      (auto simp: bit_ucast_iff bit_or_iff bit_push_bit_iff bit_drop_bit_eq dest: bit_imp_le_length)
qed

lemma offset_notin_later: "i < j \<Longrightarrow> j + m \<le> 2 ^ 64 \<Longrightarrow> (a + of_nat i :: u64) \<notin> region (a + of_nat j) m"
  using region_offset_disjoint [of i 1 j m a] in_region_offset [of 0 1 "a + of_nat i"] by auto

lemma read_words_spec:
  assumes "drive_attached lat d s" "phase d = DataIn ws" "ws \<noteq> []" "2 * (k + length ws) \<le> 2 ^ 64"
  shows "\<exists>s'. fold (read_word buf) [k..<k + length ws] s = s' \<and> drive_attached lat (d\<lparr>phase := Idle\<rparr>) s' \<and>
     touches (region (buf + of_nat (k * 2)) (2 * length ws)) s s' \<and> on_ports ata_port_set s s' \<and>
     (\<forall>i < length ws. mem s' (buf + of_nat ((k + i) * 2)) = ucast (ws ! i) \<and>
        mem s' (buf + of_nat ((k + i) * 2 + 1)) = ucast (drop_bit 8 (ws ! i)))"
  using assms
proof (induction ws arbitrary: k d s)
  case (Cons w ws)
  let ?a = "buf + of_nat (k * 2)" and ?b = "buf + of_nat (k * 2 + 1)" and ?R = "region (buf + of_nat (k * 2)) (2 * length (w # ws))"
  obtain s1 where i: "inw ATA_DATA s = (w, s1)" and d1: "drive_attached lat (d\<lparr>phase := (if ws = [] then Idle else DataIn ws)\<rparr>) s1"
    using drive_attached_data [OF Cons.prems(1,2)] by (metis prod.collapse)
  define s2 where "s2 = read_word buf k s"
  have s2: "s2 = poke ?b (ucast (drop_bit 8 w)) (poke ?a (ucast w) s1)"
    by (simp add: s2_def read_word_def i)
  have d2: "drive_attached lat (d\<lparr>phase := (if ws = [] then Idle else DataIn ws)\<rparr>) s2"
    unfolding s2 by (intro drive_attached_poke d1)
  have ab: "?a \<in> ?R" "?b \<in> ?R"
    using in_region_offset [of 0 "2 * length (w # ws)" ?a] in_region_offset [of 1 "2 * length (w # ws)" ?a] Cons.prems(4)
    by (simp_all add: algebra_simps)
  have "touches ?R s s1" "on_ports ata_port_set s s1"
    using touches_inw [of ?R s ATA_DATA, unfolded i snd_conv] on_ports_io(4) [of ATA_DATA ata_port_set s, unfolded i snd_conv]
    by (simp_all add: ata_port_set_def ata_ports)
  then have t2: "touches ?R s s2" "on_ports ata_port_set s s2"
    unfolding s2 using ab by (blast intro: touches_trans touches_poke, blast intro: on_ports_trans on_ports_poke)
  have m2: "mem s2 ?a = ucast w" "mem s2 ?b = ucast (drop_bit 8 w)" by (simp_all add: s2 poke_def)
  have up: "[k..<k + length (w # ws)] = k # [Suc k..<Suc k + length ws]" by (simp add: upt_rec)
  show ?case
  proof (cases "ws = []")
    case True
    then show ?thesis using t2 m2 d2 by (simp add: up s2_def [symmetric])
  next
    case False
    let ?R' = "region (buf + of_nat (Suc k * 2)) (2 * length ws)"
    have d': "drive_attached lat (d\<lparr>phase := DataIn ws\<rparr>) s2" using d2 False by simp
    obtain s3 where IH: "fold (read_word buf) [Suc k..<Suc k + length ws] s2 = s3" "drive_attached lat (d\<lparr>phase := Idle\<rparr>) s3"
      "touches ?R' s2 s3" "on_ports ata_port_set s2 s3"
      "\<forall>i < length ws. mem s3 (buf + of_nat ((Suc k + i) * 2)) = ucast (ws ! i) \<and>
        mem s3 (buf + of_nat ((Suc k + i) * 2 + 1)) = ucast (drop_bit 8 (ws ! i))"
      using Cons.IH [OF d' _ False, of "Suc k"] Cons.prems(4) by auto
    have "?R' \<subseteq> ?R"
      using region_sub [of 2 "2 * length ws" "2 * length (w # ws)" ?a] Cons.prems(4) by (simp add: algebra_simps)
    then have t3: "touches ?R s s3" using t2(1) IH(3) by (blast intro: touches_trans touches_mono)
    have "?a \<notin> ?R'" "?b \<notin> ?R'" by (rule offset_notin_later; use Cons.prems(4) in simp)+
    then have m3: "mem s3 ?a = ucast w" "mem s3 ?b = ucast (drop_bit 8 w)" using m2 touches_mem [OF IH(3)] by simp_all
    have "mem s3 (buf + of_nat ((k + i) * 2)) = ucast ((w # ws) ! i) \<and>
        mem s3 (buf + of_nat ((k + i) * 2 + 1)) = ucast (drop_bit 8 ((w # ws) ! i))" if "i < length (w # ws)" for i
      using that m3 IH(5) [rule_format, of "i - 1"] by (cases i) auto
    moreover have "fold (read_word buf) [k..<k + length (w # ws)] s = s3" unfolding up using IH(1) by (simp only: fold_simps s2_def)
    moreover have "on_ports ata_port_set s s3" using t2(2) IH(4) by (rule on_ports_trans)
    ultimately show ?thesis using IH(2) t3 by blast
  qed
qed simp

lemma length_sector_words [simp]: "length (sector_words f) = 256"
  by (simp add: sector_words_def)

lemma write_words_spec:
  assumes "drive_attached lat d s" "phase d = DataOut lba ws" "length ws + n = 256" "0 < n"
    and words: "ws = map (\<lambda>i. ucast (mem s (data + of_nat (i * 2))) OR push_bit 8 (ucast (mem s (data + of_nat (i * 2 + 1))))) [0..<length ws]"
  shows "\<exists>s'. fold (write_word data) [length ws..<256] s = s' \<and> touches {} s s' \<and> on_ports ata_port_set s s' \<and>
     drive_attached lat (stored lat lba (sector_words (\<lambda>i. mem s (data + of_nat i))) d) s'"
  using assms
proof (induction n arbitrary: ws d s)
  case (Suc n)
  let ?k = "length ws"
  define w where "w = (ucast (mem s (data + of_nat (?k * 2))) OR push_bit 8 (ucast (mem s (data + of_nat (?k * 2 + 1)))) :: u16)"
  define s1 where "s1 = write_word data ?k s"
  have s1: "s1 = outw ATA_DATA w s" by (simp add: s1_def write_word_def w_def)
  have t1: "touches {} s s1" "on_ports ata_port_set s s1" "mem s1 = mem s"
    unfolding s1 by (simp, rule on_ports_io(2), simp add: ata_ports ata_port_set_def, simp)
  have up: "[?k..<256] = ?k # [Suc ?k..<256]" using Suc.prems(3) by (simp add: upt_rec)
  note d1 = drive_attached_outw [OF Suc.prems(1), of ATA_DATA w, folded s1]
  have ws: "ws @ [w] = map (\<lambda>i. ucast (mem s (data + of_nat (i * 2))) OR push_bit 8 (ucast (mem s (data + of_nat (i * 2 + 1)))))
      [0..<Suc ?k]"
    using Suc.prems(5) by (simp add: w_def)
  show ?case
  proof (cases "n = 0")
    case True
    then have "?k = 255" using Suc.prems(3) by simp
    then have "sector_words (\<lambda>i. mem s (data + of_nat i)) = ws @ [w]"
      unfolding ws sector_words_def by simp
    moreover have "drive_step lat (OutW ATA_DATA w) d = stored lat lba (ws @ [w]) d"
      using Suc.prems(2) \<open>?k = 255\<close> by simp
    moreover have "fold (write_word data) [?k..<256] s = s1" using \<open>?k = 255\<close> up by (simp add: s1_def)
    ultimately show ?thesis using d1 t1 by (simp only:) blast
  next
    case False
    then have k: "?k < 255" using Suc.prems(3) by simp
    then have "drive_step lat (OutW ATA_DATA w) d = d\<lparr>phase := DataOut lba (ws @ [w])\<rparr>"
      using Suc.prems(2) by simp
    with d1 have d1': "drive_attached lat (d\<lparr>phase := DataOut lba (ws @ [w])\<rparr>) s1" by simp
    from Suc.IH [OF d1', of "ws @ [w]"] Suc.prems(3) False ws
    obtain s' where "fold (write_word data) [Suc ?k..<256] s1 = s'" "touches {} s1 s'" "on_ports ata_port_set s1 s'"
      "drive_attached lat (stored lat lba (sector_words (\<lambda>i. mem s (data + of_nat i))) (d\<lparr>phase := DataOut lba (ws @ [w])\<rparr>)) s'"
      by (auto simp: t1(3))
    moreover have "stored lat lba vs (d\<lparr>phase := DataOut lba (ws @ [w])\<rparr>) = stored lat lba vs d" for vs by (simp add: stored_def)
    moreover have "fold (write_word data) [?k..<256] s = fold (write_word data) [Suc ?k..<256] s1"
      unfolding up by (simp only: fold_simps s1_def)
    ultimately show ?thesis using t1(1,2) by (auto intro: touches_trans on_ports_trans)
  qed
qed simp

lemma words_sector_words: "i < 512 \<Longrightarrow> words_sector (sector_words f) i = f i"
proof -
  assume "i < 512"
  then have "i div 2 < 256" by simp
  then have nth: "sector_words f ! (i div 2) = ucast (f (i div 2 * 2)) OR push_bit 8 (ucast (f (i div 2 * 2 + 1)))"
    by (simp add: sector_words_def)
  show ?thesis
  proof (cases "even i")
    case True
    then show ?thesis using \<open>i < 512\<close> nth byte_words(1) by (simp add: words_sector_def)
  next
    case False
    then have "i div 2 * 2 + 1 = i" by presburger
    with False \<open>i < 512\<close> nth byte_words(2) show ?thesis by (simp add: words_sector_def)
  qed
qed

section \<open>Reading and writing sectors\<close>

text \<open>The sector that a 32-bit address selects: the driver sends 28 bits of it.\<close>

abbreviation sector :: "u32 \<Rightarrow> u32" where "sector lba \<equiv> take_bit 28 lba"

lemma disable_irq_facts:
  "drive_attached lat d s \<Longrightarrow> drive_attached lat d (ata_disable_irq s)" "touches {} s (ata_disable_irq s)"
  "on_ports ata_port_set s (ata_disable_irq s)"
  unfolding ata_disable_irq_def using drive_attached_outb [of lat d s ATA_CONTROL 2]
  by (simp_all add: ata_ports on_ports_io ata_port_set_def)

lemma ata_read_sector_spec:
  assumes "drive_attached lat d s"
  shows "\<exists>s' d'. ata_read_sector lba buf s = Some s' \<and> drive_attached lat d' s' \<and> image d' = image d \<and>
    on_ports (ata_port_set \<union> crtc_ports) s s' \<and>
    (if lat < 100000
     then touches (region buf 512) s s' \<and> (\<forall>i < 512. mem s' (buf + of_nat i) = image d (sector lba) i)
     else touches video_window s s')"
proof -
  obtain s1 where s1: "ata_wait_bsy (ata_disable_irq s) = Some s1" "drive_attached lat (d\<lparr>busy := 0\<rparr>) s1"
    "touches {} s s1" "on_ports ata_port_set s s1"
    using wait_bsy_spec [OF disable_irq_facts(1) [OF assms]] disable_irq_facts(2,3) [of s]
    by (blast intro: touches_trans on_ports_trans)
  define d2 where "d2 = (addressed lba (d\<lparr>busy := 0\<rparr>))\<lparr>busy := lat, phase := DataIn (sector_words (image d (sector lba)))\<rparr>"
  have d2: "phase d2 = DataIn (sector_words (image d (sector lba)))" "busy d2 = lat" "image d2 = image d"
    by (simp_all add: d2_def addressed_def)
  note send = send_spec [OF s1(2), where lba = lba and cmd = "0x20"]
  have "drive_attached lat d2 (ata_send lba 0x20 s1)" using send(1) by (simp add: d2_def)
  from wait_drq_spec [OF this] obtain s3 where s3: "ata_wait_drq (ata_send lba 0x20 s1) = (lat < 100000, s3)"
    "drive_attached lat (d2\<lparr>busy := lat - 100000\<rparr>) s3" "touches {} (ata_send lba 0x20 s1) s3"
    "on_ports ata_port_set (ata_send lba 0x20 s1) s3" by (auto simp: d2)
  have t3: "touches {} s s3" "on_ports ata_port_set s s3"
    using s1(3,4) send(2,3) s3(3,4) by (blast intro: touches_trans on_ports_trans)+
  show ?thesis
  proof (cases "lat < 100000")
    case False
    let ?s4 = "kprint (chars ''ATA Error: DRQ Timeout'' @ [10]) s3"
    have "touches video_window s ?s4" "on_ports (ata_port_set \<union> crtc_ports) s ?s4"
      using t3 kprint_touches kprint_ports by (blast intro: touches_trans touches_mono, blast intro: on_ports_trans on_ports_mono)
    then show ?thesis using False s1(1) s3(1) drive_attached_kprint [OF s3(2)]
      by (auto simp: ata_read_sector_def d2 intro!: exI [of _ "d2\<lparr>busy := lat - 100000\<rparr>"])
  next
    case True
    have "sector_words (image d (sector lba)) \<noteq> []" by (metis length_sector_words list.size(3) zero_neq_numeral)
    from read_words_spec [OF s3(2) _ this, of 0 buf] obtain s4 where s4: "fold (read_word buf) [0..<256] s3 = s4" "drive_attached lat (d2\<lparr>busy := lat - 100000, phase := Idle\<rparr>) s4"
      "touches (region buf 512) s3 s4" "on_ports ata_port_set s3 s4"
      "\<forall>i < 256. mem s4 (buf + of_nat (i * 2)) = ucast (sector_words (image d (sector lba)) ! i) \<and>
        mem s4 (buf + of_nat (i * 2 + 1)) = ucast (drop_bit 8 (sector_words (image d (sector lba)) ! i))"
      by (auto simp: d2 add_0)
    have "mem s4 (buf + of_nat i) = image d (sector lba) i" if "i < 512" for i
    proof -
      have "mem s4 (buf + of_nat i) = words_sector (sector_words (image d (sector lba))) i"
      proof -
        have "i div 2 * 2 = i" if "even i" using that by presburger
        moreover have "i div 2 * 2 + 1 = i" if "odd i" using that by presburger
        ultimately show ?thesis
          using s4(5) [rule_format, of "i div 2"] that unfolding words_sector_def by (cases "even i") auto
      qed
      then show ?thesis using words_sector_words [OF that] by simp
    qed
    moreover have "touches (region buf 512) s s4" "on_ports (ata_port_set \<union> crtc_ports) s s4"
      using t3 s4(3,4) by (blast intro: touches_trans touches_mono, blast intro: on_ports_trans on_ports_mono)
    ultimately show ?thesis using True s1(1) s3(1) s4(1,2)
      by (auto simp: ata_read_sector_def d2 intro!: exI [of _ "d2\<lparr>busy := lat - 100000, phase := Idle\<rparr>"])
  qed
qed

lemma ata_write_sector_spec:
  assumes "drive_attached lat d s"
  shows "\<exists>s' d' f. ata_write_sector lba data s = Some s' \<and> drive_attached lat d' s' \<and> image d' = (image d)(sector lba := f) \<and>
    (\<forall>i < 512. f i = mem s (data + of_nat i)) \<and> touches {} s s' \<and> on_ports ata_port_set s s'"
proof -
  obtain s1 where s1: "ata_wait_bsy (ata_disable_irq s) = Some s1" "drive_attached lat (d\<lparr>busy := 0\<rparr>) s1"
    "touches {} s s1" "on_ports ata_port_set s s1"
    using wait_bsy_spec [OF disable_irq_facts(1) [OF assms]] disable_irq_facts(2,3) [of s]
    by (blast intro: touches_trans on_ports_trans)
  define d2 where "d2 = (addressed lba (d\<lparr>busy := 0\<rparr>))\<lparr>phase := DataOut (sector lba) [], busy := 0\<rparr>"
  have d2: "phase d2 = DataOut (sector lba) []" "busy d2 = 0" "image d2 = image d"
    by (simp_all add: d2_def addressed_def)
  note send = send_spec [OF s1(2), where lba = lba and cmd = "0x30"]
  from wait_bsy_spec [OF send(1)] obtain s2 where s2: "ata_wait_bsy (ata_send lba 0x30 s1) = Some s2" "drive_attached lat d2 s2"
    "touches {} (ata_send lba 0x30 s1) s2" "on_ports ata_port_set (ata_send lba 0x30 s1) s2" by (auto simp: d2_def)
  from wait_drq_spec [OF s2(2)] obtain s3 where s3: "ata_wait_drq s2 = (True, s3)" "drive_attached lat d2 s3"
    "touches {} s2 s3" "on_ports ata_port_set s2 s3" using d2(2) by (auto simp: d2(1) d2_def)
  have t3: "touches {} s s3" "on_ports ata_port_set s s3"
    using s1(3,4) send(2,3) s2(3,4) s3(3,4) by (meson touches_trans, meson on_ports_trans)
  have m: "mem s3 = mem s" using touches_mem [OF t3(1)] by auto
  define f where "f = words_sector (sector_words (\<lambda>i. mem s (data + of_nat i)))"
  define d4 where "d4 = stored lat (sector lba) (sector_words (\<lambda>i. mem s (data + of_nat i))) d2"
  have d4: "image d4 = (image d)(sector lba := f)" "phase d4 = Idle" "busy d4 = lat" by (simp_all add: d4_def stored_def f_def d2)
  obtain s4 where s4: "fold (write_word data) [0..<256] s3 = s4" "touches {} s3 s4" "on_ports ata_port_set s3 s4"
    "drive_attached lat d4 s4"
    using write_words_spec [OF s3(2) d2(1), of 256 data] by (auto simp: m d4_def)
  have "d4\<lparr>busy := lat, phase := Idle\<rparr> = d4" by (rule drive.equality) (simp_all add: d4)
  then have "drive_attached lat d4 (outb ATA_COMMAND 0xe7 s4)"
    using drive_attached_outb [OF s4(4), of ATA_COMMAND "0xe7"] by (simp add: ata_ports)
  from wait_bsy_spec [OF this] obtain s5 where s5: "ata_wait_bsy (outb ATA_COMMAND 0xe7 s4) = Some s5"
    "drive_attached lat (d4\<lparr>busy := 0\<rparr>) s5"
    "touches {} (outb ATA_COMMAND 0xe7 s4) s5" "on_ports ata_port_set (outb ATA_COMMAND 0xe7 s4) s5" by auto
  have "touches {} s s5" by (meson t3(1) s4(2) s5(3) touches_outb touches_trans)
  moreover have "on_ports ata_port_set s4 (outb ATA_COMMAND 0xe7 s4)"
    by (rule on_ports_io(1)) (simp add: ata_ports ata_port_set_def)
  then have "on_ports ata_port_set s s5" by (meson t3(2) s4(3) s5(4) on_ports_trans)
  moreover have "\<forall>i < 512. f i = mem s (data + of_nat i)" by (simp add: f_def words_sector_words)
  moreover have "ata_write_sector lba data s = Some s5"
    using s1(1) s2(1) s3(1) s4(1) s5(1) by (simp add: ata_write_sector_def Let_def)
  ultimately show ?thesis
    using s5(2) by (intro exI [of _ s5] exI [of _ "d4\<lparr>busy := 0\<rparr>"] exI [of _ f]) (simp add: d4)
qed

section \<open>The interface of a sector device\<close>

text \<open>
  What the file system relies on. \<open>content s\<close> is the medium as the device now holds it; \<open>ok s\<close> that a
  working device is attached.
\<close>

locale sector_device =
  fixes read_sec :: "u32 \<Rightarrow> u64 \<Rightarrow> 's \<Rightarrow> 's option"
    and write_sec :: "u32 \<Rightarrow> u64 \<Rightarrow> 's \<Rightarrow> 's option"
    and memory_of :: "'s \<Rightarrow> memory"
    and holds :: "'s \<Rightarrow> image \<Rightarrow> bool"
  assumes read_returns: "holds s img \<Longrightarrow> \<exists>s'. read_sec lba buf s = Some s' \<and> holds s' img \<and>
      (\<forall>i < 512. memory_of s' (buf + of_nat i) = img (sector lba) i) \<and>
      (\<forall>a. a \<notin> region buf 512 \<longrightarrow> memory_of s' a = memory_of s a)"
    and write_returns: "holds s img \<Longrightarrow> \<exists>s' f. write_sec lba buf s = Some s' \<and> holds s' (img(sector lba := f)) \<and>
      (\<forall>i < 512. f i = memory_of s (buf + of_nat i)) \<and> memory_of s' = memory_of s"
begin

text \<open>What was written is read back, whatever sectors are written in between.\<close>

lemma write_read:
  assumes "holds s img"
  shows "\<exists>s1 s2. write_sec lba buf s = Some s1 \<and> read_sec lba buf' s1 = Some s2 \<and>
    (\<forall>i < 512. memory_of s2 (buf' + of_nat i) = memory_of s (buf + of_nat i))"
proof -
  obtain s1 f where "write_sec lba buf s = Some s1" "holds s1 (img(sector lba := f))" "\<forall>i < 512. f i = memory_of s (buf + of_nat i)"
    using write_returns [OF assms] by blast
  with read_returns [OF this(2), of lba buf'] show ?thesis by auto
qed

lemma write_other_read:
  assumes "holds s img" "sector lba' \<noteq> sector lba"
  shows "\<exists>s1 s2. write_sec lba' buf s = Some s1 \<and> read_sec lba buf' s1 = Some s2 \<and>
    (\<forall>i < 512. memory_of s2 (buf' + of_nat i) = img (sector lba) i)"
proof -
  obtain s1 f where "write_sec lba' buf s = Some s1" "holds s1 (img(sector lba' := f))"
    using write_returns [OF assms(1)] by blast
  with read_returns [OF this(2), of lba buf'] assms(2) show ?thesis by auto
qed

end

text \<open>A drive that is ready within the limit of the driver.\<close>

definition disk_is :: "'a machine_scheme \<Rightarrow> image \<Rightarrow> bool" where
  "disk_is s img \<longleftrightarrow> (\<exists>lat d. lat < 100000 \<and> drive_attached lat d s \<and> image d = img)"

lemma disk_read:
  assumes "disk_is s img"
  obtains s' where "ata_read_sector lba buf s = Some s'" "disk_is s' img" "touches (region buf 512) s s'"
    "\<And>i. i < 512 \<Longrightarrow> mem s' (buf + of_nat i) = img (sector lba) i"
proof -
  obtain lat d where d: "lat < 100000" "drive_attached lat d s" "image d = img" using assms by (auto simp: disk_is_def)
  from ata_read_sector_spec [OF d(2), of lba buf] d(1) obtain s' d' where "ata_read_sector lba buf s = Some s'"
    "drive_attached lat d' s'" "image d' = img" "touches (region buf 512) s s'"
    "\<forall>i < 512. mem s' (buf + of_nat i) = img (sector lba) i" by (auto simp: d(3))
  with d(1) show thesis by (intro that [of s']) (auto simp: disk_is_def)
qed

lemma disk_write:
  assumes "disk_is s img"
  obtains s' f where "ata_write_sector lba buf s = Some s'" "disk_is s' (img(sector lba := f))" "touches {} s s'"
    "\<And>i. i < 512 \<Longrightarrow> f i = mem s (buf + of_nat i)"
proof -
  obtain lat d where d: "lat < 100000" "drive_attached lat d s" "image d = img" using assms by (auto simp: disk_is_def)
  from ata_write_sector_spec [OF d(2), of lba buf] obtain s' d' f where "ata_write_sector lba buf s = Some s'"
    "drive_attached lat d' s'" "image d' = img(sector lba := f)" "touches {} s s'"
    "\<forall>i < 512. f i = mem s (buf + of_nat i)" by (auto simp: d(3))
  with d(1) show thesis by (intro that [of s' f]) (auto simp: disk_is_def)
qed

interpretation ata: sector_device ata_read_sector ata_write_sector mem disk_is
proof
  fix s :: "'a machine_scheme" and img lba buf
  assume h: "disk_is s img"
  show "\<exists>s'. ata_read_sector lba buf s = Some s' \<and> disk_is s' img \<and>
      (\<forall>i < 512. mem s' (buf + of_nat i) = img (sector lba) i) \<and> (\<forall>a. a \<notin> region buf 512 \<longrightarrow> mem s' a = mem s a)"
    by (rule disk_read [OF h, of lba buf]) (auto dest: touches_mem)
  show "\<exists>s' f. ata_write_sector lba buf s = Some s' \<and> disk_is s' (img(sector lba := f)) \<and>
      (\<forall>i < 512. f i = mem s (buf + of_nat i)) \<and> mem s' = mem s"
  proof (rule disk_write [OF h, of lba buf])
    fix s' f assume w: "ata_write_sector lba buf s = Some s'" "disk_is s' (img(sector lba := f))" "touches {} s s'"
      "\<And>i. i < 512 \<Longrightarrow> f i = mem s (buf + of_nat i)"
    have "mem s' = mem s" using touches_mem [OF w(3)] by auto
    with w show ?thesis by blast
  qed
qed

section \<open>Properties\<close>

text \<open>
  C29: On a drive that becomes ready within the limit of the driver, a sector that was written is read
  back byte for byte, into any buffer, and writing any other sector in between does not change
  what is read; both operations return.
\<close>

theorem ata_write_read_roundtrip:
  assumes "disk_is s img"
  shows "(\<exists>s1 s2. ata_write_sector lba buf s = Some s1 \<and> ata_read_sector lba buf' s1 = Some s2 \<and>
      (\<forall>i < 512. mem s2 (buf' + of_nat i) = mem s (buf + of_nat i))) \<and>
    (sector lba' \<noteq> sector lba \<longrightarrow>
      (\<exists>s1 s2. ata_write_sector lba' buf s = Some s1 \<and> ata_read_sector lba buf' s1 = Some s2 \<and>
        (\<forall>i < 512. mem s2 (buf' + of_nat i) = img (sector lba) i)))"
  using ata.write_read [OF assms] ata.write_other_read [OF assms] by blast

text \<open>
  A read gives up when the drive stays busy for 100000 status reads after the command: the call
  returns without telling its caller, and the buffer keeps its old contents. A write has no such
  limit and stores the sector on the same drive.
\<close>

lemma ata_slow_drive:
  assumes "drive_attached lat d s" "100000 \<le> lat" "region buf 512 \<inter> video_window = {}"
  shows "\<exists>s1 s2 d2. ata_read_sector lba buf s = Some s1 \<and> (\<forall>i < 512. mem s1 (buf + of_nat i) = mem s (buf + of_nat i)) \<and>
    ata_write_sector lba buf s = Some s2 \<and> drive_attached lat d2 s2 \<and>
    (\<forall>i < 512. image d2 (sector lba) i = mem s (buf + of_nat i))"
proof -
  obtain s1 where "ata_read_sector lba buf s = Some s1" "touches video_window s s1"
    using ata_read_sector_spec [OF assms(1), of lba buf] assms(2) by auto
  moreover have "buf + of_nat i \<notin> video_window" if "i < 512" for i
    using assms(3) in_region_offset [of i 512 buf] that by auto
  moreover obtain s2 d2 f where "ata_write_sector lba buf s = Some s2" "drive_attached lat d2 s2" "image d2 = (image d)(sector lba := f)"
    "\<forall>i < 512. f i = mem s (buf + of_nat i)" using ata_write_sector_spec [OF assms(1), of lba buf] by blast
  ultimately show ?thesis by (intro exI [of _ s1] exI [of _ s2] exI [of _ d2]) (auto dest: touches_mem)
qed

section \<open>Witnesses\<close>

definition blank_drive :: drive where
  "blank_drive = \<lparr>image = (\<lambda>lba i. ucast lba), lba_low = 0, lba_mid = 0, lba_high = 0, drive_head = 0, phase = Idle, busy = 3\<rparr>"

definition disk_machine :: "nat \<Rightarrow> machine" where
  "disk_machine lat = \<lparr>mem = (\<lambda>a. ucast a), io = [],
     dev8 = (\<lambda>h p. if p = ATA_STATUS then drive_status (drive_after lat blank_drive h) else 0),
     dev16 = (\<lambda>h p. if p = ATA_DATA then drive_word (drive_after lat blank_drive h) else 0)\<rparr>"

lemma disk_machine_attached: "drive_attached lat blank_drive (disk_machine lat)"
  by (simp add: drive_attached_def disk_machine_def)

theorem ata_write_read_roundtrip_witness:
  "\<exists>s1 s2. ata_write_sector 7 0x8000 (disk_machine 5) = Some s1 \<and> ata_read_sector 7 0x9000 s1 = Some s2 \<and>
     mem s2 0x9003 = 3"
proof -
  have "disk_is (disk_machine 5) (image blank_drive)"
    unfolding disk_is_def using disk_machine_attached [of 5] by (intro exI [of _ 5] exI [of _ blank_drive]) simp
  from ata_write_read_roundtrip [OF this, of 7 "0x8000" "0x9000"] obtain s1 s2 where
    "ata_write_sector 7 0x8000 (disk_machine 5) = Some s1" "ata_read_sector 7 0x9000 s1 = Some s2"
    "\<forall>i < 512. mem s2 (0x9000 + of_nat i) = mem (disk_machine 5) (0x8000 + of_nat i)" by blast
  moreover from this(3) [rule_format, of 3] have "mem s2 0x9003 = 3" by (simp add: disk_machine_def)
  ultimately show ?thesis by blast
qed

lemma ata_slow_drive_witness:
  "\<exists>s1. ata_read_sector 7 0x9000 (disk_machine 200000) = Some s1 \<and> mem s1 0x9003 = 3"
proof -
  have "region 0x9000 512 \<inter> video_window = {}"
    unfolding video_window_def VIDEO_ADDRESS_def by (rule region_disjointI) auto
  from ata_slow_drive [OF disk_machine_attached _ this, of 200000 7] obtain s1 where
    "ata_read_sector 7 0x9000 (disk_machine 200000) = Some s1"
    "\<forall>i < 512. mem s1 (0x9000 + of_nat i) = mem (disk_machine 200000) (0x9000 + of_nat i)" by auto
  moreover from this(2) [rule_format, of 3] have "mem s1 0x9003 = 3" by (simp add: disk_machine_def)
  ultimately show ?thesis by blast
qed

end
