(* ===== verification/Kernel_Monad.thy ===== *)
theory Kernel_Monad
  imports Utils
begin

text \<open>
  The effects of the upper half of the kernel in one type: an operation on the machine state may not
  return at all (\<open>None\<close>), may run into a fault of the C code (\<open>Inl\<close>), or returns a value and the new
  state. The combinators lift the total, partial and faulting operations of the lower theories.
\<close>

type_synonym ('s, 'a) kop = "'s \<Rightarrow> (fault + 'a \<times> 's) option"

definition kreturn :: "'a \<Rightarrow> ('s, 'a) kop" where
  "kreturn x s = Some (Inr (x, s))"

definition kfault :: "fault \<Rightarrow> ('s, 'a) kop" where
  "kfault e s = Some (Inl e)"

definition kbind :: "('s, 'a) kop \<Rightarrow> ('a \<Rightarrow> ('s, 'b) kop) \<Rightarrow> ('s, 'b) kop" where
  "kbind m f s =
     Option.bind (m s) (\<lambda>r. case r of Inl e \<Rightarrow> Some (Inl e) | Inr p \<Rightarrow> f (fst p) (snd p))"

definition kthen :: "('s, 'a) kop \<Rightarrow> ('s, 'b) kop \<Rightarrow> ('s, 'b) kop" where
  "kthen m n = kbind m (\<lambda>_. n)"

text \<open>A step that always succeeds, a value of the state, and the lifted results.\<close>

definition kdo :: "('s \<Rightarrow> 's) \<Rightarrow> ('s, unit) kop" where
  "kdo f s = Some (Inr ((), f s))"

definition kget :: "('s \<Rightarrow> 'a) \<Rightarrow> ('s, 'a) kop" where
  "kget f s = Some (Inr (f s, s))"

definition kcall :: "('s \<Rightarrow> ('a \<times> 's) option) \<Rightarrow> ('s, 'a) kop" where
  "kcall f s = map_option Inr (f s)"

definition krun :: "('s \<Rightarrow> 's option) \<Rightarrow> ('s, unit) kop" where
  "krun f s = map_option (\<lambda>t. Inr ((), t)) (f s)"

definition kpure :: "fault + 'a \<Rightarrow> ('s, 'a) kop" where
  "kpure r s = Some (case r of Inl e \<Rightarrow> Inl e | Inr x \<Rightarrow> Inr (x, s))"

lemmas kops = kreturn_def kfault_def kdo_def kget_def kcall_def krun_def kpure_def

lemma kbind_simps [simp]:
  "m s = None \<Longrightarrow> kbind m f s = None"
  "m s = Some (Inl e) \<Longrightarrow> kbind m f s = Some (Inl e)"
  "m s = Some (Inr (x, t)) \<Longrightarrow> kbind m f s = f x t"
  by (simp_all add: kbind_def)

lemma kthen_simps [simp]:
  "m s = None \<Longrightarrow> kthen m n s = None"
  "m s = Some (Inl e) \<Longrightarrow> kthen m n s = Some (Inl e)"
  "m s = Some (Inr (x, t)) \<Longrightarrow> kthen m n s = n t"
  by (simp_all add: kthen_def)

lemma kdo_simps [simp]: "kbind (kdo h) f s = f () (h s)" "kthen (kdo h) n s = n (h s)"
  by (simp_all add: kbind_def kthen_def kops)

lemma kget_simps [simp]: "kbind (kget g) f s = f (g s) s"
  by (simp add: kbind_def kops)

lemma kreturn_simps [simp]: "kbind (kreturn x) f s = f x s"
  by (simp add: kbind_def kops)

lemma kpure_simps [simp]: "kbind (kpure (Inr x)) f s = f x s" "kbind (kpure (Inl e)) f s = Some (Inl e)"
  by (simp_all add: kbind_def kops)

lemma kcall_simps [simp]: "c s = Some (x, t) \<Longrightarrow> kbind (kcall c) f s = f x t"
  by (simp add: kbind_def kops)

lemma krun_simps [simp]: "r s = Some t \<Longrightarrow> kbind (krun r) f s = f () t" "r s = Some t \<Longrightarrow> kthen (krun r) n s = n t"
  by (simp_all add: kbind_def kthen_def kops)

lemma kbind_mono [partial_function_mono]:
  assumes "mono_option (\<lambda>g. m g s)" and "\<And>x t. mono_option (\<lambda>g. f g x t)"
  shows "mono_option (\<lambda>g. kbind (m g) (f g) s)"
  unfolding kbind_def
proof (rule bind_mono [OF assms(1)], goal_cases)
  case (1 y)
  then show ?case by (cases y) (simp_all add: assms(2) option.const_mono)
qed

lemma kthen_mono [partial_function_mono]:
  assumes "mono_option (\<lambda>g. m g s)" and "\<And>t. mono_option (\<lambda>g. n g t)"
  shows "mono_option (\<lambda>g. kthen (m g) (n g) s)"
  unfolding kthen_def using kbind_mono [where m = m and f = "\<lambda>g _. n g", OF assms] .

lemma if_app_mono [partial_function_mono]:
  assumes "mono_option (\<lambda>g. m g s)" and "mono_option (\<lambda>g. n g s)"
  shows "mono_option (\<lambda>g. (if b then m g else n g) s)"
  using assms by (cases b) (simp_all only: if_True if_False)

end
