(* ===== verification/Fat.thy ===== *)
theory Fat
  imports Process Ata Kernel_Monad
begin

text \<open>
  The FAT16 file system of \<^verbatim>\<open>src/fs/fat.c\<close> and \<^verbatim>\<open>includes/fat.h\<close>. Sector buffers are heap blocks in
  memory, filled by the disk driver; a C string argument is a byte list with its terminator, and the
  local arrays of the functions are byte lists with checked bounds. The walks over a directory follow
  cluster chains of the medium and need not end, so they are partial.
\<close>

record fat_bpb_t =
  jump_boot :: "u8 list"
  oem_name :: "u8 list"
  bytes_per_sector :: u16
  sectors_per_cluster :: u8
  reserved_sectors :: u16
  fat_count :: u8
  root_dir_entries :: u16
  total_sectors_16 :: u16
  media_type :: u8
  fat_size_16 :: u16
  sectors_per_track :: u16
  head_count :: u16
  hidden_sectors :: u32
  total_sectors_32 :: u32
  drive_number :: u8
  bpb_reserved :: u8
  boot_signature :: u8
  volume_id :: u32
  volume_label :: "u8 list"
  fs_type :: "u8 list"

record fat_dir_entry_t =
  ent_name :: "u8 list"
  ent_ext :: "u8 list"
  attributes :: u8
  ent_reserved :: u8
  create_time_tenth :: u8
  create_time :: u16
  create_date :: u16
  last_access_date :: u16
  first_cluster_high :: u16
  write_time :: u16
  write_date :: u16
  first_cluster_low :: u16
  file_size :: u32

record fat = process +
  fat_info :: fat_bpb_t
  fat_start_sector :: u32
  root_dir_sector :: u32
  data_start_sector :: u32
  current_dir_cluster :: u16
  current_path :: "u8 list"
  is_fat_initialized :: bool

definition ATTR_VOLUME_ID :: u8 where "ATTR_VOLUME_ID = 0x08"
definition ATTR_DIRECTORY :: u8 where "ATTR_DIRECTORY = 0x10"

section \<open>The packed structures in memory\<close>

definition read_bpb :: "u64 \<Rightarrow> 'a machine_scheme \<Rightarrow> fat_bpb_t" where
  "read_bpb a s =
     \<lparr>jump_boot = bytes_at a 3 s, oem_name = bytes_at (a + 3) 8 s, bytes_per_sector = read16 (mem s) (a + 11),
      sectors_per_cluster = mem s (a + 13), reserved_sectors = read16 (mem s) (a + 14), fat_count = mem s (a + 16),
      root_dir_entries = read16 (mem s) (a + 17), total_sectors_16 = read16 (mem s) (a + 19), media_type = mem s (a + 21),
      fat_size_16 = read16 (mem s) (a + 22), sectors_per_track = read16 (mem s) (a + 24), head_count = read16 (mem s) (a + 26),
      hidden_sectors = read32 (mem s) (a + 28), total_sectors_32 = read32 (mem s) (a + 32), drive_number = mem s (a + 36),
      bpb_reserved = mem s (a + 37), boot_signature = mem s (a + 38), volume_id = read32 (mem s) (a + 39),
      volume_label = bytes_at (a + 43) 11 s, fs_type = bytes_at (a + 54) 8 s\<rparr>"

definition read_entry :: "u64 \<Rightarrow> 'a machine_scheme \<Rightarrow> fat_dir_entry_t" where
  "read_entry a s =
     \<lparr>ent_name = bytes_at a 8 s, ent_ext = bytes_at (a + 8) 3 s, attributes = mem s (a + 11), ent_reserved = mem s (a + 12),
      create_time_tenth = mem s (a + 13), create_time = read16 (mem s) (a + 14), create_date = read16 (mem s) (a + 16),
      last_access_date = read16 (mem s) (a + 18), first_cluster_high = read16 (mem s) (a + 20),
      write_time = read16 (mem s) (a + 22), write_date = read16 (mem s) (a + 24),
      first_cluster_low = read16 (mem s) (a + 26), file_size = read32 (mem s) (a + 28)\<rparr>"

text \<open>The sixteen entries of a directory sector in a buffer.\<close>

definition entry_addr :: "u64 \<Rightarrow> nat \<Rightarrow> u64" where
  "entry_addr buffer j = buffer + of_nat (32 * j)"

definition entries_at :: "u64 \<Rightarrow> 'a machine_scheme \<Rightarrow> fat_dir_entry_t list" where
  "entries_at buffer s = map (\<lambda>j. read_entry (entry_addr buffer j) s) [0..<16]"

definition poke16 :: "u64 \<Rightarrow> u16 \<Rightarrow> 'a machine_scheme \<Rightarrow> 'a machine_scheme" where
  "poke16 a v s = s\<lparr>mem := write16 (mem s) a v\<rparr>"

primrec poke_bytes :: "u64 \<Rightarrow> u8 list \<Rightarrow> 'a machine_scheme \<Rightarrow> 'a machine_scheme" where
  "poke_bytes a [] s = s"
| "poke_bytes a (x # xs) s = poke_bytes (a + 1) xs (poke a x s)"

section \<open>Mounting\<close>

definition fat_get_current_path :: "'a fat_scheme \<Rightarrow> u8 list" where
  "fat_get_current_path s = current_path s"

definition fat_get_current_cluster :: "'a fat_scheme \<Rightarrow> u16" where
  "fat_get_current_cluster s = current_dir_cluster s"

text \<open>\<^verbatim>\<open>kprint(label); hex_to_ascii(n, buf); kprint(buf); kprint("\n");\<close>\<close>

definition print_field :: "string \<Rightarrow> u64 \<Rightarrow> 'a machine_scheme \<Rightarrow> 'a machine_scheme" where
  "print_field label n s = kprint [10] (kprint_hex n (kprint (chars label) s))"

definition fat_init :: "('a fat_scheme, unit) kop" where
  "fat_init =
     kbind (kcall (kmalloc 512)) (\<lambda>buffer.
       if buffer = 0 then kdo (kprint (chars ''FAT: Memory allocation failed'' @ [10]))
       else
         kthen (krun (ata_read_sector 0 buffer)) (
         kthen (kdo (\<lambda>s. s\<lparr>fat_info := read_bpb buffer s\<rparr>)) (
         kthen (kdo (kprint (chars ''---FAT16 Init ---'' @ [10]))) (
         kthen (kdo (kprint (chars ''OEM Name: ''))) (
         kthen (kdo (\<lambda>s. fold (\<lambda>c. kprint [c, 0]) (oem_name (fat_info s)) s)) (
         kthen (kdo (kprint [10])) (
         kthen (kdo (\<lambda>s. print_field ''Bytes per Sector: '' (ucast (bytes_per_sector (fat_info s))) s)) (
         kthen (kdo (\<lambda>s. print_field ''Sectors per Cluster: '' (ucast (sectors_per_cluster (fat_info s))) s)) (
         kthen (kdo (\<lambda>s. print_field ''Reserved Sectors: '' (ucast (reserved_sectors (fat_info s))) s)) (
         kthen (kdo (\<lambda>s. print_field ''Root Dir Entries: '' (ucast (root_dir_entries (fat_info s))) s)) (
         kthen (kdo (\<lambda>s. s\<lparr>fat_start_sector := ucast (reserved_sectors (fat_info s))\<rparr>)) (
         kthen (kdo (\<lambda>s. s\<lparr>root_dir_sector := fat_start_sector s + ucast (fat_count (fat_info s)) * ucast (fat_size_16 (fat_info s))\<rparr>)) (
         kbind (kget (\<lambda>s. bytes_per_sector (fat_info s))) (\<lambda>bps.
           if bps = 0 then kfault DivideByZero
           else
             kthen (kdo (\<lambda>s. s\<lparr>data_start_sector :=
               root_dir_sector s + (ucast (root_dir_entries (fat_info s)) * 32) div ucast bps\<rparr>)) (
             kthen (kdo (\<lambda>s. print_field ''Data Start Sector: '' (ucast (data_start_sector s)) s)) (
             kthen (krun (kfree buffer)) (
             kdo (\<lambda>s. s\<lparr>is_fat_initialized := True\<rparr>))))))))))))))))))"

section \<open>The allocation table\<close>

text \<open>The sector and the offset of the table entry of a cluster.\<close>

definition fat_sector_of :: "u16 \<Rightarrow> 'a fat_scheme \<Rightarrow> u32" where
  "fat_sector_of cluster s = fat_start_sector s + (ucast cluster * 2) div 512"

definition fat_offset_of :: "u16 \<Rightarrow> u64" where
  "fat_offset_of cluster = (ucast cluster * 2) mod 512"

definition fat_next_cluster :: "u16 \<Rightarrow> ('a fat_scheme, u16) kop" where
  "fat_next_cluster cluster =
     kbind (kget (fat_sector_of cluster)) (\<lambda>fat_sector.
     kbind (kcall (kmalloc 512)) (\<lambda>buffer.
     kthen (krun (ata_read_sector fat_sector buffer)) (
     kbind (kget (\<lambda>s. read16 (mem s) (buffer + fat_offset_of cluster))) (\<lambda>next_cluster.
     kthen (krun (kfree buffer)) (
     kreturn next_cluster)))))"

definition fat_write_fat_entry :: "u16 \<Rightarrow> u16 \<Rightarrow> ('a fat_scheme, unit) kop" where
  "fat_write_fat_entry cluster value =
     kbind (kget (fat_sector_of cluster)) (\<lambda>fat_sector.
     kbind (kcall (kmalloc 512)) (\<lambda>buffer.
     kthen (krun (ata_read_sector fat_sector buffer)) (
     kthen (kdo (poke16 (buffer + fat_offset_of cluster) value)) (
     kthen (krun (ata_write_sector fat_sector buffer)) (
     krun (kfree buffer))))))"

text \<open>The inner loop of \<^verbatim>\<open>fat_allocate_cluster\<close>: the first free entry of the sector in the buffer.\<close>

definition fat_free_entry :: "u64 \<Rightarrow> nat \<Rightarrow> 'a machine_scheme \<Rightarrow> u16 option" where
  "fat_free_entry buffer i s =
     map_option (\<lambda>j. of_nat (i * 256 + j))
       (find (\<lambda>j. \<not> (of_nat (i * 256 + j) :: u16) < 2 \<and> read16 (mem s) (buffer + of_nat (j * 2)) = 0) [0..<256])"

primrec fat_allocate_loop :: "u64 \<Rightarrow> nat list \<Rightarrow> ('a fat_scheme, u16) kop" where
  "fat_allocate_loop buffer [] = kthen (krun (kfree buffer)) (kreturn 0)"
| "fat_allocate_loop buffer (i # is) =
     kbind (kget fat_start_sector) (\<lambda>start.
     kthen (krun (ata_read_sector (start + of_nat i) buffer)) (
     kbind (kget (fat_free_entry buffer i)) (\<lambda>found.
       case found of
         Some cluster \<Rightarrow>
           kthen (fat_write_fat_entry cluster 0xFFFF) (kthen (krun (kfree buffer)) (kreturn cluster))
       | None \<Rightarrow> fat_allocate_loop buffer is)))"

definition fat_allocate_cluster :: "('a fat_scheme, u16) kop" where
  "fat_allocate_cluster =
     kbind (kcall (kmalloc 512)) (\<lambda>buffer.
     kbind (kget (\<lambda>s. unat (fat_size_16 (fat_info s)))) (\<lambda>n.
     fat_allocate_loop buffer [0..<n]))"

definition fat_lba_of_cluster :: "u16 \<Rightarrow> 'a fat_scheme \<Rightarrow> u32" where
  "fat_lba_of_cluster cluster s =
     data_start_sector s + (ucast cluster - 2) * ucast (sectors_per_cluster (fat_info s))"

partial_function (option) fat_free_loop :: "u16 \<Rightarrow> ('a fat_scheme, unit) kop" where
  "fat_free_loop cur s =
     (if cur < 0xFFF8 then
        kbind (fat_next_cluster cur) (\<lambda>next.
        kthen (fat_write_fat_entry cur 0) (\<lambda>s. fat_free_loop next s)) s
      else kreturn () s)"

definition fat_free_cluster_chain :: "u16 \<Rightarrow> ('a fat_scheme, unit) kop" where
  "fat_free_cluster_chain cluster = (if cluster < 2 then kreturn () else fat_free_loop cluster)"

section \<open>Directory sectors\<close>

text \<open>Following the chain for some steps; \<open>None\<close> is the early return at the end of the chain.\<close>

primrec fat_walk :: "nat \<Rightarrow> u16 \<Rightarrow> ('a fat_scheme, u16 option) kop" where
  "fat_walk 0 cur = kreturn (if cur \<ge> 0xFFF8 then None else Some cur)"
| "fat_walk (Suc n) cur =
     (if cur \<ge> 0xFFF8 then kreturn None else kbind (fat_next_cluster cur) (fat_walk n))"

definition fat_read_dir_sector :: "u16 \<Rightarrow> nat \<Rightarrow> u64 \<Rightarrow> ('a fat_scheme, bool) kop" where
  "fat_read_dir_sector start_cluster sector_idx buffer =
     (if start_cluster = 0 then
        kbind (kget (\<lambda>s. (root_dir_entries (fat_info s), bytes_per_sector (fat_info s), root_dir_sector s))) (\<lambda>(entries, bps, root).
          if bps = 0 then kfault DivideByZero
          else if of_nat sector_idx \<ge> (ucast entries * 32) div (ucast bps :: u32) then kreturn False
          else kthen (krun (ata_read_sector (root + of_nat sector_idx) buffer)) (kreturn True))
      else
        kbind (kget (\<lambda>s. unat (sectors_per_cluster (fat_info s)))) (\<lambda>spc.
          if spc = 0 then kfault DivideByZero
          else
            kbind (fat_walk (sector_idx div spc) start_cluster) (\<lambda>r.
              case r of
                None \<Rightarrow> kreturn False
              | Some cur \<Rightarrow>
                  kbind (kget (fat_lba_of_cluster cur)) (\<lambda>lba.
                  kthen (krun (ata_read_sector (lba + of_nat (sector_idx mod spc)) buffer)) (kreturn True)))))"

text \<open>The sector that a changed directory buffer goes back to.\<close>

primrec fat_walk_on :: "nat \<Rightarrow> u16 \<Rightarrow> ('a fat_scheme, u16) kop" where
  "fat_walk_on 0 cur = kreturn cur"
| "fat_walk_on (Suc n) cur = kbind (fat_next_cluster cur) (fat_walk_on n)"

definition fat_dir_lba :: "nat \<Rightarrow> ('a fat_scheme, u32) kop" where
  "fat_dir_lba sector_idx =
     kbind (kget current_dir_cluster) (\<lambda>dir.
       if dir = 0 then kget (\<lambda>s. root_dir_sector s + of_nat sector_idx)
       else
         kbind (kget (\<lambda>s. unat (sectors_per_cluster (fat_info s)))) (\<lambda>spc.
           if spc = 0 then kfault DivideByZero
           else
             kbind (fat_walk_on (sector_idx div spc) dir) (\<lambda>cur.
             kget (\<lambda>s. fat_lba_of_cluster cur s + of_nat (sector_idx mod spc)))))"

section \<open>File names\<close>

definition upcase :: "u8 \<Rightarrow> u8" where
  "upcase c = (if c \<ge> 0x61 \<and> c \<le> 0x7a then c - 32 else c)"

text \<open>Both copying loops of \<^verbatim>\<open>fat_filename_match\<close>, into \<^verbatim>\<open>char temp[12]\<close>.\<close>

primrec copy_to_blank :: "u8 list \<Rightarrow> u8 list \<Rightarrow> nat \<Rightarrow> fault + u8 list \<times> nat" where
  "copy_to_blank [] temp idx = Inr (temp, idx)"
| "copy_to_blank (c # cs) temp idx =
     (if c = 32 then Inr (temp, idx)
      else sum_bind (put idx c temp) (\<lambda>temp. copy_to_blank cs temp (idx + 1)))"

fun match_loop :: "u8 list \<Rightarrow> u8 list \<Rightarrow> fault + bool" where
  "match_loop (c1 # temp) (c2 # input) =
     (if c1 \<noteq> 0 \<and> c2 \<noteq> 0 then (if upcase c1 \<noteq> upcase c2 then Inr False else match_loop temp input)
      else Inr (c1 = 0 \<and> c2 = 0))"
| "match_loop _ _ = Inl ReadOutOfBounds"

definition fat_filename_match :: "u8 list \<Rightarrow> u8 list \<Rightarrow> u8 list \<Rightarrow> fault + bool" where
  "fat_filename_match name ext input =
     sum_bind (copy_to_blank (take 8 name) (replicate 12 0) 0) (\<lambda>(temp, idx).
     sum_bind
       (if hd ext \<noteq> 32 then
          sum_bind (put idx 0x2e temp) (\<lambda>temp. copy_to_blank (take 3 ext) temp (idx + 1))
        else Inr (temp, idx)) (\<lambda>(temp, idx).
     sum_bind (put idx 0 temp) (\<lambda>temp.
     match_loop temp input)))"

text \<open>The conversion of a file name to the 8.3 form in \<^verbatim>\<open>fat_create_entry\<close>.\<close>

fun name_part :: "nat \<Rightarrow> u8 list \<Rightarrow> u8 list \<Rightarrow> fault + u8 list \<times> u8 list" where
  "name_part j name [] = Inl ReadOutOfBounds"
| "name_part j name (c # cs) =
     (if c \<noteq> 0 \<and> c \<noteq> 0x2e \<and> j < 8 then name_part (j + 1) (name[j := upcase c]) cs else Inr (name, c # cs))"

fun skip_to_dot :: "u8 list \<Rightarrow> fault + u8 list" where
  "skip_to_dot [] = Inl ReadOutOfBounds"
| "skip_to_dot (c # cs) = (if c \<noteq> 0 \<and> c \<noteq> 0x2e then skip_to_dot cs else Inr (c # cs))"

fun ext_part :: "nat \<Rightarrow> u8 list \<Rightarrow> u8 list \<Rightarrow> fault + u8 list" where
  "ext_part j ext [] = Inl ReadOutOfBounds"
| "ext_part j ext (c # cs) =
     (if c \<noteq> 0 \<and> j < 3 then ext_part (j + 1) (ext[j := upcase c]) cs else Inr ext)"

definition to_83 :: "u8 list \<Rightarrow> fault + u8 list \<times> u8 list" where
  "to_83 filename =
     sum_bind (name_part 0 (replicate 8 32) filename) (\<lambda>(name, cs).
     sum_bind (skip_to_dot cs) (\<lambda>cs.
       if hd cs = 0x2e then sum_bind (ext_part 0 (replicate 3 32) (tl cs)) (\<lambda>ext. Inr (name, ext))
       else Inr (name, replicate 3 32)))"

text \<open>\<^verbatim>\<open>for (k = n - 1; k >= 0; k--) if (a[k] == ' ') a[k] = 0; else break;\<close>\<close>

primrec trim_blanks :: "nat \<Rightarrow> u8 list \<Rightarrow> u8 list" where
  "trim_blanks 0 xs = xs"
| "trim_blanks (Suc k) xs = (if xs ! k = 32 then trim_blanks k (xs[k := 0]) else xs)"

section \<open>Listing and searching a directory\<close>

definition not_mounted :: "'a machine_scheme \<Rightarrow> 'a machine_scheme" where
  "not_mounted s = kprint (chars ''File system not mounted. Run '' @ [39] @ chars ''mount'' @ [39] @ chars '' first.'' @ [10]) s"

definition fat_list_entry :: "fat_dir_entry_t \<Rightarrow> 'a machine_scheme \<Rightarrow> 'a machine_scheme" where
  "fat_list_entry e s =
     (let name = trim_blanks 8 (ent_name e @ [0]);
          ext = trim_blanks 3 (ent_ext e @ [0]);
          s = kprint name s;
          s = (if hd ext \<noteq> 0 then kprint ext (kprint (chars ''.'') s) else s);
          s = (if attributes e AND ATTR_DIRECTORY \<noteq> 0 then kprint (chars ''/'') s else s);
          s = kprint (chars ''        '') s;
          s = kprint_hex (ucast (file_size e)) s
      in kprint [10] s)"

text \<open>The entries of one sector; the result tells whether the end marker was seen.\<close>

fun fat_list_sector :: "fat_dir_entry_t list \<Rightarrow> 'a machine_scheme \<Rightarrow> bool \<times> 'a machine_scheme" where
  "fat_list_sector [] s = (False, s)"
| "fat_list_sector (e # es) s =
     (if hd (ent_name e) = 0 then (True, s)
      else if hd (ent_name e) = 0xE5 then fat_list_sector es s
      else if attributes e = 0x0F \<or> attributes e AND ATTR_VOLUME_ID \<noteq> 0 then fat_list_sector es s
      else fat_list_sector es (fat_list_entry e s))"

partial_function (option) fat_list_loop :: "u64 \<Rightarrow> nat \<Rightarrow> ('a fat_scheme, unit) kop" where
  "fat_list_loop buffer i s =
     kbind (\<lambda>s. fat_read_dir_sector (current_dir_cluster s) i buffer s) (\<lambda>more.
       if \<not> more then krun (kfree buffer)
       else
         kbind (kget (entries_at buffer)) (\<lambda>es.
         kbind (\<lambda>s. Some (Inr (fat_list_sector es s))) (\<lambda>fin.
           if fin then krun (kfree buffer) else (\<lambda>s. fat_list_loop buffer (i + 1) s)))) s"

definition fat_list :: "('a fat_scheme, unit) kop" where
  "fat_list s =
     (if \<not> is_fat_initialized s then kdo not_mounted s
      else
        kbind (kcall (kmalloc 512)) (\<lambda>buffer.
          if buffer = 0 then kdo (kprint (chars ''ls: Memory allocation failed'' @ [10]))
          else
            kthen (kdo (kprint (chars ''Filename        Size'' @ [10]))) (
            kthen (kdo (kprint (chars ''--------------------'' @ [10]))) (
            fat_list_loop buffer 0))) s)"

datatype scan = ScanEnd | ScanFound nat | ScanMore

fun find_scan :: "u8 list \<Rightarrow> nat \<Rightarrow> fat_dir_entry_t list \<Rightarrow> fault + scan" where
  "find_scan filename j [] = Inr ScanMore"
| "find_scan filename j (e # es) =
     (if hd (ent_name e) = 0 then Inr ScanEnd
      else if hd (ent_name e) = 0xE5 then find_scan filename (j + 1) es
      else if attributes e = 0x0F \<or> attributes e AND ATTR_VOLUME_ID \<noteq> 0 then find_scan filename (j + 1) es
      else
        sum_bind (fat_filename_match (ent_name e) (ent_ext e) filename) (\<lambda>m.
          if m then Inr (ScanFound j) else find_scan filename (j + 1) es))"

partial_function (option) fat_find_loop :: "u8 list \<Rightarrow> u64 \<Rightarrow> nat \<Rightarrow> ('a fat_scheme, fat_dir_entry_t option) kop" where
  "fat_find_loop filename buffer i s =
     kbind (\<lambda>s. fat_read_dir_sector (current_dir_cluster s) i buffer s) (\<lambda>more.
       if \<not> more then kthen (krun (kfree buffer)) (kreturn None)
       else
         kbind (kget (entries_at buffer)) (\<lambda>es.
         kbind (kpure (find_scan filename 0 es)) (\<lambda>r s.
           case r of
             ScanEnd \<Rightarrow> kthen (krun (kfree buffer)) (kreturn None) s
           | ScanFound j \<Rightarrow> kthen (krun (kfree buffer)) (kreturn (Some (es ! j))) s
           | ScanMore \<Rightarrow> fat_find_loop filename buffer (i + 1) s))) s"

definition fat_find_file :: "u8 list \<Rightarrow> ('a fat_scheme, fat_dir_entry_t option) kop" where
  "fat_find_file filename s =
     (if \<not> is_fat_initialized s then kthen (kdo not_mounted) (kreturn None) s
      else
        kbind (kcall (kmalloc 512)) (\<lambda>buffer.
          if buffer = 0 then kreturn None else fat_find_loop filename buffer 0) s)"

section \<open>Changing the directory\<close>

text \<open>Going up: the last slash of the path, searched from the end, is where it is cut.\<close>

primrec path_up :: "nat \<Rightarrow> u8 list \<Rightarrow> fault + u8 list" where
  "path_up 0 path = Inr path"
| "path_up (Suc i) path =
     sum_bind (fetch path i) (\<lambda>c.
       if c = 0x2f then (if i = 0 then put 1 0 path else put i 0 path) else path_up i path)"

primrec put_all :: "nat \<Rightarrow> u8 list \<Rightarrow> u8 list \<Rightarrow> fault + u8 list" where
  "put_all i [] path = Inr path"
| "put_all i (c # cs) path = sum_bind (put i c path) (\<lambda>path. put_all (i + 1) cs path)"

definition path_down :: "u8 list \<Rightarrow> u8 list \<Rightarrow> fault + u8 list" where
  "path_down name path =
     (let real_name = trim_blanks 8 (name @ [0]) in
      sum_bind (strlen path) (\<lambda>len.
      sum_bind (strlen real_name) (\<lambda>dlen.
        if len + dlen + 2 < 256 then
          sum_bind (if len > 1 then sum_bind (fetch path (len - 1)) (\<lambda>c. Inr (c \<noteq> 0x2f)) else Inr False) (\<lambda>sep.
          sum_bind (if sep then put len 0x2f path else Inr path) (\<lambda>path.
            let len = (if sep then len + 1 else len) in
            sum_bind (put_all len (take dlen real_name) path) (\<lambda>path.
            put (len + dlen) 0 path)))
        else Inr path)))"

definition new_path :: "u8 list \<Rightarrow> u8 list \<Rightarrow> u8 list \<Rightarrow> fault + u8 list" where
  "new_path dirname name path =
     sum_bind (strcmp dirname (chars ''..'' @ [0])) (\<lambda>r.
       if r = 0 then sum_bind (strlen path) (\<lambda>len. if len > 1 then path_up len path else Inr path)
       else
         sum_bind (strcmp dirname (chars ''.'' @ [0])) (\<lambda>r.
           if r = 0 then Inr path else path_down name path))"

definition fat_change_dir :: "u8 list \<Rightarrow> ('a fat_scheme, unit) kop" where
  "fat_change_dir dirname s =
     (if \<not> is_fat_initialized s then kdo not_mounted s
      else
        kbind (fat_find_file dirname) (\<lambda>r.
          case r of
            None \<Rightarrow> kdo (kprint (chars ''Directory not found.'' @ [10]))
          | Some entry \<Rightarrow>
              if attributes entry AND ATTR_DIRECTORY \<noteq> 0 then
                kthen (kdo (\<lambda>s. s\<lparr>current_dir_cluster := first_cluster_low entry\<rparr>)) (
                kthen (kdo (kprint (chars ''Changed directory.'' @ [10]))) (
                kbind (kget current_path) (\<lambda>path.
                kbind (kpure (new_path dirname (ent_name entry) path)) (\<lambda>path.
                kdo (\<lambda>s. s\<lparr>current_path := path\<rparr>)))))
              else kdo (kprint (chars ''Not a directory.'' @ [10]))) s)"

section \<open>Creating an entry\<close>

text \<open>The fields that \<^verbatim>\<open>fat_create_entry\<close> assigns in the free slot; the others keep their old bytes.\<close>

definition fill_entry :: "u64 \<Rightarrow> u8 list \<Rightarrow> u8 list \<Rightarrow> u8 \<Rightarrow> u16 \<Rightarrow> u32 \<Rightarrow> 'a machine_scheme \<Rightarrow> 'a machine_scheme" where
  "fill_entry target name ext attr cluster sz s =
     (let s = poke_bytes target name s;
          s = poke_bytes (target + 8) ext s;
          s = poke (target + 11) attr s;
          s = poke (target + 12) 0 s;
          s = poke16 (target + 14) 0 s;
          s = poke16 (target + 16) 0 s;
          s = poke16 (target + 20) 0 s;
          s = poke16 (target + 26) cluster s
      in poke32 (target + 28) sz s)"

definition free_slot :: "fat_dir_entry_t list \<Rightarrow> nat option" where
  "free_slot es = find (\<lambda>k. hd (ent_name (es ! k)) = 0 \<or> hd (ent_name (es ! k)) = 0xE5) [0..<16]"

text \<open>The name that is printed is read from the buffer after it was freed.\<close>

definition final_name :: "u64 \<Rightarrow> 'a machine_scheme \<Rightarrow> u8 list" where
  "final_name target s =
     (let name = bytes_at target 8 s; ext = bytes_at (target + 8) 3 s in
      filter (\<lambda>c. c \<noteq> 32) name @ (if hd ext \<noteq> 32 then 0x2e # filter (\<lambda>c. c \<noteq> 32) ext else []) @ [0])"

definition fat_store_entry ::
  "u64 \<Rightarrow> nat \<Rightarrow> nat \<Rightarrow> u8 list \<Rightarrow> u8 list \<Rightarrow> u8 \<Rightarrow> u16 \<Rightarrow> u32 \<Rightarrow> ('a fat_scheme, bool) kop" where
  "fat_store_entry buffer sector_idx found name ext attr cluster sz =
     kthen (kdo (fill_entry (entry_addr buffer found) name ext attr cluster sz)) (
     kbind (fat_dir_lba sector_idx) (\<lambda>lba.
     kthen (krun (ata_write_sector lba buffer)) (
     kthen (krun (kfree buffer)) (
     kthen (kdo (kprint (chars ''Entry created: ''))) (
     kthen (kdo (\<lambda>s. kprint (final_name (entry_addr buffer found) s) s)) (
     kthen (kdo (kprint [10])) (
     kreturn True)))))))"

partial_function (option) fat_create_loop ::
  "u64 \<Rightarrow> nat \<Rightarrow> u8 list \<Rightarrow> u8 list \<Rightarrow> u8 \<Rightarrow> u16 \<Rightarrow> u32 \<Rightarrow> ('a fat_scheme, bool) kop" where
  "fat_create_loop buffer sector_idx name ext attr cluster sz s =
     kbind (\<lambda>s. fat_read_dir_sector (current_dir_cluster s) sector_idx buffer s) (\<lambda>more.
       if \<not> more then
         kthen (krun (kfree buffer)) (kthen (kdo (kprint (chars ''Directory full or error.'' @ [10]))) (kreturn False))
       else
         kbind (kget (entries_at buffer)) (\<lambda>es s.
           case free_slot es of
             Some found \<Rightarrow> fat_store_entry buffer sector_idx found name ext attr cluster sz s
           | None \<Rightarrow> fat_create_loop buffer (sector_idx + 1) name ext attr cluster sz s)) s"

definition fat_create_entry :: "u8 list \<Rightarrow> u8 \<Rightarrow> u16 \<Rightarrow> u32 \<Rightarrow> ('a fat_scheme, bool) kop" where
  "fat_create_entry filename attr cluster sz s =
     (if \<not> is_fat_initialized s then kreturn False s
      else
        kbind (kpure (to_83 filename)) (\<lambda>(name, ext).
        kbind (kcall (kmalloc 512)) (\<lambda>buffer.
        fat_create_loop buffer 0 name ext attr cluster sz)) s)"

section \<open>Deleting\<close>

text \<open>The entries of a sector of a directory: \<open>None\<close> when only the dot entries and deleted ones are there.\<close>

fun empty_scan :: "fat_dir_entry_t list \<Rightarrow> bool option" where
  "empty_scan [] = None"
| "empty_scan (e # es) =
     (let n = ent_name e in
      if n ! 0 = 0 then Some True
      else if n ! 0 = 0xE5 then empty_scan es
      else if n ! 0 = 0x2e \<and> (n ! 1 = 32 \<or> n ! 1 = 0x2e \<and> n ! 2 = 32) then empty_scan es
      else Some False)"

partial_function (option) fat_empty_loop :: "u16 \<Rightarrow> u64 \<Rightarrow> nat \<Rightarrow> ('a fat_scheme, bool) kop" where
  "fat_empty_loop cluster buffer i s =
     kbind (fat_read_dir_sector cluster i buffer) (\<lambda>more.
       if \<not> more then kthen (krun (kfree buffer)) (kreturn True)
       else
         kbind (kget (entries_at buffer)) (\<lambda>es s.
           case empty_scan es of
             Some r \<Rightarrow> kthen (krun (kfree buffer)) (kreturn r) s
           | None \<Rightarrow> fat_empty_loop cluster buffer (i + 1) s)) s"

definition fat_is_dir_empty :: "u16 \<Rightarrow> ('a fat_scheme, bool) kop" where
  "fat_is_dir_empty cluster =
     kbind (kcall (kmalloc 512)) (\<lambda>buffer.
       if buffer = 0 then kreturn False else fat_empty_loop cluster buffer 0)"

text \<open>
  The scans of \<^verbatim>\<open>fat_delete_file\<close> and \<^verbatim>\<open>fat_delete_dir\<close>: \<open>ScanEnd\<close> is the error return for an entry of the
  wrong kind; the end marker only ends the scan of the sector (\<open>ScanMore\<close>).
\<close>

fun delete_scan :: "u8 list \<Rightarrow> nat \<Rightarrow> fat_dir_entry_t list \<Rightarrow> fault + scan" where
  "delete_scan filename k [] = Inr ScanMore"
| "delete_scan filename k (e # es) =
     (if hd (ent_name e) = 0 then Inr ScanMore
      else if hd (ent_name e) = 0xE5 then delete_scan filename (k + 1) es
      else if attributes e AND ATTR_VOLUME_ID \<noteq> 0 then delete_scan filename (k + 1) es
      else
        sum_bind (fat_filename_match (ent_name e) (ent_ext e) filename) (\<lambda>m.
          if m then Inr (if attributes e AND ATTR_DIRECTORY \<noteq> 0 then ScanEnd else ScanFound k)
          else delete_scan filename (k + 1) es))"

text \<open>Free the chain, mark the entry, write the sector back.\<close>

definition fat_erase :: "u64 \<Rightarrow> nat \<Rightarrow> nat \<Rightarrow> ('a fat_scheme, unit) kop" where
  "fat_erase buffer sector_idx found =
     kbind (fat_dir_lba sector_idx) (\<lambda>lba.
     kbind (kget (\<lambda>s. first_cluster_low (read_entry (entry_addr buffer found) s))) (\<lambda>cluster.
     kthen (fat_free_cluster_chain cluster) (
     kthen (kdo (poke (entry_addr buffer found) 0xE5)) (
     kthen (krun (ata_write_sector lba buffer)) (
     krun (kfree buffer))))))"

partial_function (option) fat_delete_loop :: "u8 list \<Rightarrow> u64 \<Rightarrow> nat \<Rightarrow> ('a fat_scheme, bool) kop" where
  "fat_delete_loop filename buffer sector_idx s =
     kbind (\<lambda>s. fat_read_dir_sector (current_dir_cluster s) sector_idx buffer s) (\<lambda>more.
       if \<not> more then
         kthen (krun (kfree buffer)) (kthen (kdo (kprint (chars ''File not found.'' @ [10]))) (kreturn False))
       else
         kbind (kget (entries_at buffer)) (\<lambda>es.
         kbind (kpure (delete_scan filename 0 es)) (\<lambda>r s.
           case r of
             ScanEnd \<Rightarrow>
               kthen (kdo (kprint (chars ''Error: Is a directory.'' @ [10]))) (kthen (krun (kfree buffer)) (kreturn False)) s
           | ScanFound k \<Rightarrow>
               kthen (fat_erase buffer sector_idx k) (kthen (kdo (kprint (chars ''File deleted.'' @ [10]))) (kreturn True)) s
           | ScanMore \<Rightarrow> fat_delete_loop filename buffer (sector_idx + 1) s))) s"

definition fat_delete_file :: "u8 list \<Rightarrow> ('a fat_scheme, bool) kop" where
  "fat_delete_file filename s =
     (if \<not> is_fat_initialized s then kreturn False s
      else kbind (kcall (kmalloc 512)) (\<lambda>buffer. fat_delete_loop filename buffer 0) s)"

fun delete_dir_scan :: "u8 list \<Rightarrow> nat \<Rightarrow> fat_dir_entry_t list \<Rightarrow> fault + scan" where
  "delete_dir_scan dirname k [] = Inr ScanMore"
| "delete_dir_scan dirname k (e # es) =
     (if hd (ent_name e) = 0 then Inr ScanMore
      else if hd (ent_name e) = 0xE5 then delete_dir_scan dirname (k + 1) es
      else
        sum_bind (fat_filename_match (ent_name e) (ent_ext e) dirname) (\<lambda>m.
          if m then Inr (if attributes e AND ATTR_DIRECTORY = 0 then ScanEnd else ScanFound k)
          else delete_dir_scan dirname (k + 1) es))"

partial_function (option) fat_delete_dir_loop :: "u8 list \<Rightarrow> u64 \<Rightarrow> nat \<Rightarrow> ('a fat_scheme, bool) kop" where
  "fat_delete_dir_loop dirname buffer sector_idx s =
     kbind (\<lambda>s. fat_read_dir_sector (current_dir_cluster s) sector_idx buffer s) (\<lambda>more.
       if \<not> more then
         kthen (krun (kfree buffer)) (kthen (kdo (kprint (chars ''Directory not found.'' @ [10]))) (kreturn False))
       else
         kbind (kget (entries_at buffer)) (\<lambda>es.
         kbind (kpure (delete_dir_scan dirname 0 es)) (\<lambda>r s.
           case r of
             ScanEnd \<Rightarrow>
               kthen (kdo (kprint (chars ''Error: Not a directory.'' @ [10]))) (kthen (krun (kfree buffer)) (kreturn False)) s
           | ScanFound k \<Rightarrow>
               kbind (fat_is_dir_empty (first_cluster_low (es ! k))) (\<lambda>empty.
                 if \<not> empty then
                   kthen (kdo (kprint (chars ''Error: Directory not empty.'' @ [10]))) (kthen (krun (kfree buffer)) (kreturn False))
                 else
                   kthen (fat_erase buffer sector_idx k) (
                   kthen (kdo (kprint (chars ''Directory deleted.'' @ [10]))) (kreturn True))) s
           | ScanMore \<Rightarrow> fat_delete_dir_loop dirname buffer (sector_idx + 1) s))) s"

definition fat_delete_dir :: "u8 list \<Rightarrow> ('a fat_scheme, bool) kop" where
  "fat_delete_dir dirname s =
     (if \<not> is_fat_initialized s then kreturn False s
      else kbind (kcall (kmalloc 512)) (\<lambda>buffer. fat_delete_dir_loop dirname buffer 0) s)"

end
