(* ===== verification/Elf.thy ===== *)
theory Elf
  imports Vmm
begin

unbundle bit_operations_syntax

text \<open>
  The ELF loader of \<^verbatim>\<open>src/kernel/elf.c\<close> and \<^verbatim>\<open>includes/elf.h\<close>: the checks of the file header and the loading
  of the segments into fresh frames of a given address space. The file lies in memory at a given
  address, and the loader reads its headers there whenever the code does. The loops over the
  pages and the program headers are partial functions; that they always end is proved.
\<close>

definition EI_NIDENT :: nat where "EI_NIDENT = 16"
definition EI_MAG0 :: nat where "EI_MAG0 = 0"
definition EI_MAG1 :: nat where "EI_MAG1 = 1"
definition EI_MAG2 :: nat where "EI_MAG2 = 2"
definition EI_MAG3 :: nat where "EI_MAG3 = 3"
definition EI_CLASS :: nat where "EI_CLASS = 4"
definition EI_DATA :: nat where "EI_DATA = 5"
definition ELFMAG0 :: u8 where "ELFMAG0 = 0x7F"
definition ELFMAG1 :: u8 where "ELFMAG1 = of_char (CHR ''E'')"
definition ELFMAG2 :: u8 where "ELFMAG2 = of_char (CHR ''L'')"
definition ELFMAG3 :: u8 where "ELFMAG3 = of_char (CHR ''F'')"
definition ET_EXEC :: u16 where "ET_EXEC = 2"
definition ET_DYN :: u16 where "ET_DYN = 3"
definition EM_X86_64 :: u16 where "EM_X86_64 = 62"
definition PT_LOAD :: u32 where "PT_LOAD = 1"

lemmas elf_consts = EI_NIDENT_def EI_MAG0_def EI_MAG1_def EI_MAG2_def EI_MAG3_def EI_CLASS_def EI_DATA_def
  ELFMAG0_def ELFMAG1_def ELFMAG2_def ELFMAG3_def ET_EXEC_def ET_DYN_def EM_X86_64_def PT_LOAD_def

record Elf64_Ehdr =
  e_ident :: "u8 list"
  e_type :: u16
  e_machine :: u16
  e_version :: u32
  e_entry :: u64
  e_phoff :: u64
  e_shoff :: u64
  e_flags :: u32
  e_ehsize :: u16
  e_phentsize :: u16
  e_phnum :: u16
  e_shentsize :: u16
  e_shnum :: u16
  e_shstrndx :: u16

record Elf64_Phdr =
  p_type :: u32
  p_flags :: u32
  p_offset :: u64
  p_vaddr :: u64
  p_paddr :: u64
  p_filesz :: u64
  p_memsz :: u64
  p_align :: u64

definition read_ehdr :: "u64 \<Rightarrow> 'a machine_scheme \<Rightarrow> Elf64_Ehdr" where
  "read_ehdr a s =
     \<lparr>e_ident = bytes_at a EI_NIDENT s, e_type = read16 (mem s) (a + 16), e_machine = read16 (mem s) (a + 18),
      e_version = read32 (mem s) (a + 20), e_entry = read64 (mem s) (a + 24), e_phoff = read64 (mem s) (a + 32),
      e_shoff = read64 (mem s) (a + 40), e_flags = read32 (mem s) (a + 48), e_ehsize = read16 (mem s) (a + 52),
      e_phentsize = read16 (mem s) (a + 54), e_phnum = read16 (mem s) (a + 56), e_shentsize = read16 (mem s) (a + 58),
      e_shnum = read16 (mem s) (a + 60), e_shstrndx = read16 (mem s) (a + 62)\<rparr>"

definition read_phdr :: "u64 \<Rightarrow> 'a machine_scheme \<Rightarrow> Elf64_Phdr" where
  "read_phdr a s =
     \<lparr>p_type = read32 (mem s) a, p_flags = read32 (mem s) (a + 4), p_offset = read64 (mem s) (a + 8),
      p_vaddr = read64 (mem s) (a + 16), p_paddr = read64 (mem s) (a + 24), p_filesz = read64 (mem s) (a + 32),
      p_memsz = read64 (mem s) (a + 40), p_align = read64 (mem s) (a + 48)\<rparr>"

section \<open>The checks of the header\<close>

definition elf_check_file :: "u64 \<Rightarrow> 'a machine_scheme \<Rightarrow> bool \<times> 'a machine_scheme" where
  "elf_check_file hdr s =
     (let h = read_ehdr hdr s in
      if hdr = 0 then (False, s)
      else if e_ident h ! EI_MAG0 \<noteq> ELFMAG0 then (False, kprint (chars ''ELF Header Error: MAG0'' @ [10]) s)
      else if e_ident h ! EI_MAG1 \<noteq> ELFMAG1 then (False, kprint (chars ''ELF Header Error: MAG1'' @ [10]) s)
      else if e_ident h ! EI_MAG2 \<noteq> ELFMAG2 then (False, kprint (chars ''ELF Header Error: MAG2'' @ [10]) s)
      else if e_ident h ! EI_MAG3 \<noteq> ELFMAG3 then (False, kprint (chars ''ELF Header Error: MAG3'' @ [10]) s)
      else (True, s))"

definition elf_check_supported :: "u64 \<Rightarrow> 'a machine_scheme \<Rightarrow> bool \<times> 'a machine_scheme" where
  "elf_check_supported hdr s =
     (let (ok, s) = elf_check_file hdr s; h = read_ehdr hdr s in
      if \<not> ok then (False, s)
      else if e_ident h ! EI_CLASS \<noteq> 2 then (False, kprint (chars ''ELF Error: Not 64-bit'' @ [10]) s)
      else if e_ident h ! EI_DATA \<noteq> 1 then (False, kprint (chars ''ELF Error: Not Little Endian'' @ [10]) s)
      else if e_machine h \<noteq> EM_X86_64 then (False, kprint (chars ''ELF Error: Not x86-64'' @ [10]) s)
      else if e_type h \<noteq> ET_EXEC \<and> e_type h \<noteq> ET_DYN then (False, kprint (chars ''ELF Error: Not Executable'' @ [10]) s)
      else (True, s))"

section \<open>Loading\<close>

text \<open>The copy of the part of the page at \<open>vaddr\<close> that lies in the file; \<^verbatim>\<open>memcpy\<close> takes its length as an \<^verbatim>\<open>int\<close>.\<close>

definition elf_copy :: "u64 \<Rightarrow> Elf64_Phdr \<Rightarrow> u64 \<Rightarrow> u64 \<Rightarrow> 'a machine_scheme \<Rightarrow> 'a machine_scheme" where
  "elf_copy file_buffer ph vaddr paddr s =
     (let seg_data_start = p_vaddr ph;
          seg_data_end = p_vaddr ph + p_filesz ph;
          page_start = vaddr;
          page_end = vaddr + PAGE_SIZE;
          copy_start = (if page_start < seg_data_start then seg_data_start else page_start);
          copy_end = (if page_end > seg_data_end then seg_data_end else page_end)
      in if copy_start < copy_end then
           let len = copy_end - copy_start;
               file_src_offset = p_offset ph + (copy_start - p_vaddr ph);
               page_dst_offset = copy_start - page_start
           in memcpy (paddr + page_dst_offset) (file_buffer + file_src_offset) (sint (ucast len :: u32)) s
         else s)"

definition elf_load_page :: "u64 \<Rightarrow> u64 \<Rightarrow> Elf64_Phdr \<Rightarrow> u64 \<Rightarrow> 'a vmm_scheme \<Rightarrow> bool \<times> 'a vmm_scheme" where
  "elf_load_page pml4 file_buffer ph vaddr s =
     (let (paddr, s) = pmm_alloc_block s
      in if paddr = 0 then (False, kprint (chars ''ELF Load Error: OOM'' @ [10]) s)
         else
           let s = vmm_map_page pml4 vaddr paddr
                     (PAGING_FLAG_PRESENT OR PAGING_FLAG_WRITABLE OR PAGING_FLAG_USER) s;
               s = memset paddr 0 PAGE_SIZE s
           in (True, elf_copy file_buffer ph vaddr paddr s))"

partial_function (option) elf_page_loop ::
  "u64 \<Rightarrow> u64 \<Rightarrow> Elf64_Phdr \<Rightarrow> u64 \<Rightarrow> u64 \<Rightarrow> 'a vmm_scheme \<Rightarrow> (bool \<times> 'a vmm_scheme) option" where
  "elf_page_loop pml4 file_buffer ph vaddr end_vaddr s =
     (if vaddr < end_vaddr then
        let r = elf_load_page pml4 file_buffer ph vaddr s
        in if \<not> fst r then Some (False, snd r)
           else elf_page_loop pml4 file_buffer ph (vaddr + PAGE_SIZE) end_vaddr (snd r)
      else Some (True, s))"

definition elf_load_segment :: "u64 \<Rightarrow> u64 \<Rightarrow> Elf64_Phdr \<Rightarrow> 'a vmm_scheme \<Rightarrow> (bool \<times> 'a vmm_scheme) option" where
  "elf_load_segment pml4 file_buffer ph s =
     elf_page_loop pml4 file_buffer ph (p_vaddr ph AND NOT (PAGE_SIZE - 1))
       ((p_vaddr ph + p_memsz ph + PAGE_SIZE - 1) AND NOT (PAGE_SIZE - 1)) s"

text \<open>The table of program headers; the number of headers is read from the file in every round.\<close>

definition phdr_at :: "u64 \<Rightarrow> nat \<Rightarrow> u64" where
  "phdr_at phdr i = phdr + 56 * of_nat i"

partial_function (option) elf_segment_loop ::
  "u64 \<Rightarrow> u64 \<Rightarrow> u64 \<Rightarrow> nat \<Rightarrow> 'a vmm_scheme \<Rightarrow> (bool \<times> 'a vmm_scheme) option" where
  "elf_segment_loop pml4 file_buffer phdr i s =
     (if i < unat (e_phnum (read_ehdr file_buffer s)) then
        if p_type (read_phdr (phdr_at phdr i) s) = PT_LOAD then
          Option.bind (elf_load_segment pml4 file_buffer (read_phdr (phdr_at phdr i) s) s)
            (\<lambda>r. if \<not> fst r then Some (False, snd r) else elf_segment_loop pml4 file_buffer phdr (Suc i) (snd r))
        else elf_segment_loop pml4 file_buffer phdr (Suc i) s
      else Some (True, s))"

definition elf_load_file :: "u64 \<Rightarrow> u64 \<Rightarrow> 'a vmm_scheme \<Rightarrow> (u64 \<times> 'a vmm_scheme) option" where
  "elf_load_file pml4 file_buffer s =
     (let (ok, s) = elf_check_supported file_buffer s in
      if \<not> ok then Some (0, s)
      else
        map_option (\<lambda>(ok, s). if ok then (e_entry (read_ehdr file_buffer s), s) else (0, s))
          (elf_segment_loop pml4 file_buffer (file_buffer + e_phoff (read_ehdr file_buffer s)) 0 s))"

section \<open>Termination\<close>

lemma page_floor: "unat ((x :: u64) AND NOT (PAGE_SIZE - 1)) = 4096 * (unat x div 4096)"
proof -
  have m: "PAGE_SIZE - 1 = mask 12" by (simp add: PAGE_SIZE_def mask_eq_exp_minus_1)
  have "x AND NOT (PAGE_SIZE - 1) = push_bit 12 (drop_bit 12 x)"
    unfolding m by (rule bit_word_eqI) (auto simp: bit_and_iff bit_not_iff bit_push_bit_iff bit_drop_bit_eq bit_mask_iff)
  moreover have "unat x div 4096 < 2 ^ 52" by (rule unat64_div_page)
  then have "unat (of_nat (4096 * (unat x div 4096)) :: u64) = 4096 * (unat x div 4096)" by (intro unat64_of_nat) simp
  moreover have "push_bit 12 (drop_bit 12 x) = of_nat (4096 * (unat x div 4096))"
    by (simp add: push_bit_eq_mult drop_bit_eq_div word_arith_nat_div)
  ultimately show ?thesis by simp
qed

text \<open>The pages of a range, as page numbers: the loop visits them one after the other.\<close>

lemma page_loop_step:
  fixes v e :: u64
  assumes "unat v = 4096 * k" and "unat e = 4096 * m" and "k < m"
  shows "unat (v + PAGE_SIZE) = 4096 * Suc k"
proof -
  have "4096 * m < 2 ^ 64" using unat64_lt [of e] assms(2) by simp
  then have "unat v + 4096 < 2 ^ 64" using assms by linarith
  then show ?thesis using assms(1) by (simp add: PAGE_SIZE_def unat_add_lem [THEN iffD1])
qed

lemma elf_page_loop_returns:
  assumes "unat v = 4096 * k" and "unat e = 4096 * m"
  shows "\<exists>r. elf_page_loop pml4 buf ph v e s = Some r"
  using assms(1)
proof (induction "m - k" arbitrary: k v s)
  case 0
  then have "\<not> v < e" using assms(2) by (simp add: word_less_nat_alt)
  then show ?case by (subst elf_page_loop.simps) auto
next
  case (Suc d)
  then have k: "k < m" "d = m - Suc k" by simp_all
  from Suc.hyps(1) [OF k(2) page_loop_step [OF Suc.prems assms(2) k(1)]]
  show ?case by (subst elf_page_loop.simps) (auto simp: Let_def)
qed

lemma elf_load_segment_returns: "\<exists>r. elf_load_segment pml4 buf ph s = Some r"
  unfolding elf_load_segment_def by (rule elf_page_loop_returns [OF page_floor page_floor])

lemma elf_segment_loop_returns: "\<exists>r. elf_segment_loop pml4 buf phdr i s = Some r"
proof (induction "65536 - i" arbitrary: i s)
  case 0
  have "unat (e_phnum (read_ehdr buf s)) < 65536" using unsigned_less [of "e_phnum (read_ehdr buf s)", where 'a = nat] by simp
  then show ?case using 0 by (subst elf_segment_loop.simps) auto
next
  case (Suc d)
  then have "d = 65536 - Suc i" by simp
  note IH = Suc.hyps(1) [OF this]
  obtain r where r: "elf_load_segment pml4 buf (read_phdr (phdr_at phdr i) s) s = Some r"
    using elf_load_segment_returns by blast
  show ?case using IH r by (subst elf_segment_loop.simps) auto
qed

section \<open>Adding a page to an address space\<close>

text \<open>
  What the loaders do for one page: a free frame \<open>p\<close> is taken, filled and mapped at \<open>v\<close>. Only the
  tables, the frame, the bitmap and the screen change, and new tables are other free frames.
\<close>

definition page_added :: "u64 \<Rightarrow> u64 \<Rightarrow> u64 \<Rightarrow> (u64 \<rightharpoonup> nat) \<Rightarrow> (u64 \<rightharpoonup> nat) \<Rightarrow> 'a vmm_scheme \<Rightarrow> 'a vmm_scheme \<Rightarrow> bool" where
  "page_added r v p T T' s s' \<longleftrightarrow> pt_wf s' T' \<and> T \<subseteq>\<^sub>m T' \<and> p \<in> free_frames s \<and> p \<in> frames s \<and>
     dom T' \<subseteq> dom T \<union> (free_frames s - {p}) \<and> frames s' = frames s \<and>
     free_frames s' \<subseteq> free_frames s - {p} \<and> card (free_frames s) \<le> card (free_frames s') + 4 \<and>
     (\<forall>a. a \<notin> bitmap_area \<union> video_window \<union> (\<Union>t \<in> dom T'. region t 4096) \<union> region p 4096 \<longrightarrow> mem s' a = mem s a) \<and>
     (\<forall>w. translate r w s' = (if page_of w = page_of v then Some (p OR kernel_flags) else translate r w s))"

text \<open>Taking a frame and filling a frame that is no table change no table.\<close>

lemma alloc_tables:
  assumes wf: "pt_wf s T" and t: "touches bitmap_area s s1" and pmm: "pmm_wf s1"
    and fr: "frames s1 = frames s" "free_frames s1 \<subseteq> free_frames s"
  shows "pt_wf s1 T" and "T r = Some 0 \<Longrightarrow> translate r w s1 = translate r w s"
proof -
  have e: "get_entry a i s1 = get_entry a i s" if "a \<in> dom T" "unat i < 512" for a i
    using get_entry_frame [OF t _ that(2)] frame_regions(1) [OF pt_wf_pmm [OF wf]] pt_wf_frame [OF wf] that(1)
    by (auto simp: Int_commute)
  have e': "get_entry a i s1 = get_entry a i s" if "T a = Some d" "unat i < 512" for a i d
    using e that by blast
  show "pt_wf s1 T" using wf pmm fr unfolding pt_wf_def fr(1) by (auto simp: e')
  show "translate r w s1 = translate r w s" if "T r = Some 0" by (rule translate_cong(2) [OF wf that e])
qed

lemma fill_tables:
  assumes wf: "pt_wf s T" and t: "touches (region p 4096) s s'" and p: "p \<in> frames s" "p \<notin> dom T"
  shows "pt_wf s' T" and "T r = Some 0 \<Longrightarrow> translate r w s' = translate r w s"
    and "frames s' = frames s" and "free_frames s' = free_frames s"
proof -
  note pmm = pt_wf_pmm [OF wf]
  have "region p 4096 \<inter> region a 4096 = {}" if "a \<in> dom T" for a
    by (rule frame_regions(3) [OF pmm p(1)]) (use pt_wf_frame [OF wf] that p(2) in auto)
  note keep = pt_frame [OF wf t frame_regions(1) [OF pmm p(1)] this]
  show "pt_wf s' T" by (rule keep(1))
  show "translate r w s' = translate r w s" if "T r = Some 0" by (rule translate_cong(2) [OF wf that keep(2)])
  show "frames s' = frames s" by (rule touches_frames [OF t])
  show "free_frames s' = free_frames s"
    using pmm_frame(2) [OF pmm t frame_regions(1) [OF pmm p(1)]] by (simp add: free_frames_def)
qed

lemma map_tables:
  assumes wf: "pt_wf s T" and r: "T r = Some 0" and p: "p \<in> frames s" and room: "3 \<le> card (free_frames s)"
  obtains T' where "pt_wf (vmm_map_page r v p kernel_flags s) T'" "T \<subseteq>\<^sub>m T'" "dom T' \<subseteq> dom T \<union> free_frames s"
    "frames (vmm_map_page r v p kernel_flags s) = frames s"
    "free_frames (vmm_map_page r v p kernel_flags s) \<subseteq> free_frames s"
    "card (free_frames s) \<le> card (free_frames (vmm_map_page r v p kernel_flags s)) + 3"
    "\<And>a. a \<notin> bitmap_area \<union> video_window \<union> (\<Union>t \<in> dom T'. region t 4096) \<Longrightarrow>
       mem (vmm_map_page r v p kernel_flags s) a = mem s a"
    "\<And>w. translate r w (vmm_map_page r v p kernel_flags s) =
       (if page_of w = page_of v then Some (p OR kernel_flags) else translate r w s)"
proof -
  let ?s = "vmm_map_page r v p kernel_flags s"
  obtain m where m: "m < max_blocks" "p = of_nat (4096 * m)" using pt_wf_pmm [OF wf] p by (rule frames_obtain)
  then have e: "(p AND ADDR_MASK) OR kernel_flags = p OR kernel_flags"
    using page_entry [of m kernel_flags] by (simp add: max_blocks_def)
  have room': "\<not> card (free_frames s) < missing 3 r v s" using missing_le [of 3 r v s] room by simp
  from map_page_spec [OF wf r refl refl, of v p kernel_flags] room'
  obtain T' where T': "pt_wf ?s T'" "T \<subseteq>\<^sub>m T'" "free_frames ?s \<subseteq> free_frames s" "dom T' \<subseteq> dom T \<union> free_frames s"
    "touches (bitmap_area \<union> video_window \<union> (\<Union>a \<in> dom T'. region a 4096)) s (?s\<lparr>tlb := tlb s\<rparr>)"
    "card (free_frames s) \<le> card (free_frames ?s) + missing 3 r v s" "table_at r v 3 ?s \<noteq> None"
    and tr: "\<And>w. translate r w ?s = (if table_at r w 3 ?s = table_at r v 3 ?s \<and> vindex 3 w = vindex 3 v
       then Some (p OR kernel_flags) else translate r w s)"
    using r unfolding e by (auto simp: page_present)
  have r': "T' r = Some 0" using T'(2) r by (metis domI map_le_def)
  have "frames ?s = frames s" using touches_frames [OF T'(5)] by (simp add: frames_def)
  moreover have "translate r w ?s = (if page_of w = page_of v then Some (p OR kernel_flags) else translate r w s)" for w
    using tr [of w] same_page_iff [OF T'(1) r' T'(7), of w] by simp
  moreover have "card (free_frames s) \<le> card (free_frames ?s) + 3" using T'(6) missing_le [of 3 r v s] by simp
  ultimately show thesis using that [OF T'(1,2,4)] T'(3) touches_mem [OF T'(5)] by simp
qed

lemma take_frame:
  assumes wf: "pt_wf s T" and room: "4 \<le> card (free_frames s)"
  obtains p s1 where "pmm_alloc_block s = (p, s1)" "p \<noteq> 0" "p \<in> free_frames s" "p \<in> frames s" "p \<notin> dom T" "pt_wf s1 T"
    "frames s1 = frames s" "free_frames s1 = free_frames s - {p}" "card (free_frames s) = card (free_frames s1) + 1"
    "\<And>a. a \<notin> bitmap_area \<Longrightarrow> mem s1 a = mem s a" "\<And>r w. T r = Some 0 \<Longrightarrow> translate r w s1 = translate r w s"
proof -
  have "free_frames s \<noteq> {}" using room by auto
  with pt_wf_pmm [OF wf] obtain p s1 where p: "pmm_alloc_block s = (p, s1)" "p \<noteq> 0" "p \<in> free_frames s"
    "p \<in> frames s" "pmm_wf s1" "frames s1 = frames s" "free_frames s1 = free_frames s - {p}" "touches bitmap_area s s1"
    by (rule alloc_frame)
  have "p \<notin> dom T" using pt_wf_frame [OF wf, of p] p(3) by auto
  moreover have "card (free_frames s) = card (free_frames s1) + 1"
    using card_Suc_Diff1 [OF page_frames.avail_finite [OF pt_wf_pmm [OF wf]] p(3)] p(7) by simp
  moreover note alloc_tables [OF wf p(8,5,6)]
  ultimately show thesis using that [OF p(1-4) _ _ p(6,7)] p(7) touches_mem [OF p(8)] by auto
qed

text \<open>The two orders in which the loaders fill and map the frame.\<close>

lemma page_added_map_fill:
  assumes wf: "pt_wf s T" and r: "T r = Some 0" and room: "4 \<le> card (free_frames s)" and a: "pmm_alloc_block s = (p, s1)"
    and fill: "touches (region p 4096) (vmm_map_page r v p kernel_flags s1) s'"
  shows "p \<noteq> 0 \<and> (\<exists>T'. page_added r v p T T' s s')"
proof -
  obtain q u where q: "pmm_alloc_block s = (q, u)" "q \<noteq> 0" "q \<in> free_frames s" "q \<in> frames s" "q \<notin> dom T" "pt_wf u T"
    "frames u = frames s" "free_frames u = free_frames s - {q}" "card (free_frames s) = card (free_frames u) + 1"
    "\<And>a. a \<notin> bitmap_area \<Longrightarrow> mem u a = mem s a" "\<And>r w. T r = Some 0 \<Longrightarrow> translate r w u = translate r w s"
    using take_frame [OF wf room] by metis
  have [simp]: "q = p" "u = s1" using a q(1) by simp_all
  note q = q [simplified]
  have p1: "p \<in> frames s1" and room1: "3 \<le> card (free_frames s1)" using q room by simp_all
  obtain T' where T': "pt_wf (vmm_map_page r v p kernel_flags s1) T'" "T \<subseteq>\<^sub>m T'" "dom T' \<subseteq> dom T \<union> free_frames s1"
    "frames (vmm_map_page r v p kernel_flags s1) = frames s1"
    "free_frames (vmm_map_page r v p kernel_flags s1) \<subseteq> free_frames s1"
    "card (free_frames s1) \<le> card (free_frames (vmm_map_page r v p kernel_flags s1)) + 3"
    "\<And>a. a \<notin> bitmap_area \<union> video_window \<union> (\<Union>t \<in> dom T'. region t 4096) \<Longrightarrow>
       mem (vmm_map_page r v p kernel_flags s1) a = mem s1 a"
    "\<And>w. translate r w (vmm_map_page r v p kernel_flags s1) =
       (if page_of w = page_of v then Some (p OR kernel_flags) else translate r w s1)"
    by (rule map_tables [OF q(6) r p1 room1, of v]) (rule that; assumption)
  have r': "T' r = Some 0" using T'(2) r by (metis domI map_le_def)
  have "p \<notin> dom T'" using T'(3) q(5,8) by auto
  moreover have "p \<in> frames (vmm_map_page r v p kernel_flags s1)" using T'(4) q by simp
  ultimately have f: "pt_wf s' T'" "\<And>w. translate r w s' = translate r w (vmm_map_page r v p kernel_flags s1)"
    "frames s' = frames s" "free_frames s' = free_frames (vmm_map_page r v p kernel_flags s1)"
    using fill_tables [OF T'(1) fill] r' T'(4) q(7) by auto
  have 1: "mem s' a = mem s a" if "a \<notin> bitmap_area \<union> video_window \<union> (\<Union>t \<in> dom T'. region t 4096) \<union> region p 4096" for a
    using that touches_mem [OF fill, of a] T'(7) [of a] q(10) [of a] by simp
  have 2: "dom T' \<subseteq> dom T \<union> (free_frames s - {p})" using T'(3) unfolding q(8) .
  have 3: "free_frames s' \<subseteq> free_frames s - {p}" using T'(5) unfolding f(4) q(8) .
  have 4: "card (free_frames s) \<le> card (free_frames s') + 4" using T'(6) q(9) unfolding f(4) by linarith
  have 5: "translate r w s' = (if page_of w = page_of v then Some (p OR kernel_flags) else translate r w s)" for w
    unfolding f(2) T'(8) q(11) [OF r] ..
  have "page_added r v p T T' s s'"
    unfolding page_added_def using f(1) T'(2) q(3,4) 2 f(3) 3 4 1 5 by (intro conjI allI impI)
  with q(2) show ?thesis by blast
qed

lemma page_added_fill_map:
  assumes wf: "pt_wf s T" and r: "T r = Some 0" and room: "4 \<le> card (free_frames s)" and a: "pmm_alloc_block s = (p, s1)"
    and fill: "touches (region p 4096) s1 s2"
  shows "p \<noteq> 0 \<and> (\<exists>T'. page_added r v p T T' s (vmm_map_page r v p kernel_flags s2) \<and>
    (\<forall>a \<in> region p 4096. mem (vmm_map_page r v p kernel_flags s2) a = mem s2 a))"
proof -
  let ?s = "vmm_map_page r v p kernel_flags s2"
  obtain q u where q: "pmm_alloc_block s = (q, u)" "q \<noteq> 0" "q \<in> free_frames s" "q \<in> frames s" "q \<notin> dom T" "pt_wf u T"
    "frames u = frames s" "free_frames u = free_frames s - {q}" "card (free_frames s) = card (free_frames u) + 1"
    "\<And>a. a \<notin> bitmap_area \<Longrightarrow> mem u a = mem s a" "\<And>r w. T r = Some 0 \<Longrightarrow> translate r w u = translate r w s"
    using take_frame [OF wf room] by metis
  have [simp]: "q = p" "u = s1" using a q(1) by simp_all
  note q = q [simplified]
  have "p \<in> frames s1" using q by simp
  note f = fill_tables [OF q(6) fill this q(5)]
  have p2: "p \<in> frames s2" and room2: "3 \<le> card (free_frames s2)" using q f room by simp_all
  obtain T' where T': "pt_wf ?s T'" "T \<subseteq>\<^sub>m T'" "dom T' \<subseteq> dom T \<union> free_frames s2"
    "frames ?s = frames s2" "free_frames ?s \<subseteq> free_frames s2" "card (free_frames s2) \<le> card (free_frames ?s) + 3"
    "\<And>a. a \<notin> bitmap_area \<union> video_window \<union> (\<Union>t \<in> dom T'. region t 4096) \<Longrightarrow> mem ?s a = mem s2 a"
    "\<And>w. translate r w ?s = (if page_of w = page_of v then Some (p OR kernel_flags) else translate r w s2)"
    by (rule map_tables [OF f(1) r p2 room2, of v]) (rule that; assumption)
  have 1: "mem ?s a = mem s a" if "a \<notin> bitmap_area \<union> video_window \<union> (\<Union>t \<in> dom T'. region t 4096) \<union> region p 4096" for a
    using that touches_mem [OF fill, of a] T'(7) [of a] q(10) [of a] by simp
  have 2: "dom T' \<subseteq> dom T \<union> (free_frames s - {p})" using T'(3) unfolding f(4) q(8) .
  have 3: "free_frames ?s \<subseteq> free_frames s - {p}" using T'(5) unfolding f(4) q(8) .
  have 4: "card (free_frames s) \<le> card (free_frames ?s) + 4" using T'(6) q(9) unfolding f(4) by linarith
  have 5: "translate r w ?s = (if page_of w = page_of v then Some (p OR kernel_flags) else translate r w s)" for w
    unfolding T'(8) f(2) [OF r] q(11) [OF r] ..
  have 6: "frames ?s = frames s" unfolding T'(4) f(3) q(7) ..
  have "page_added r v p T T' s ?s"
    unfolding page_added_def using T'(1,2) q(3,4) 2 6 3 4 1 5 by (intro conjI allI impI)
  moreover have "mem ?s a = mem s2 a" if a: "a \<in> region p 4096" for a
  proof (rule T'(7))
    have pf: "p \<in> frames ?s" "p \<notin> dom T'" using q(4,5) 2 6 by auto
    note pmm = pt_wf_pmm [OF T'(1)]
    have "a \<notin> region t 4096" if "t \<in> dom T'" for t
      using frame_regions(3) [OF pmm pf(1), of t] pt_wf_frame [OF T'(1)] that pf(2) a by blast
    then show "a \<notin> bitmap_area \<union> video_window \<union> (\<Union>t \<in> dom T'. region t 4096)"
      using frame_regions(1,2) [OF pmm pf(1)] a by blast
  qed
  ultimately show ?thesis using q(2) by blast
qed

section \<open>What a page holds\<close>

text \<open>
  Page \<open>j\<close> of the address space \<open>r\<close> is loaded with \<open>f\<close>: it is mapped for the user, writable, to a frame in use
  that is no table, and the frame holds the bytes that \<open>f\<close> gives for the addresses of the page.
\<close>

definition loaded :: "u64 \<Rightarrow> (u64 \<rightharpoonup> nat) \<Rightarrow> 'a vmm_scheme \<Rightarrow> nat \<Rightarrow> (nat \<Rightarrow> u8) \<Rightarrow> bool" where
  "loaded r T s j f \<longleftrightarrow> (\<exists>q \<in> frames s - free_frames s - dom T. translate r (of_nat (4096 * j)) s = Some (q OR kernel_flags) \<and>
     (\<forall>i < 4096. mem s (q + of_nat i) = f (4096 * j + i)))"

definition file_apart :: "u64 \<Rightarrow> nat \<Rightarrow> (u64 \<rightharpoonup> nat) \<Rightarrow> 'a vmm_scheme \<Rightarrow> bool" where
  "file_apart buf n T s \<longleftrightarrow> region buf n \<inter> (bitmap_area \<union> video_window \<union> (\<Union>a \<in> dom T \<union> free_frames s. region a 4096)) = {}"

lemma page_number: "j < 2 ^ 36 \<Longrightarrow> k < 2 ^ 36 \<Longrightarrow> page_of (of_nat (4096 * j)) = page_of (of_nat (4096 * k)) \<longleftrightarrow> j = k"
  by (simp only: page_of_page) (rule of_nat_u64_inj; simp)

lemma loaded_keep:
  assumes wf: "pt_wf s T" and pa: "page_added r (of_nat (4096 * k)) p T T' s s'"
    and j: "j < 2 ^ 36" "k < 2 ^ 36" "j \<noteq> k" and l: "loaded r T s j f"
  shows "loaded r T' s' j f"
proof -
  from l obtain q where q: "q \<in> frames s" "q \<notin> free_frames s" "q \<notin> dom T"
    "translate r (of_nat (4096 * j)) s = Some (q OR kernel_flags)" "\<forall>i < 4096. mem s (q + of_nat i) = f (4096 * j + i)"
    by (auto simp: loaded_def)
  have pa': "pt_wf s' T'" "p \<in> free_frames s" "p \<in> frames s" "dom T' \<subseteq> dom T \<union> (free_frames s - {p})" "frames s' = frames s"
    "free_frames s' \<subseteq> free_frames s - {p}"
    and m: "\<And>a. a \<notin> bitmap_area \<union> video_window \<union> (\<Union>t \<in> dom T'. region t 4096) \<union> region p 4096 \<Longrightarrow> mem s' a = mem s a"
    and tr: "\<And>w. translate r w s' = (if page_of w = page_of (of_nat (4096 * k)) then Some (p OR kernel_flags) else translate r w s)"
    using pa unfolding page_added_def by blast+
  note pmm = pt_wf_pmm [OF wf]
  have q': "q \<notin> dom T'" "q \<noteq> p" "q \<notin> free_frames s'" using pa' q by auto
  have "region q 4096 \<inter> region t 4096 = {}" if "t \<in> dom T'" for t
    by (rule frame_regions(3) [OF pmm q(1)]) (use pt_wf_frame [OF pa'(1)] pa'(5) that q'(1) in auto)
  then have "mem s' a = mem s a" if "a \<in> region q 4096" for a
    using that frame_regions(1,2) [OF pmm q(1)] frame_regions(3) [OF pmm q(1) pa'(3) q'(2)] by (intro m) blast
  then have "\<forall>i < 4096. mem s' (q + of_nat i) = f (4096 * j + i)" using q(5) by (simp add: in_region_offset)
  moreover have "translate r (of_nat (4096 * j)) s' = Some (q OR kernel_flags)"
    using tr [of "of_nat (4096 * j)"] page_number [OF j(1,2)] j(3) q(4) by simp
  ultimately show ?thesis unfolding loaded_def using q(1) q' pa'(5) by blast
qed

lemma file_keep:
  assumes pa: "page_added r v p T T' s s'" and ap: "file_apart buf n T s"
  shows "file_apart buf n T' s'" and "\<And>a. a \<in> region buf n \<Longrightarrow> mem s' a = mem s a"
proof -
  have pa': "p \<in> free_frames s" "dom T' \<subseteq> dom T \<union> (free_frames s - {p})" "free_frames s' \<subseteq> free_frames s - {p}"
    and m: "\<And>a. a \<notin> bitmap_area \<union> video_window \<union> (\<Union>t \<in> dom T'. region t 4096) \<union> region p 4096 \<Longrightarrow> mem s' a = mem s a"
    using pa unfolding page_added_def by blast+
  have "dom T' \<union> free_frames s' \<subseteq> dom T \<union> free_frames s" using pa'(2,3) by blast
  then have "(\<Union>a \<in> dom T' \<union> free_frames s'. region a 4096) \<subseteq> (\<Union>a \<in> dom T \<union> free_frames s. region a 4096)"
    by (rule UN_mono) simp
  then show "file_apart buf n T' s'" using ap unfolding file_apart_def by blast
  show "mem s' a = mem s a" if "a \<in> region buf n" for a
  proof -
    have 1: "a \<notin> bitmap_area" "a \<notin> video_window" "\<And>t. t \<in> dom T \<union> free_frames s \<Longrightarrow> a \<notin> region t 4096"
      using ap that unfolding file_apart_def by blast+
    have "a \<notin> region t 4096" if "t \<in> dom T'" for t by (rule 1(3)) (use pa'(2) that in blast)
    moreover have "a \<notin> region p 4096" by (rule 1(3)) (use pa'(1) in blast)
    ultimately show ?thesis using 1(1,2) by (intro m) simp
  qed
qed

text \<open>A copy into a part of a page.\<close>

lemma memcpy_part:
  assumes "d + l \<le> 4096" and "region (p + of_nat d) l \<inter> region src l = {}" and "i < 4096"
  shows "memcpy_loop m (p + of_nat d) src l (p + of_nat i) =
    (if d \<le> i \<and> i < d + l then m (src + of_nat (i - d)) else m (p + of_nat i))"
proof (cases "d \<le> i \<and> i < d + l")
  case True
  then have "p + of_nat i = p + of_nat d + of_nat (i - d)" by simp
  moreover have "i - d < l" using True by linarith
  ultimately show ?thesis using True memcpy_loop_disjoint [OF _ assms(2), of "i - d" m] assms(1) by simp
next
  case False
  have "p + of_nat i \<notin> region (p + of_nat d) l"
  proof (cases "d \<le> i")
    case True
    then have "p + of_nat i - (p + of_nat d) = of_nat (i - d)" by simp
    moreover have "unat (of_nat (i - d) :: u64) = i - d" using assms(3) by (intro unat64_of_nat) simp
    ultimately have "unat (p + of_nat i - (p + of_nat d)) = i - d" by (simp only:)
    then show ?thesis unfolding region_iff using False True by linarith
  next
    case d: False
    then have "p + of_nat d - (p + of_nat i) = of_nat (d - i)" by simp
    then have "p + of_nat i - (p + of_nat d) = - of_nat (d - i)" by (metis minus_diff_eq)
    also have "\<dots> = of_nat (2 ^ 64 - (d - i))" using d assms(1) by simp
    finally have "p + of_nat i - (p + of_nat d) = of_nat (2 ^ 64 - (d - i))" .
    moreover have "unat (of_nat (2 ^ 64 - (d - i)) :: u64) = 2 ^ 64 - (d - i)" using d by (intro unat64_of_nat) simp
    ultimately have "unat (p + of_nat i - (p + of_nat d)) = 2 ^ 64 - (d - i)" by (simp only:)
    then show ?thesis unfolding region_iff using d assms(1) by simp
  qed
  then show ?thesis using False assms(1) by (auto simp: memcpy_loop_outside)
qed

text \<open>
  The byte of a segment at an address: from the file inside the file part, 0 in the rest of the
  pages of the segment.
\<close>

definition seg_byte :: "memory \<Rightarrow> u64 \<Rightarrow> Elf64_Phdr \<Rightarrow> nat \<Rightarrow> u8" where
  "seg_byte m buf ph a =
     (if unat (p_vaddr ph) \<le> a \<and> a < unat (p_vaddr ph) + unat (p_filesz ph)
      then m (buf + p_offset ph + of_nat (a - unat (p_vaddr ph))) else 0)"

definition seg_in_file :: "nat \<Rightarrow> Elf64_Phdr \<Rightarrow> bool" where
  "seg_in_file n ph \<longleftrightarrow> unat (p_offset ph) + unat (p_filesz ph) \<le> n \<and> n < 2 ^ 32 \<and>
     unat (p_vaddr ph) + unat (p_memsz ph) + 4096 \<le> 2 ^ 47"

lemma seg_byte_cong:
  assumes "seg_in_file n ph" and "\<And>a. a \<in> region buf n \<Longrightarrow> m' a = m a"
  shows "seg_byte m' buf ph x = seg_byte m buf ph x"
proof -
  have "m' (buf + p_offset ph + of_nat (x - unat (p_vaddr ph))) = m (buf + p_offset ph + of_nat (x - unat (p_vaddr ph)))"
    if "unat (p_vaddr ph) \<le> x" "x < unat (p_vaddr ph) + unat (p_filesz ph)"
  proof (rule assms(2))
    let ?i = "unat (p_offset ph) + (x - unat (p_vaddr ph))"
    have "?i < n" "n \<le> 2 ^ 64" using assms(1) that by (auto simp: seg_in_file_def)
    then have "buf + of_nat ?i \<in> region buf n" by (rule in_region_offset)
    then show "buf + p_offset ph + of_nat (x - unat (p_vaddr ph)) \<in> region buf n"
      by (simp only: of_nat_add of_nat_unat ucast_id add.assoc)
  qed
  then show ?thesis by (auto simp: seg_byte_def)
qed

lemma sint_len: "l \<le> 4096 \<Longrightarrow> sint (ucast (of_nat l :: u64) :: u32) = int l"
proof -
  assume l: "l \<le> 4096"
  have "ucast (of_nat l :: u64) = (of_nat l :: u32)"
    by (simp add: unsigned_of_nat) (use l in \<open>simp add: take_bit_nat_eq_self\<close>)
  then show ?thesis using l by (simp add: signed_of_nat signed_take_bit_int_eq_self)
qed

text \<open>The copied range of page \<open>k\<close>, in numbers.\<close>

definition copy_from :: "nat \<Rightarrow> Elf64_Phdr \<Rightarrow> nat" where
  "copy_from k ph = max (4096 * k) (unat (p_vaddr ph))"

definition copy_to :: "nat \<Rightarrow> Elf64_Phdr \<Rightarrow> nat" where
  "copy_to k ph = min (4096 * k + 4096) (unat (p_vaddr ph) + unat (p_filesz ph))"

lemma elf_copy_eq:
  assumes k: "k < 2 ^ 36" and seg: "seg_in_file n ph"
  shows "elf_copy buf ph (of_nat (4096 * k)) p s =
    (if copy_from k ph < copy_to k ph then
       memcpy (p + of_nat (copy_from k ph - 4096 * k)) (buf + of_nat (unat (p_offset ph) + (copy_from k ph - unat (p_vaddr ph))))
         (int (copy_to k ph - copy_from k ph)) s
     else s)"
proof -
  let ?S = "unat (p_vaddr ph)" and ?L = "unat (p_filesz ph)" and ?v = "4096 * k" and ?C = "copy_from k ph" and ?E = "copy_to k ph"
  have uv: "unat (of_nat ?v :: u64) = ?v" using k by (intro unat64_of_nat) simp
  have ue: "unat (of_nat ?v + PAGE_SIZE) = ?v + 4096"
    using unat64_of_nat [of "?v + 4096"] k by (simp add: PAGE_SIZE_def)
  have us: "unat (p_vaddr ph + p_filesz ph) = ?S + ?L"
    using seg by (intro unat_add_lem [THEN iffD1]) (simp add: seg_in_file_def)
  have cs: "(if of_nat ?v < p_vaddr ph then p_vaddr ph else of_nat ?v) = of_nat ?C"
    unfolding word_less_nat_alt uv by (simp add: copy_from_def max_def)
  have ce: "(if of_nat ?v + PAGE_SIZE > p_vaddr ph + p_filesz ph then p_vaddr ph + p_filesz ph else of_nat ?v + PAGE_SIZE) = of_nat ?E"
    unfolding word_less_nat_alt ue us by (simp add: copy_to_def min_def PAGE_SIZE_def)
  have "?E \<le> ?S + ?L" "?E \<le> ?v + 4096" by (simp_all add: copy_to_def)
  then have "?C < 2 ^ 48" "?E < 2 ^ 48" using k seg unfolding copy_from_def seg_in_file_def by auto
  then have lt: "(of_nat ?C :: u64) < of_nat ?E \<longleftrightarrow> ?C < ?E" by (simp add: word_less_nat_alt unat64_of_nat)
  have vC: "?v \<le> ?C" "?S \<le> ?C" by (simp_all add: copy_from_def)
  have w: "of_nat ?C - of_nat ?v = (of_nat (?C - ?v) :: u64)"
    "p_offset ph + (of_nat ?C - p_vaddr ph) = of_nat (unat (p_offset ph) + (?C - ?S))"
    by (simp_all only: of_nat_diff [OF vC(1)] of_nat_add of_nat_diff [OF vC(2)] of_nat_unat ucast_id)
  have l: "of_nat ?E - of_nat ?C = (of_nat (?E - ?C) :: u64)" "?E - ?C \<le> 4096" if "?C < ?E"
    using of_nat_diff [OF less_imp_le [OF that], where 'a = u64] \<open>?E \<le> ?v + 4096\<close> vC(1) by simp_all
  show ?thesis unfolding elf_copy_def Let_def cs ce lt w
    by (cases "?C < ?E") (simp_all only: if_True if_False l sint_len)
qed

lemma elf_copy_spec:
  assumes k: "k < 2 ^ 36" and seg: "seg_in_file n ph" and apart: "region buf n \<inter> region p 4096 = {}"
    and s': "s' = elf_copy buf ph (of_nat (4096 * k)) p (memset p 0 PAGE_SIZE s)"
  shows "touches (region p 4096) s s' \<and> (\<forall>i < 4096. mem s' (p + of_nat i) = seg_byte (mem s) buf ph (4096 * k + i))"
proof -
  let ?S = "unat (p_vaddr ph)" and ?L = "unat (p_filesz ph)" and ?v = "4096 * k" and ?s = "memset p 0 PAGE_SIZE s"
  let ?C = "copy_from k ph" and ?E = "copy_to k ph"
  let ?d = "?C - ?v" and ?l = "?E - ?C" and ?o = "unat (p_offset ph) + (?C - ?S)"
  have ms: "mem ?s b = (if b \<in> region p 4096 then 0 else mem s b)" for b
    by (simp add: memset_def memset_loop_apply PAGE_SIZE_def)
  have tm: "touches (region p 4096) s ?s" by (rule touches_memset) (simp add: PAGE_SIZE_def)
  have in_p: "p + of_nat i \<in> region p 4096" if "i < 4096" for i using that by (rule in_region_offset) simp
  have eq: "s' = (if ?C < ?E then memcpy (p + of_nat ?d) (buf + of_nat ?o) (int ?l) ?s else ?s)"
    unfolding s' by (rule elf_copy_eq [OF k seg])
  show ?thesis
  proof (cases "?C < ?E")
    case False
    then have "seg_byte (mem s) buf ph (?v + i) = 0" if "i < 4096" for i
      using that by (auto simp: seg_byte_def copy_from_def copy_to_def)
    then show ?thesis using False tm in_p by (simp add: eq ms)
  next
    case True
    have dl: "?d + ?l \<le> 4096" "?o + ?l \<le> n"
      using seg True by (auto simp: copy_from_def copy_to_def seg_in_file_def)
    have rs: "region (buf + of_nat ?o) ?l \<subseteq> region buf n"
      using dl(2) seg by (intro region_sub) (simp_all add: seg_in_file_def)
    have rd: "region (p + of_nat ?d) ?l \<subseteq> region p 4096" using dl(1) by (intro region_sub) simp_all
    have disj: "region (p + of_nat ?d) ?l \<inter> region (buf + of_nat ?o) ?l = {}" using rs rd apart by blast
    have "touches (region p 4096) ?s s'" 
    proof -
      have "touches (region p 4096) ?s (memcpy (p + of_nat ?d) (buf + of_nat ?o) (int ?l) ?s)"
        by (rule touches_memcpy) (use rd dl(1) in \<open>simp_all only: nat_int, simp\<close>)
      then show ?thesis unfolding eq using True by simp
    qed
    with tm have t: "touches (region p 4096) s s'" by (rule touches_trans)
    have m': "mem s' = memcpy_loop (mem ?s) (p + of_nat ?d) (buf + of_nat ?o) ?l"
      unfolding eq using True by (simp only: if_True memcpy_def nat_int) simp
    have "mem s' (p + of_nat i) = seg_byte (mem s) buf ph (?v + i)" if i: "i < 4096" for i
    proof -
      have di: "?d \<le> i \<and> i < ?d + ?l \<longleftrightarrow> ?S \<le> ?v + i \<and> ?v + i < ?S + ?L"
        using True i by (auto simp: copy_from_def copy_to_def)
      have o: "?o + (i - ?d) = unat (p_offset ph) + (?v + i - ?S)" if "?d \<le> i" using that by (auto simp: copy_from_def)
      have src: "buf + of_nat ?o + of_nat (i - ?d) = buf + p_offset ph + of_nat (?v + i - ?S)" if "?d \<le> i"
        using arg_cong [OF o [OF that], of "of_nat :: nat \<Rightarrow> u64"] by (simp only: of_nat_add add.assoc of_nat_unat ucast_id)
      have "buf + of_nat ?o + of_nat (i - ?d) \<in> region (buf + of_nat ?o) ?l" if "?d \<le> i \<and> i < ?d + ?l"
        using that dl(1) by (intro in_region_offset) auto
      then have "mem ?s (buf + of_nat ?o + of_nat (i - ?d)) = mem s (buf + of_nat ?o + of_nat (i - ?d))" if "?d \<le> i \<and> i < ?d + ?l"
        using that rs apart unfolding ms by auto
      with src have "mem ?s (buf + of_nat ?o + of_nat (i - ?d)) = mem s (buf + p_offset ph + of_nat (?v + i - ?S))"
        if "?d \<le> i \<and> i < ?d + ?l" using that by (simp only:)
      moreover have "mem ?s (p + of_nat i) = 0" using in_p [OF i] by (simp only: ms if_True)
      ultimately show ?thesis unfolding m' memcpy_part [OF dl(1) disj i] seg_byte_def di [symmetric] by simp
    qed
    with t show ?thesis by blast
  qed
qed

section \<open>Loading the segments\<close>

text \<open>One page, with frames left for the page and for the tables on the way to it.\<close>

lemma elf_load_page_spec:
  assumes wf: "pt_wf s T" and r: "T r = Some 0" and room: "4 \<le> card (free_frames s)" and k: "k < 2 ^ 36"
    and seg: "seg_in_file n ph" and ap: "file_apart buf n T s"
  shows "\<exists>p s' T'. elf_load_page r buf ph (of_nat (4096 * k)) s = (True, s') \<and> page_added r (of_nat (4096 * k)) p T T' s s' \<and>
    loaded r T' s' k (seg_byte (mem s) buf ph)"
proof -
  obtain p s1 where a: "pmm_alloc_block s = (p, s1)" "p \<noteq> 0" "p \<in> free_frames s" by (rule take_frame [OF wf room])
  let ?s2 = "vmm_map_page r (of_nat (4096 * k)) p kernel_flags s1"
  define s' where "s' = elf_copy buf ph (of_nat (4096 * k)) p (memset p 0 PAGE_SIZE ?s2)"
  have "region buf n \<inter> region p 4096 = {}" using ap a(3) unfolding file_apart_def by blast
  from elf_copy_spec [OF k seg this s'_def]
  have t: "touches (region p 4096) ?s2 s'" and c: "\<forall>i < 4096. mem s' (p + of_nat i) = seg_byte (mem ?s2) buf ph (4096 * k + i)"
    by blast+
  from page_added_map_fill [OF wf r room a(1) t] obtain T' where pa: "page_added r (of_nat (4096 * k)) p T T' s s'" by blast
  have "elf_load_page r buf ph (of_nat (4096 * k)) s = (True, s')"
    using a(1,2) by (simp add: elf_load_page_def s'_def Let_def)
  moreover have "loaded r T' s' k (seg_byte (mem s) buf ph)"
  proof -
    have pa': "p \<in> frames s'" "p \<notin> free_frames s'" "p \<notin> dom T'" using pa pt_wf_frame [of s T] wf unfolding page_added_def by auto
    have tr: "translate r (of_nat (4096 * k)) s' = Some (p OR kernel_flags)" using pa unfolding page_added_def by simp
    have m: "mem ?s2 a = mem s a" if "a \<in> region buf n" for a
    proof -
      have "a \<notin> region p 4096" using \<open>region buf n \<inter> region p 4096 = {}\<close> that by blast
      from touches_mem [OF t this] file_keep(2) [OF pa ap that] show ?thesis by simp
    qed
    have "seg_byte (mem ?s2) buf ph x = seg_byte (mem s) buf ph x" for x
      by (rule seg_byte_cong [OF seg m])
    then show ?thesis unfolding loaded_def using pa' tr c by auto
  qed
  ultimately show ?thesis using pa by blast
qed

text \<open>
  Progress of the loader: \<open>c\<close> pages have been added, with numbers in \<open>K\<close>. The tables stay well formed, the
  file is as before and apart from what may change, and the pages outside \<open>K\<close> are untouched.
\<close>

definition load_inv :: "u64 \<Rightarrow> u64 \<Rightarrow> nat \<Rightarrow> (u64 \<rightharpoonup> nat) \<Rightarrow> 'a vmm_scheme \<Rightarrow> bool" where
  "load_inv r buf n T s \<longleftrightarrow> pt_wf s T \<and> T r = Some 0 \<and> file_apart buf n T s"

definition same_file :: "u64 \<Rightarrow> nat \<Rightarrow> 'a machine_scheme \<Rightarrow> 'a machine_scheme \<Rightarrow> bool" where
  "same_file buf n s s' \<longleftrightarrow> (\<forall>a \<in> region buf n. mem s' a = mem s a)"

definition progress ::
  "u64 \<Rightarrow> u64 \<Rightarrow> nat \<Rightarrow> nat \<Rightarrow> nat set \<Rightarrow> (u64 \<rightharpoonup> nat) \<Rightarrow> 'a vmm_scheme \<Rightarrow> (u64 \<rightharpoonup> nat) \<Rightarrow> 'a vmm_scheme \<Rightarrow> bool" where
  "progress r buf n c K T s T' s' \<longleftrightarrow> load_inv r buf n T' s' \<and> same_file buf n s s' \<and>
     card (free_frames s) \<le> card (free_frames s') + 4 * c \<and>
     (\<forall>j < 2 ^ 36. j \<notin> K \<longrightarrow> translate r (of_nat (4096 * j)) s' = translate r (of_nat (4096 * j)) s \<and>
        (\<forall>f. loaded r T s j f \<longrightarrow> loaded r T' s' j f))"

lemma progress_refl: "load_inv r buf n T s \<Longrightarrow> progress r buf n 0 {} T s T s"
  by (simp add: progress_def same_file_def)

lemma progress_trans:
  assumes "progress r buf n c K T s T1 s1" and "progress r buf n c' K' T1 s1 T' s'"
  shows "progress r buf n (c + c') (K \<union> K') T s T' s'"
  using assms unfolding progress_def same_file_def by auto

lemma progress_page:
  assumes inv: "load_inv r buf n T s" and pa: "page_added r (of_nat (4096 * k)) p T T' s s'" and k: "k < 2 ^ 36"
  shows "progress r buf n 1 {k} T s T' s'"
proof -
  have wf: "pt_wf s T" and r: "T r = Some 0" and ap: "file_apart buf n T s" using inv by (simp_all add: load_inv_def)
  have pa': "pt_wf s' T'" "T \<subseteq>\<^sub>m T'" "card (free_frames s) \<le> card (free_frames s') + 4"
    and tr: "\<And>w. translate r w s' = (if page_of w = page_of (of_nat (4096 * k)) then Some (p OR kernel_flags) else translate r w s)"
    using pa unfolding page_added_def by blast+
  have "T' r = Some 0" using pa'(2) r by (metis domI map_le_def)
  moreover have "translate r (of_nat (4096 * j)) s' = translate r (of_nat (4096 * j)) s" if "j < 2 ^ 36" "j \<noteq> k" for j
    using tr [of "of_nat (4096 * j)"] page_number [OF that(1) k] that(2) by simp
  ultimately show ?thesis
    unfolding progress_def load_inv_def same_file_def
    using pa'(1,3) file_keep [OF pa ap] loaded_keep [OF wf pa _ k] by auto
qed

text \<open>
  The contract of a loop that loads one page after the other, which the loader of ELF files and the
  shell share: a job \<open>x\<close> names the address space, the file, the pages and the byte for every address; the step
  for page \<open>k\<close> adds that page with these bytes.
\<close>

locale page_loader =
  fixes ok :: "'x \<Rightarrow> bool" and space :: "'x \<Rightarrow> u64" and image :: "'x \<Rightarrow> u64" and size :: "'x \<Rightarrow> nat"
    and first :: "'x \<Rightarrow> nat" and last :: "'x \<Rightarrow> nat" and byte :: "'x \<Rightarrow> memory \<Rightarrow> nat \<Rightarrow> u8"
    and step :: "'x \<Rightarrow> nat \<Rightarrow> 'a vmm_scheme \<Rightarrow> bool \<times> 'a vmm_scheme"
    and loop :: "'x \<Rightarrow> nat \<Rightarrow> 'a vmm_scheme \<Rightarrow> (bool \<times> 'a vmm_scheme) option"
  assumes last: "ok x \<Longrightarrow> last x \<le> 2 ^ 36"
    and loop_end: "ok x \<Longrightarrow> first x \<le> last x \<Longrightarrow> loop x (last x) s = Some (True, s)"
    and loop_next: "ok x \<Longrightarrow> first x \<le> k \<Longrightarrow> k < last x \<Longrightarrow>
      loop x k s = (let r = step x k s in if \<not> fst r then Some (False, snd r) else loop x (Suc k) (snd r))"
    and step_adds: "ok x \<Longrightarrow> first x \<le> k \<Longrightarrow> k < last x \<Longrightarrow> load_inv (space x) (image x) (size x) T s \<Longrightarrow>
      4 \<le> card (free_frames s) \<Longrightarrow>
      \<exists>p s' T'. step x k s = (True, s') \<and> page_added (space x) (of_nat (4096 * k)) p T T' s s' \<and>
        loaded (space x) T' s' k (byte x (mem s))"
    and byte_file: "ok x \<Longrightarrow> same_file (image x) (size x) s s' \<Longrightarrow> byte x (mem s') = byte x (mem s)"
begin

lemma loop_loads:
  assumes ok: "ok x" and "first x \<le> k" "k \<le> last x" and "load_inv (space x) (image x) (size x) T s"
    and "4 * (last x - k) \<le> card (free_frames s)"
  shows "\<exists>s' T'. loop x k s = Some (True, s') \<and>
    progress (space x) (image x) (size x) (last x - k) {k..<last x} T s T' s' \<and>
    (\<forall>j \<in> {k..<last x}. loaded (space x) T' s' j (byte x (mem s)))"
  using assms(2-)
proof (induction "last x - k" arbitrary: k s T)
  case 0
  then have k: "k = last x" by simp
  then have "loop x k s = Some (True, s)" using loop_end [OF ok] 0(2) by simp
  then show ?case using progress_refl [OF 0(4)] k by auto
next
  case (Suc d)
  then have k: "k < last x" "d = last x - Suc k" by simp_all
  then have k36: "k < 2 ^ 36" using last [OF ok] by linarith
  have "4 \<le> card (free_frames s)" using Suc.prems(4) k(1) by linarith
  from step_adds [OF ok Suc.prems(1) k(1) Suc.prems(3) this]
  obtain p s1 T1 where 1: "step x k s = (True, s1)" "page_added (space x) (of_nat (4096 * k)) p T T1 s s1"
    "loaded (space x) T1 s1 k (byte x (mem s))" by blast
  note p1 = progress_page [OF Suc.prems(3) 1(2) k36]
  have inv1: "load_inv (space x) (image x) (size x) T1 s1" and sf: "same_file (image x) (size x) s s1"
    and room: "4 * (last x - Suc k) \<le> card (free_frames s1)"
    using p1 Suc.prems(4) k unfolding progress_def by auto
  from Suc.hyps(1) [OF k(2) le_SucI [OF Suc.prems(1)] Suc_leI [OF k(1)] inv1 room]
  obtain s' T' where 2: "loop x (Suc k) s1 = Some (True, s')"
    "progress (space x) (image x) (size x) (last x - Suc k) {Suc k..<last x} T1 s1 T' s'"
    "\<forall>j \<in> {Suc k..<last x}. loaded (space x) T' s' j (byte x (mem s1))" by blast
  have K: "{k} \<union> {Suc k..<last x} = {k..<last x}" "1 + (last x - Suc k) = last x - k" using k(1) by auto
  have "loaded (space x) T' s' k (byte x (mem s))" using 2(2) 1(3) k36 unfolding progress_def by simp
  then have "\<forall>j \<in> {k..<last x}. loaded (space x) T' s' j (byte x (mem s))"
    using 2(3) unfolding byte_file [OF ok sf] K(1) [symmetric] by simp
  moreover have "loop x k s = Some (True, s')" using loop_next [OF ok Suc.prems(1) k(1)] 1(1) 2(1) by simp
  moreover have "progress (space x) (image x) (size x) (last x - k) {k..<last x} T s T' s'"
    using progress_trans [OF p1 2(2)] unfolding K .
  ultimately show ?case by blast
qed

end

lemma page_numbers_less: "i \<le> 2 ^ 36 \<Longrightarrow> j \<le> 2 ^ 36 \<Longrightarrow> (of_nat (4096 * i) :: u64) < of_nat (4096 * j) \<longleftrightarrow> i < j"
proof -
  assume "i \<le> 2 ^ 36" "j \<le> 2 ^ 36"
  then have "unat (of_nat (4096 * i) :: u64) = 4096 * i" "unat (of_nat (4096 * j) :: u64) = 4096 * j"
    by (intro unat64_of_nat; simp)+
  then show ?thesis unfolding word_less_nat_alt by simp
qed

text \<open>A segment as a job: address space, file, its size, program header, first page and end.\<close>

interpretation elf_pages: page_loader "\<lambda>(r, buf, n, ph, k, m). seg_in_file n ph \<and> m \<le> 2 ^ 36"
  "\<lambda>(r, buf, n, ph, k, m). r" "\<lambda>(r, buf, n, ph, k, m). buf" "\<lambda>(r, buf, n, ph, k, m). n"
  "\<lambda>(r, buf, n, ph, k, m). k" "\<lambda>(r, buf, n, ph, k, m). m" "\<lambda>(r, buf, n, ph, k, m) mem. seg_byte mem buf ph"
  "\<lambda>(r, buf, n, ph, k, m) j. elf_load_page r buf ph (of_nat (4096 * j))"
  "\<lambda>(r, buf, n, ph, k, m) j. elf_page_loop r buf ph (of_nat (4096 * j)) (of_nat (4096 * m))"
proof (unfold_locales, goal_cases)
  case (2 x s)
  then show ?case by (cases x) (simp add: elf_page_loop.simps)
next
  case (3 x k s)
  obtain r buf n ph f m where x: "x = (r, buf, n, ph, f, m)" by (cases x)
  have k: "(of_nat (4096 * k) :: u64) < of_nat (4096 * m)" using 3 page_numbers_less [of k m] by (simp add: x)
  have nx: "of_nat (4096 * k) + PAGE_SIZE = (of_nat (4096 * Suc k) :: u64)" by (simp add: PAGE_SIZE_def)
  show ?case unfolding x prod.case elf_page_loop.simps [of r buf ph "of_nat (4096 * k)"] nx using k by simp
next
  case (4 x k T s)
  obtain r buf n ph f m where x: "x = (r, buf, n, ph, f, m)" by (cases x)
  show ?case using 4 elf_load_page_spec [of s T r k n ph buf] unfolding x by (simp add: load_inv_def)
next
  case (5 x s s')
  then show ?case by (cases x) (auto simp: same_file_def intro!: seg_byte_cong)
qed auto

lemma elf_page_loop_spec:
  assumes "unat v = 4096 * k" and e: "unat e = 4096 * m" "m \<le> 2 ^ 36" and seg: "seg_in_file n ph"
    and "load_inv r buf n T s" and "4 * (m - k) \<le> card (free_frames s)"
  shows "\<exists>s' T'. elf_page_loop r buf ph v e s = Some (True, s') \<and> progress r buf n (m - k) {k..<m} T s T' s' \<and>
    (\<forall>j \<in> {k..<m}. loaded r T' s' j (seg_byte (mem s) buf ph))"
proof (cases "k \<le> m")
  case True
  have "v = of_nat (4096 * k)" "e = of_nat (4096 * m)" using assms(1,2) by (metis of_nat_unat ucast_id)+
  then show ?thesis using elf_pages.loop_loads [of "(r, buf, n, ph, k, m)" k T s] True assms(3-6) by simp
next
  case False
  then have "\<not> v < e" using assms(1,2) by (simp add: word_less_nat_alt)
  then show ?thesis using False progress_refl [OF assms(5)] by (subst elf_page_loop.simps) auto
qed

definition seg_pages :: "Elf64_Phdr \<Rightarrow> nat set" where
  "seg_pages ph = {unat (p_vaddr ph) div 4096..<(unat (p_vaddr ph) + unat (p_memsz ph) + 4095) div 4096}"

lemma elf_load_segment_spec:
  assumes seg: "seg_in_file n ph" and inv: "load_inv r buf n T s" and room: "4 * card (seg_pages ph) \<le> card (free_frames s)"
  shows "\<exists>s' T'. elf_load_segment r buf ph s = Some (True, s') \<and> progress r buf n (card (seg_pages ph)) (seg_pages ph) T s T' s' \<and>
    (\<forall>j \<in> seg_pages ph. loaded r T' s' j (seg_byte (mem s) buf ph))"
proof -
  let ?S = "unat (p_vaddr ph)" and ?M = "unat (p_memsz ph)"
  have b: "?S + ?M + 4096 \<le> 2 ^ 47" using seg by (simp add: seg_in_file_def)
  have "p_vaddr ph + p_memsz ph + PAGE_SIZE - 1 = of_nat (?S + ?M + 4095)" by (simp add: PAGE_SIZE_def)
  then have "unat (p_vaddr ph + p_memsz ph + PAGE_SIZE - 1) = ?S + ?M + 4095"
    using b by (simp only:) (rule unat64_of_nat, simp)
  then have e: "unat ((p_vaddr ph + p_memsz ph + PAGE_SIZE - 1) AND NOT (PAGE_SIZE - 1)) = 4096 * ((?S + ?M + 4095) div 4096)"
    by (simp only: page_floor)
  have m: "(?S + ?M + 4095) div 4096 \<le> 2 ^ 36" using b by auto
  have c: "card (seg_pages ph) = (?S + ?M + 4095) div 4096 - ?S div 4096" by (simp add: seg_pages_def)
  show ?thesis
    unfolding elf_load_segment_def c
    by (unfold seg_pages_def, rule elf_page_loop_spec [OF page_floor e m seg inv]) (use room c in simp)
qed

text \<open>The headers are read from the file, which stays as it is.\<close>

lemma field_cong:
  assumes "\<And>x. x \<in> region a n \<Longrightarrow> m' x = m x" and "numeral k + w \<le> n" and "n \<le> 2 ^ 64"
  shows "load m' (a + numeral k) w = load m (a + numeral k) w"
proof (rule load_cong_region)
  fix x assume "x \<in> region (a + numeral k) w"
  moreover have "region (a + of_nat (numeral k)) w \<subseteq> region a n" using assms(2,3) by (rule region_sub)
  ultimately show "m' x = m x" using assms(1) by auto
qed (use assms(2,3) in simp)

lemma read_phdr_cong:
  assumes "\<And>x. x \<in> region a 56 \<Longrightarrow> mem s' x = mem s x"
  shows "read_phdr a s' = read_phdr a s"
proof -
  note f = field_cong [where m' = "mem s'" and m = "mem s", OF assms]
  have "load (mem s') a 4 = (load (mem s) a 4 :: u32)"
    by (rule load_cong_region) (use assms region_mono [of 4 56 a] in auto)
  then show ?thesis by (simp add: read_phdr_def read32_def read64_def f)
qed

lemma read_ehdr_cong:
  assumes "\<And>x. x \<in> region a 64 \<Longrightarrow> mem s' x = mem s x"
  shows "read_ehdr a s' = read_ehdr a s"
proof -
  note f = field_cong [where m' = "mem s'" and m = "mem s", OF assms]
  have "bytes_at a 16 s' = bytes_at a 16 s"
    unfolding bytes_at_def by (intro map_cong refl assms in_region_offset) auto
  then show ?thesis by (simp add: read_ehdr_def EI_NIDENT_def read16_def read32_def read64_def f)
qed

text \<open>
  A file of \<open>n\<close> bytes at \<open>buf\<close> that the loader handles: its headers and segments lie inside it, its segments
  in the lower half of the address space, and no two of them meet in a page.
\<close>

definition phdr_of :: "u64 \<Rightarrow> nat \<Rightarrow> 'a machine_scheme \<Rightarrow> Elf64_Phdr" where
  "phdr_of buf i s = read_phdr (phdr_at (buf + e_phoff (read_ehdr buf s)) i) s"

definition phnum_of :: "u64 \<Rightarrow> 'a machine_scheme \<Rightarrow> nat" where
  "phnum_of buf s = unat (e_phnum (read_ehdr buf s))"

definition load_pages :: "u64 \<Rightarrow> 'a machine_scheme \<Rightarrow> nat \<Rightarrow> nat set" where
  "load_pages buf s i = (if p_type (phdr_of buf i s) = PT_LOAD then seg_pages (phdr_of buf i s) else {})"

definition elf_file_ok :: "u64 \<Rightarrow> nat \<Rightarrow> 'a machine_scheme \<Rightarrow> bool" where
  "elf_file_ok buf n s \<longleftrightarrow> 64 \<le> n \<and> n < 2 ^ 32 \<and> unat (e_phoff (read_ehdr buf s)) + 56 * phnum_of buf s \<le> n \<and>
     (\<forall>i < phnum_of buf s. p_type (phdr_of buf i s) = PT_LOAD \<longrightarrow> seg_in_file n (phdr_of buf i s)) \<and>
     (\<forall>i < phnum_of buf s. \<forall>j < i. load_pages buf s i \<inter> load_pages buf s j = {})"

lemma same_file_headers:
  assumes sf: "same_file buf n s s'" and ok: "elf_file_ok buf n s"
  shows "read_ehdr buf s' = read_ehdr buf s"
    and "i < phnum_of buf s \<Longrightarrow> read_phdr (phdr_at (buf + e_phoff (read_ehdr buf s)) i) s' = phdr_of buf i s"
proof -
  have n: "64 \<le> n" "n \<le> 2 ^ 64" using ok by (simp_all add: elf_file_ok_def)
  show "read_ehdr buf s' = read_ehdr buf s"
    by (rule read_ehdr_cong) (use sf region_mono [OF n(1), of buf] in \<open>auto simp: same_file_def\<close>)
  let ?o = "unat (e_phoff (read_ehdr buf s))"
  show "read_phdr (phdr_at (buf + e_phoff (read_ehdr buf s)) i) s' = phdr_of buf i s" if "i < phnum_of buf s"
    unfolding phdr_of_def
  proof (rule read_phdr_cong)
    fix x assume "x \<in> region (phdr_at (buf + e_phoff (read_ehdr buf s)) i) 56"
    moreover have "phdr_at (buf + e_phoff (read_ehdr buf s)) i = buf + of_nat (?o + 56 * i)" by (simp add: phdr_at_def)
    moreover have "region (buf + of_nat (?o + 56 * i)) 56 \<subseteq> region buf n"
      using ok that n(2) by (intro region_sub) (auto simp: elf_file_ok_def)
    ultimately show "mem s' x = mem s x" using sf unfolding same_file_def by (metis subsetD)
  qed
qed

lemma elf_segment_step:
  assumes ok: "elf_file_ok buf n s0" and sf: "same_file buf n s0 s" and inv: "load_inv r buf n T s" and i: "i < phnum_of buf s0"
    and room: "4 * card (load_pages buf s0 i) \<le> card (free_frames s)"
  shows "\<exists>s1 T1. elf_segment_loop r buf (buf + e_phoff (read_ehdr buf s0)) i s =
      elf_segment_loop r buf (buf + e_phoff (read_ehdr buf s0)) (Suc i) s1 \<and>
    progress r buf n (card (load_pages buf s0 i)) (load_pages buf s0 i) T s T1 s1 \<and>
    (\<forall>k \<in> load_pages buf s0 i. loaded r T1 s1 k (seg_byte (mem s0) buf (phdr_of buf i s0)))"
proof -
  let ?ph = "phdr_of buf i s0"
  have lt: "i < unat (e_phnum (read_ehdr buf s))" using i same_file_headers(1) [OF sf ok] by (simp add: phnum_of_def)
  have ph: "read_phdr (phdr_at (buf + e_phoff (read_ehdr buf s0)) i) s = ?ph" by (rule same_file_headers(2) [OF sf ok i])
  show ?thesis
  proof (cases "p_type ?ph = PT_LOAD")
    case False
    then show ?thesis using lt ph progress_refl [OF inv] by (subst elf_segment_loop.simps) (auto simp: load_pages_def)
  next
    case True
    then have P: "load_pages buf s0 i = seg_pages ?ph" by (simp add: load_pages_def)
    have seg: "seg_in_file n ?ph" using ok i True by (simp add: elf_file_ok_def)
    have sb: "seg_byte (mem s) buf ?ph = seg_byte (mem s0) buf ?ph"
      using sf by (intro ext seg_byte_cong [OF seg]) (simp add: same_file_def)
    have "4 * card (seg_pages ?ph) \<le> card (free_frames s)" using room unfolding P by simp
    from elf_load_segment_spec [OF seg inv this] show ?thesis
      unfolding P sb using lt ph True by (subst elf_segment_loop.simps) auto
  qed
qed

lemma elf_segment_loop_spec:
  assumes ok: "elf_file_ok buf n s0" and sf: "same_file buf n s0 s" and inv: "load_inv r buf n T s"
    and i: "i \<le> phnum_of buf s0" and room: "4 * (\<Sum>j \<in> {i..<phnum_of buf s0}. card (load_pages buf s0 j)) \<le> card (free_frames s)"
  shows "\<exists>s' T' c. elf_segment_loop r buf (buf + e_phoff (read_ehdr buf s0)) i s = Some (True, s') \<and>
    progress r buf n c (\<Union>j \<in> {i..<phnum_of buf s0}. load_pages buf s0 j) T s T' s' \<and>
    (\<forall>j \<in> {i..<phnum_of buf s0}. \<forall>k \<in> load_pages buf s0 j. loaded r T' s' k (seg_byte (mem s0) buf (phdr_of buf j s0)))"
  using sf inv i room
proof (induction "phnum_of buf s0 - i" arbitrary: i s T)
  case 0
  have "\<not> i < unat (e_phnum (read_ehdr buf s))" using 0 same_file_headers(1) [OF 0(2) ok] by (simp add: phnum_of_def)
  then show ?case using 0 progress_refl [OF 0(3)] by (subst elf_segment_loop.simps) auto
next
  case (Suc d)
  let ?N = "phnum_of buf s0" and ?h = "buf + e_phoff (read_ehdr buf s0)" and ?P = "load_pages buf s0" and ?ph = "phdr_of buf i s0"
  have iN: "i < ?N" "d = ?N - Suc i" using Suc.hyps(2) by simp_all
  have K: "{i..<?N} = insert i {Suc i..<?N}" using iN by auto
  have room: "4 * card (?P i) + 4 * (\<Sum>j \<in> {Suc i..<?N}. card (?P j)) \<le> card (free_frames s)"
    using Suc.prems(4) unfolding K by simp
  have "4 * card (?P i) \<le> card (free_frames s)" using room by simp
  from elf_segment_step [OF ok Suc.prems(1,2) iN(1) this]
  obtain s1 T1 where 1: "elf_segment_loop r buf ?h i s = elf_segment_loop r buf ?h (Suc i) s1"
    "progress r buf n (card (?P i)) (?P i) T s T1 s1" "\<forall>k \<in> ?P i. loaded r T1 s1 k (seg_byte (mem s0) buf ?ph)" by blast
  have sf1: "same_file buf n s0 s1" and inv1: "load_inv r buf n T1 s1"
    and room1: "4 * (\<Sum>j \<in> {Suc i..<?N}. card (?P j)) \<le> card (free_frames s1)"
    using 1(2) Suc.prems(1) room unfolding progress_def same_file_def by auto
  from Suc.hyps(1) [OF iN(2) sf1 inv1 _ room1] iN(1) obtain s' T' c where
    2: "elf_segment_loop r buf ?h (Suc i) s1 = Some (True, s')" "progress r buf n c (\<Union>j \<in> {Suc i..<?N}. ?P j) T1 s1 T' s'"
    "\<forall>j \<in> {Suc i..<?N}. \<forall>k \<in> ?P j. loaded r T' s' k (seg_byte (mem s0) buf (phdr_of buf j s0))" by auto
  have "loaded r T' s' k (seg_byte (mem s0) buf ?ph)" if k: "k \<in> ?P i" for k
  proof -
    have "?P j \<inter> ?P i = {}" if "j \<in> {Suc i..<?N}" for j using ok that unfolding elf_file_ok_def by simp
    then have "k \<notin> ?P j" if "j \<in> {Suc i..<?N}" for j using that k by blast
    moreover have "k < 2 ^ 36"
      using k ok iN(1) unfolding load_pages_def seg_pages_def elf_file_ok_def seg_in_file_def by (auto split: if_splits)
    ultimately show ?thesis using 2(2) 1(3) k unfolding progress_def by auto
  qed
  with 2(3) have "\<forall>j \<in> {i..<?N}. \<forall>k \<in> ?P j. loaded r T' s' k (seg_byte (mem s0) buf (phdr_of buf j s0))" unfolding K by blast
  moreover have "progress r buf n (card (?P i) + c) (\<Union>j \<in> {i..<?N}. ?P j) T s T' s'"
    using progress_trans [OF 1(2) 2(2)] unfolding K by simp
  ultimately show ?case using 1(1) 2(1) by (intro exI [of _ s'] exI [of _ T']) auto
qed

section \<open>Properties\<close>

text \<open>The files that the checks accept.\<close>

definition elf_supported :: "u64 \<Rightarrow> 'a machine_scheme \<Rightarrow> bool" where
  "elf_supported buf s \<longleftrightarrow> buf \<noteq> 0 \<and> bytes_at buf 6 s = [0x7F, of_char (CHR ''E''), of_char (CHR ''L''), of_char (CHR ''F''), 2, 1] \<and>
     e_machine (read_ehdr buf s) = 62 \<and> e_type (read_ehdr buf s) \<in> {2, 3}"

lemma bytes_at_6: "bytes_at a 6 s = [e_ident (read_ehdr a s) ! 0, e_ident (read_ehdr a s) ! 1, e_ident (read_ehdr a s) ! 2,
    e_ident (read_ehdr a s) ! 3, e_ident (read_ehdr a s) ! 4, e_ident (read_ehdr a s) ! 5]"
  by (simp add: read_ehdr_def EI_NIDENT_def bytes_at_def upt_rec)

lemma elf_check_file_video: "touches video_window s (snd (elf_check_file buf s))"
  by (auto simp: elf_check_file_def Let_def kprint_touches)

lemma elf_check_supported_accepts: "elf_supported buf s \<Longrightarrow> elf_check_supported buf s = (True, s)"
  unfolding elf_supported_def bytes_at_6
  by (auto simp: elf_check_supported_def elf_check_file_def elf_consts Let_def)

lemma elf_check_supported_rejects:
  assumes "\<not> elf_supported buf s"
  shows "\<not> fst (elf_check_supported buf s) \<and> touches video_window s (snd (elf_check_supported buf s))"
proof (cases "fst (elf_check_file buf s)")
  case True
  then have "elf_check_file buf s = (True, s)" by (auto simp: elf_check_file_def Let_def split: if_splits)
  moreover from this have "\<not> (e_ident (read_ehdr buf s) ! 4 = 2 \<and> e_ident (read_ehdr buf s) ! 5 = 1 \<and>
      e_machine (read_ehdr buf s) = 62 \<and> e_type (read_ehdr buf s) \<in> {2, 3})"
    using assms unfolding elf_supported_def bytes_at_6
    by (auto simp: elf_check_file_def elf_consts Let_def split: if_splits)
  ultimately show ?thesis by (auto simp: elf_check_supported_def elf_consts Let_def kprint_touches)
next
  case False
  then show ?thesis using elf_check_file_video [of s buf] by (auto simp: elf_check_supported_def Let_def split: prod.splits)
qed



text \<open>
  C40: Two segments that meet in a page are not both loaded: the second one gets a fresh frame for the
  common page, so an address there that only the first segment has in its file part reads 0
  afterwards instead of the byte of the file.
\<close>

theorem elf_shared_page_lost:
  assumes "load_inv pml4 buf n T s" and "seg_in_file n ph1" and "seg_in_file n ph2"
    and "4 * (card (seg_pages ph1) + card (seg_pages ph2)) \<le> card (free_frames s)" and "k \<in> seg_pages ph1" "k \<in> seg_pages ph2"
    and "a div 4096 = k" and "unat (p_vaddr ph2) + unat (p_filesz ph2) \<le> a \<or> a < unat (p_vaddr ph2)"
  shows "\<exists>s1 s2 q. elf_load_segment pml4 buf ph1 s = Some (True, s1) \<and> elf_load_segment pml4 buf ph2 s1 = Some (True, s2) \<and>
    translate pml4 (of_nat (4096 * k)) s2 = Some (q OR kernel_flags) \<and> mem s2 (q + of_nat (a mod 4096)) = 0"
proof -
  from elf_load_segment_spec [OF assms(2,1)] assms(4) obtain s1 T1 where
    1: "elf_load_segment pml4 buf ph1 s = Some (True, s1)" "progress pml4 buf n (card (seg_pages ph1)) (seg_pages ph1) T s T1 s1"
    by auto
  then have "load_inv pml4 buf n T1 s1" "4 * card (seg_pages ph2) \<le> card (free_frames s1)"
    using assms(4) by (auto simp: progress_def)
  from elf_load_segment_spec [OF assms(3) this] assms(6) obtain s2 T2 where
    2: "elf_load_segment pml4 buf ph2 s1 = Some (True, s2)" "loaded pml4 T2 s2 k (seg_byte (mem s1) buf ph2)"
    by auto
  from 2(2) obtain q where q: "translate pml4 (of_nat (4096 * k)) s2 = Some (q OR kernel_flags)"
    "\<forall>i < 4096. mem s2 (q + of_nat i) = seg_byte (mem s1) buf ph2 (4096 * k + i)" unfolding loaded_def by blast
  then have "mem s2 (q + of_nat (a mod 4096)) = seg_byte (mem s1) buf ph2 (4096 * k + a mod 4096)" by simp
  moreover have "4096 * k + a mod 4096 = a" using assms(7) by auto
  moreover have "seg_byte (mem s1) buf ph2 a = 0" using assms(8) by (auto simp: seg_byte_def)
  ultimately show ?thesis using 1(1) 2(1) q(1) by auto
qed

section \<open>Witnesses\<close>

text \<open>A file with one segment of eight bytes across two pages.\<close>

definition elf_bytes :: "u8 list" where
  "elf_bytes =
     [0x7f, 0x45, 0x4c, 0x46, 2, 1, 1, 0, 0, 0, 0, 0, 0, 0, 0, 0,
      2, 0, 62, 0, 1, 0, 0, 0, 0xfc, 0x0f, 0, 0x40, 0, 0, 0, 0,
      64, 0, 0, 0, 0, 0, 0, 0, 0, 0, 0, 0, 0, 0, 0, 0,
      0, 0, 0, 0, 64, 0, 56, 0, 1, 0, 0, 0, 0, 0, 0, 0,
      1, 0, 0, 0, 7, 0, 0, 0, 120, 0, 0, 0, 0, 0, 0, 0,
      0xfc, 0x0f, 0, 0x40, 0, 0, 0, 0, 0xfc, 0x0f, 0, 0x40, 0, 0, 0, 0,
      8, 0, 0, 0, 0, 0, 0, 0, 16, 0, 0, 0, 0, 0, 0, 0, 0, 16, 0, 0, 0, 0, 0, 0,
      1, 2, 3, 4, 5, 6, 7, 8]"

definition elf_machine :: vmm where
  "elf_machine = paged_machine\<lparr>mem := (\<lambda>a. if a - 0x100000 < 128 then elf_bytes ! unat (a - 0x100000) else mem paged_machine a)\<rparr>"

lemma elf_machine_byte: "k < 128 \<Longrightarrow> mem elf_machine (0x100000 + of_nat k) = elf_bytes ! k"
  by (simp add: elf_machine_def word_less_nat_alt unat64_of_nat)

lemma elf_machine_headers:
  "read_ehdr 0x100000 elf_machine =
     \<lparr>e_ident = [0x7f, 0x45, 0x4c, 0x46, 2, 1, 1, 0, 0, 0, 0, 0, 0, 0, 0, 0], e_type = 2, e_machine = 62, e_version = 1,
      e_entry = 0x40000ffc, e_phoff = 64, e_shoff = 0, e_flags = 0, e_ehsize = 64, e_phentsize = 56, e_phnum = 1,
      e_shentsize = 0, e_shnum = 0, e_shstrndx = 0\<rparr>"
  "phdr_of 0x100000 0 elf_machine =
     \<lparr>p_type = 1, p_flags = 7, p_offset = 120, p_vaddr = 0x40000ffc, p_paddr = 0x40000ffc, p_filesz = 8, p_memsz = 16, p_align = 0x1000\<rparr>"
proof -
  show e: "read_ehdr 0x100000 elf_machine =
     \<lparr>e_ident = [0x7f, 0x45, 0x4c, 0x46, 2, 1, 1, 0, 0, 0, 0, 0, 0, 0, 0, 0], e_type = 2, e_machine = 62, e_version = 1,
      e_entry = 0x40000ffc, e_phoff = 64, e_shoff = 0, e_flags = 0, e_ehsize = 64, e_phentsize = 56, e_phnum = 1,
      e_shentsize = 0, e_shnum = 0, e_shstrndx = 0\<rparr>"
    by (simp add: read_ehdr_def EI_NIDENT_def bytes_at_def upt_rec read_bytes elf_machine_def elf_bytes_def)
  show "phdr_of 0x100000 0 elf_machine =
     \<lparr>p_type = 1, p_flags = 7, p_offset = 120, p_vaddr = 0x40000ffc, p_paddr = 0x40000ffc, p_filesz = 8, p_memsz = 16, p_align = 0x1000\<rparr>"
    by (simp add: phdr_of_def phdr_at_def e) (simp add: read_phdr_def read_bytes elf_machine_def elf_bytes_def)
qed

text \<open>Memory from 1 MB up to the bitmap belongs to none of the managers.\<close>

lemma low_region_apart:
  assumes "n \<le> 0x100000"
  shows "region 0x100000 n \<inter> bitmap_area = {}" "region 0x100000 n \<inter> video_window = {}"
    "pmm_wf s \<Longrightarrow> a \<in> frames s \<Longrightarrow> region 0x100000 n \<inter> region a 4096 = {}"
proof -
  have "video_window \<inter> region 0x100000 n = {}"
    unfolding video_window_def VIDEO_ADDRESS_def by (rule region_disjointI) (use assms in simp_all)
  then show "region 0x100000 n \<inter> video_window = {}" by (simp add: Int_commute)
  show "region 0x100000 n \<inter> bitmap_area = {}" unfolding bitmap_area_def by (rule region_disjointI) (use assms in simp_all)
  assume "pmm_wf s" "a \<in> frames s"
  then obtain i where i: "8192 \<le> i" "i < max_blocks" "a = of_nat (4096 * i)" "unat a = 4096 * i" by (rule frames_obtain)
  show "region 0x100000 n \<inter> region a 4096 = {}"
    by (rule region_disjointI) (use i(1,2,4) assms in \<open>simp_all add: max_blocks_def\<close>)
qed

lemma elf_machine_ready:
  "\<exists>T. load_inv (kernel_pml4 elf_machine) 0x100000 128 T elf_machine \<and> 253 \<le> card (free_frames elf_machine)"
proof -
  let ?A = "region 0x100000 128"
  obtain T where T: "pt_wf paged_machine T" "T (kernel_pml4 paged_machine) = Some 0" "253 \<le> card (free_frames paged_machine)"
    using paged_machine_tables by blast
  note pmm = pt_wf_pmm [OF T(1)]
  note apart = low_region_apart(1,2) [of 128, simplified] low_region_apart(3) [of 128, OF _ pmm, simplified]
  have t: "touches ?A paged_machine elf_machine"
    by (simp add: touches_def elf_machine_def region_iff word_less_nat_alt)
  have tab: "?A \<inter> region a 4096 = {}" if "a \<in> dom T" for a
    by (rule apart(3)) (use pt_wf_frame [OF T(1)] that in auto)
  note keep = pt_frame [OF T(1) t apart(1) tab]
  have free: "free_frames elf_machine = free_frames paged_machine"
    using pmm_frame(2) [OF pmm t apart(1)] by (simp add: free_frames_def)
  have "file_apart 0x100000 128 T elf_machine"
    unfolding file_apart_def free using apart tab page_frames.avail_frames [OF pmm] by blast
  moreover have "kernel_pml4 elf_machine = kernel_pml4 paged_machine" by (rule touches_vmm(2) [OF t])
  ultimately show ?thesis using keep(1) T free by (auto simp: load_inv_def)
qed

lemma elf_machine_file:
  "elf_supported 0x100000 elf_machine" "elf_file_ok 0x100000 128 elf_machine" "phnum_of 0x100000 elf_machine = 1"
  "load_pages 0x100000 elf_machine 0 = {0x40000, 0x40001}"
proof -
  note h = elf_machine_headers
  show n: "phnum_of 0x100000 elf_machine = 1" by (simp add: phnum_of_def h)
  show "load_pages 0x100000 elf_machine 0 = {0x40000, 0x40001}"
    by (auto simp: load_pages_def h seg_pages_def PT_LOAD_def)
  show "elf_supported 0x100000 elf_machine" by (simp add: elf_supported_def bytes_at_6 h)
  show "elf_file_ok 0x100000 128 elf_machine" by (simp add: elf_file_ok_def n h seg_in_file_def)
qed



text \<open>Two segments in page \<^verbatim>\<open>0x40000\<close>: the second one takes the bytes of the first away.\<close>

definition text_segment :: Elf64_Phdr where
  "text_segment = \<lparr>p_type = 1, p_flags = 5, p_offset = 120, p_vaddr = 0x40000000, p_paddr = 0, p_filesz = 8, p_memsz = 8, p_align = 0\<rparr>"

definition data_segment :: Elf64_Phdr where
  "data_segment = \<lparr>p_type = 1, p_flags = 6, p_offset = 120, p_vaddr = 0x40000800, p_paddr = 0, p_filesz = 8, p_memsz = 8, p_align = 0\<rparr>"

theorem elf_shared_page_lost_witness:
  "\<exists>s1 s2 q. elf_load_segment (kernel_pml4 elf_machine) 0x100000 text_segment elf_machine = Some (True, s1) \<and>
     elf_load_segment (kernel_pml4 elf_machine) 0x100000 data_segment s1 = Some (True, s2) \<and>
     translate (kernel_pml4 elf_machine) (of_nat (4096 * 0x40000)) s2 = Some (q OR kernel_flags) \<and>
     mem s2 (q + of_nat (0x40000004 mod 4096)) = 0"
proof -
  obtain T where T: "load_inv (kernel_pml4 elf_machine) 0x100000 128 T elf_machine" "253 \<le> card (free_frames elf_machine)"
    using elf_machine_ready by blast
  have p: "seg_pages text_segment = {0x40000}" "seg_pages data_segment = {0x40000}"
    by (auto simp: seg_pages_def text_segment_def data_segment_def)
  show ?thesis
    by (rule elf_shared_page_lost [OF T(1)])
      (use T(2) in \<open>simp_all add: p seg_in_file_def\<close>, simp_all add: text_segment_def data_segment_def)
qed

end
