(* ===== verification/Shell.thy ===== *)
theory Shell
  imports Fat Elf
begin

text \<open>
  The shell of \<^verbatim>\<open>src/kernel/kernel.c\<close>: \<^verbatim>\<open>user_input\<close> takes the line that the keyboard driver has collected, splits
  off the command word and runs the command. There is one definition per command. The line and the
  local arrays are byte lists with checked bounds; sector buffers and the program image lie in memory.
  An uninitialised local array starts with zeros here; the code reads no array past the
  terminator that it has written.
\<close>

section \<open>Helpers\<close>

text \<open>\<^verbatim>\<open>kprint\<close> of a string in memory: it ends at the first zero byte, wherever that is.\<close>

partial_function (option) kprint_mem :: "u64 \<Rightarrow> 'a machine_scheme \<Rightarrow> 'a machine_scheme option" where
  "kprint_mem a s =
     (if mem s a = 0 then Some s else kprint_mem (a + 1) (print_char (mem s a) (-1) (-1) WHITE_ON_BLACK s))"

definition kline :: "string \<Rightarrow> 'a machine_scheme \<Rightarrow> 'a machine_scheme" where
  "kline msg = kprint (chars msg @ [10])"

definition kstep :: "('s \<Rightarrow> fault + 's) \<Rightarrow> ('s, unit) kop" where
  "kstep f s = Some (case f s of Inl e \<Rightarrow> Inl e | Inr t \<Rightarrow> Inr ((), t))"

text \<open>
  How a command ends: the shell prints the prompt, or returns without it, or the machine is off.
\<close>

datatype flow = Prompt | Return | Halted

definition finish :: "('s \<Rightarrow> 's) \<Rightarrow> ('s, flow) kop" where
  "finish f = kthen (kdo f) (kreturn Prompt)"

definition prompt :: "'a fat_scheme \<Rightarrow> 'a fat_scheme" where
  "prompt s = kprint (chars ''> '') (kprint (fat_get_current_path s) (kprint (chars ''OS_eojin:'') s))"

text \<open>The commands that take a name in an array of 32 bytes.\<close>

definition with_arg :: "u8 list \<Rightarrow> nat \<Rightarrow> string \<Rightarrow> (u8 list \<Rightarrow> ('a machine_scheme, flow) kop) \<Rightarrow> ('a machine_scheme, flow) kop" where
  "with_arg input offset usage f =
     kbind (kpure (get_next_token input (replicate 32 0) offset)) (\<lambda>(found, name, arg_offset).
       if \<not> found then finish (kline usage) else f name)"

definition not_found :: "u8 list \<Rightarrow> 'a machine_scheme \<Rightarrow> 'a machine_scheme" where
  "not_found filename s = kprint [10] (kprint filename (kprint (chars ''File not found: '') s))"

section \<open>The simple commands\<close>

definition sh_help :: "('a machine_scheme, flow) kop" where
  "sh_help = finish (fold kline
     [''Available commands:'',
      ''    help            - Show this list'',
      ''    clear           - Clear the screen'',
      ''    shutdown        - Power off the system'',
      ''    memory          - Show Memory Map'',
      ''    echo [message]  - Print message'',
      ''    write [data]    - Write Data to Disk'',
      ''    read            - Read Data from Disk'',
      ''    mount           - Connect fat_init() and ATA Driver'',
      ''    ls              - List Root Directory'',
      ''    cat [file]      - Print File Content'',
      ''    exec [file]     - Execute User Program'',
      ''    cd [dir]        - Change Directory'',
      ''    touch [file]    - Create Empty File'',
      ''    mkdir [dir]     - Create Directory'',
      ''    rm [file]       - Remove File'',
      ''    rmdir [dir]     - Remove Directory''])"

definition sh_clear :: "('a machine_scheme, flow) kop" where
  "sh_clear = finish clear_screen"

text \<open>After the two power-off ports the CPU stops with interrupts disabled.\<close>

definition sh_shutdown :: "('a machine_scheme, flow) kop" where
  "sh_shutdown =
     kthen (kdo (kline ''Shutting down...'')) (
     kthen (kdo (outw 0xB004 0x2000)) (
     kthen (kdo (outw 0x604 0x2000)) (
     kthen (kdo (kline ''It is now safe to turn off your computer.'')) (
     kreturn Halted))))"

definition sh_memory :: "('a machine_scheme, flow) kop" where
  "sh_memory = finish print_memory_map"

definition sh_echo :: "u8 list \<Rightarrow> nat \<Rightarrow> ('a machine_scheme, flow) kop" where
  "sh_echo input offset =
     kbind (kpure (skip_blanks input offset)) (\<lambda>offset.
     finish (\<lambda>s. kprint [10] (kprint (drop offset input) s)))"

definition sh_write :: "u8 list \<Rightarrow> nat \<Rightarrow> ('a fat_scheme, flow) kop" where
  "sh_write input offset =
     kbind (kcall (kmalloc 512)) (\<lambda>buf.
     kthen (kdo (memset buf 0 512)) (
     kbind (kpure (get_next_token input (replicate 128 0) offset)) (\<lambda>(found, arg, arg_offset).
     kthen (kstep (strcpy buf (if found then arg else cstr ''TEST_DATA_DEFAULT''))) (
     kthen (kdo (kprint (chars ''Writing to LBA 200: ''))) (
     kthen (krun (kprint_mem buf)) (
     kthen (kdo (kprint [10])) (
     kthen (krun (ata_write_sector 200 buf)) (
     kthen (krun (kfree buf)) (
     finish (kline ''Write Done.''))))))))))"

definition sh_read :: "('a fat_scheme, flow) kop" where
  "sh_read =
     kbind (kcall (kmalloc 512)) (\<lambda>buf.
     kthen (kdo (memset buf 0 512)) (
     kthen (kdo (kline ''Reading from LBA 200...'')) (
     kthen (krun (ata_read_sector 200 buf)) (
     kthen (kdo (kprint (chars ''Data: ''))) (
     kthen (krun (kprint_mem buf)) (
     kthen (kdo (kprint [10])) (
     kthen (krun (kfree buf)) (
     kreturn Prompt))))))))"

definition sh_mount :: "('a fat_scheme, flow) kop" where
  "sh_mount = kthen fat_init (kreturn Prompt)"

definition sh_ls :: "('a fat_scheme, flow) kop" where
  "sh_ls = kthen fat_list (kreturn Prompt)"

section \<open>Files\<close>

text \<open>
  The chain of a file, one sector per cluster: \<open>cat_bytes\<close> prints the bytes that are left, at most a
  sector of them.
\<close>

definition cat_bytes :: "u64 \<Rightarrow> u32 \<Rightarrow> 'a machine_scheme \<Rightarrow> 'a machine_scheme" where
  "cat_bytes buf left = fold (\<lambda>i s. kprint [mem s (buf + of_nat i), 0] s) [0..<min 512 (unat left)]"

partial_function (option) cat_loop :: "u64 \<Rightarrow> u16 \<Rightarrow> u32 \<Rightarrow> ('a fat_scheme, unit) kop" where
  "cat_loop buf cluster left s =
     (if left > 0 \<and> cluster < 0xFFF8 then
        kbind (kget (fat_lba_of_cluster cluster)) (\<lambda>lba.
        kthen (krun (ata_read_sector lba buf)) (
        kthen (kdo (cat_bytes buf left)) (
        kbind (fat_next_cluster cluster) (\<lambda>cluster s.
        cat_loop buf cluster (left - of_nat (min 512 (unat left))) s)))) s
      else kreturn () s)"

definition sh_cat :: "u8 list \<Rightarrow> nat \<Rightarrow> ('a fat_scheme, flow) kop" where
  "sh_cat input offset =
     with_arg input offset ''Usage: cat <filename>'' (\<lambda>filename.
     kbind (fat_find_file filename) (\<lambda>r.
       case r of
         None \<Rightarrow> finish (not_found filename)
       | Some entry \<Rightarrow>
           kbind (kcall (kmalloc 512)) (\<lambda>buf.
             if buf = 0 then finish (kline ''cat: Memory allocation failed'')
             else
               kthen (cat_loop buf (first_cluster_low entry) (file_size entry)) (
               kthen (kdo (kprint [10])) (
               kthen (krun (kfree buf)) (
               kreturn Prompt))))))"

definition sh_cd :: "u8 list \<Rightarrow> nat \<Rightarrow> ('a fat_scheme, flow) kop" where
  "sh_cd input offset =
     with_arg input offset ''Usage: cd <dirname>'' (\<lambda>dirname. kthen (fat_change_dir dirname) (kreturn Prompt))"

definition sh_touch :: "u8 list \<Rightarrow> nat \<Rightarrow> ('a fat_scheme, flow) kop" where
  "sh_touch input offset =
     with_arg input offset ''Usage: touch <filename>'' (\<lambda>filename.
     kbind (fat_create_entry filename 0 0 0) (\<lambda>ok.
       if ok then finish (kline ''File created.'') else kreturn Prompt))"

text \<open>The entries \<^verbatim>\<open>.\<close> and \<^verbatim>\<open>..\<close> of a new directory, in the buffer for its first sector.\<close>

definition dot_entries :: "u64 \<Rightarrow> u16 \<Rightarrow> 'a fat_scheme \<Rightarrow> 'a fat_scheme" where
  "dot_entries buf cluster s =
     (let s = memset buf 32 11 s;
          s = poke buf 46 s;
          s = poke (buf + 11) ATTR_DIRECTORY s;
          s = poke16 (buf + 26) cluster s;
          s = memset (buf + 32) 32 11 s;
          s = poke (buf + 32) 46 s;
          s = poke (buf + 33) 46 s;
          s = poke (buf + 43) ATTR_DIRECTORY s
      in poke16 (buf + 58) (fat_get_current_cluster s) s)"

definition sh_mkdir :: "u8 list \<Rightarrow> nat \<Rightarrow> ('a fat_scheme, flow) kop" where
  "sh_mkdir input offset =
     with_arg input offset ''Usage: mkdir <dirname>'' (\<lambda>dirname.
     kbind fat_allocate_cluster (\<lambda>cluster.
       if cluster = 0 then finish (kline ''Disk full (No free clusters).'')
       else
         kbind (kcall (kmalloc 512)) (\<lambda>buf.
         kthen (kdo (memset buf 0 512)) (
         kthen (kdo (dot_entries buf cluster)) (
         kbind (kget (fat_lba_of_cluster cluster)) (\<lambda>lba.
         kthen (krun (ata_write_sector lba buf)) (
         kthen (krun (kfree buf)) (
         kbind (fat_create_entry dirname ATTR_DIRECTORY cluster 0) (\<lambda>ok.
         finish (kline (if ok then ''Directory created.'' else ''Failed to create entry.''))))))))))) "

definition sh_rm :: "u8 list \<Rightarrow> nat \<Rightarrow> ('a fat_scheme, flow) kop" where
  "sh_rm input offset =
     with_arg input offset ''Usage: rm <filename>'' (\<lambda>filename. kthen (fat_delete_file filename) (kreturn Prompt))"

definition sh_rmdir :: "u8 list \<Rightarrow> nat \<Rightarrow> ('a fat_scheme, flow) kop" where
  "sh_rmdir input offset =
     with_arg input offset ''Usage: rmdir <dirname>'' (\<lambda>dirname. kthen (fat_delete_dir dirname) (kreturn Prompt))"

section \<open>Programs\<close>

definition load_addr :: u64 where "load_addr = 0x4000000"

text \<open>The program image is read to \<^verbatim>\<open>load_addr\<close>, through a sector buffer.\<close>

definition exec_copy :: "u64 \<Rightarrow> u64 \<Rightarrow> u32 \<Rightarrow> 'a machine_scheme \<Rightarrow> 'a machine_scheme" where
  "exec_copy ptr buf left =
     fold (\<lambda>i s. poke (ptr + of_nat i) (mem s (buf + of_nat i)) s) [0..<min 512 (unat left)]"

partial_function (option) exec_loop :: "u64 \<Rightarrow> u64 \<Rightarrow> u16 \<Rightarrow> u32 \<Rightarrow> ('a fat_scheme, unit) kop" where
  "exec_loop ptr buf cluster left s =
     (if left > 0 \<and> cluster < 0xFFF8 then
        kbind (kget (fat_lba_of_cluster cluster)) (\<lambda>lba.
        kthen (krun (ata_read_sector lba buf)) (
        kthen (kdo (exec_copy ptr buf left)) (
        kbind (fat_next_cluster cluster) (\<lambda>cluster s.
        exec_loop (ptr + 512) buf cluster (left - of_nat (min 512 (unat left))) s)))) s
      else kreturn () s)"

text \<open>A flat binary is copied page by page and mapped at 256 MB.\<close>

definition flat_binary_vaddr :: u64 where "flat_binary_vaddr = 0x10000000"

definition exec_flat_page :: "u64 \<Rightarrow> u64 \<Rightarrow> u64 \<Rightarrow> 'a vmm_scheme \<Rightarrow> bool \<times> 'a vmm_scheme" where
  "exec_flat_page proc_pml4 offset flat_binary_size s =
     (let (paddr, s) = pmm_alloc_block s
      in if paddr = 0 then (False, kline ''exec: OOM for flat binary'' s)
         else
           let copy_len = (if offset + PAGE_SIZE > flat_binary_size then flat_binary_size - offset else PAGE_SIZE);
               s = memset paddr 0 PAGE_SIZE s;
               s = memcpy paddr (load_addr + offset) (sint (ucast copy_len :: u32)) s
           in (True, vmm_map_page proc_pml4 (flat_binary_vaddr + offset) paddr
                       (PAGING_FLAG_PRESENT OR PAGING_FLAG_WRITABLE OR PAGING_FLAG_USER) s))"

partial_function (option) exec_flat_loop :: "u64 \<Rightarrow> u64 \<Rightarrow> u64 \<Rightarrow> 'a vmm_scheme \<Rightarrow> (bool \<times> 'a vmm_scheme) option" where
  "exec_flat_loop proc_pml4 offset flat_binary_size s =
     (if offset < flat_binary_size then
        let r = exec_flat_page proc_pml4 offset flat_binary_size s
        in if \<not> fst r then Some (False, snd r)
           else exec_flat_loop proc_pml4 (offset + PAGE_SIZE) flat_binary_size (snd r)
      else Some (True, s))"

text \<open>The entry point of the loaded program; \<open>None\<close> is the early return after a failed load.\<close>

definition exec_image :: "u64 \<Rightarrow> fat_dir_entry_t \<Rightarrow> ('a vmm_scheme, u64 option) kop" where
  "exec_image proc_pml4 entry =
     kbind (kcall (\<lambda>s. Some (elf_check_file load_addr s))) (\<lambda>is_elf.
       if is_elf then
         kbind (kcall (elf_load_file proc_pml4 load_addr)) (\<lambda>entry_point.
           if entry_point = 0 then kthen (kdo (kline ''exec: ELF load failed.'')) (kreturn None)
           else kreturn (Some entry_point))
       else
         kbind (kcall (exec_flat_loop proc_pml4 0 (ucast (file_size entry)))) (\<lambda>ok.
           kreturn (if ok then Some flat_binary_vaddr else None)))"

definition exec_spawn :: "u8 list \<Rightarrow> fat_dir_entry_t \<Rightarrow> ('a process_scheme, flow) kop" where
  "exec_spawn filename entry =
     kthen (kdo (kprint (chars ''Spawning Process for ''))) (
     kthen (kdo (kprint filename)) (
     kthen (kdo (kline ''...'')) (
     kbind (kcall (\<lambda>s. Some (vmm_create_user_pml4 s))) (\<lambda>proc_pml4.
       if proc_pml4 = 0 then kthen (kdo (kline ''exec: Failed to create PML4'')) (kreturn Return)
       else
         kbind (exec_image proc_pml4 entry) (\<lambda>r.
           case r of
             None \<Rightarrow> kreturn Return
           | Some entry_point \<Rightarrow>
               kthen (kdo (create_user_process entry_point proc_pml4)) (
               kthen (kdo (kline ''Process Created.'')) (
               kreturn Return)))))))"

definition sh_exec :: "u8 list \<Rightarrow> nat \<Rightarrow> ('a fat_scheme, flow) kop" where
  "sh_exec input offset =
     with_arg input offset ''Usage: exec <filename>'' (\<lambda>filename.
     kbind (fat_find_file filename) (\<lambda>r.
       case r of
         None \<Rightarrow> finish (not_found filename)
       | Some entry \<Rightarrow>
           kbind (kcall (kmalloc 512)) (\<lambda>buf.
             if buf = 0 then finish (kline ''exec: Memory allocation failed'')
             else
               kthen (exec_loop load_addr buf (first_cluster_low entry) (file_size entry)) (
               kthen (krun (kfree buf)) (
               kthen (kdo (kprint (chars ''Loaded ''))) (
               kbind (kpure (hex_to_ascii (ucast (file_size entry)) (replicate 16 0))) (\<lambda>size_buf.
               kthen (kdo (kprint size_buf)) (
               kthen (kdo (kline '' bytes at 0x4000000'')) (
               exec_spawn filename entry))))))))) "

section \<open>Tests of the memory managers\<close>

definition sh_alloc :: "('a pmm_scheme, flow) kop" where
  "sh_alloc =
     kbind (kcall (\<lambda>s. Some (pmm_alloc_block s))) (\<lambda>ptr.
       if ptr = 0 then finish (kline ''Allocation Failed (Out of Memory)'')
       else finish (print_field ''Allocated at: '' ptr))"

definition sh_heap_test :: "('a kheap_scheme, flow) kop" where
  "sh_heap_test =
     kbind (kcall (kmalloc 64)) (\<lambda>a.
     kthen (kdo (print_field ''Alloc A: '' a)) (
     kbind (kcall (kmalloc 64)) (\<lambda>b.
     kthen (kdo (print_field ''Alloc B: '' b)) (
     kbind (kcall (kmalloc 64)) (\<lambda>c.
     kthen (kdo (print_field ''Alloc C: '' c)) (
     kthen (kdo (kline ''Free B...'')) (
     kthen (krun (kfree b)) (
     kbind (kcall (kmalloc 64)) (\<lambda>d.
     kthen (kdo (print_field ''Alloc D: '' d)) (
     kthen (kdo (kline (if d = b then ''Heap Test Passed! (Address Reused)'' else ''Heap Test Failed (Address Not Reused)''))) (
     kthen (krun (kfree a)) (
     kthen (krun (kfree c)) (
     kthen (krun (kfree d)) (
     kreturn Prompt))))))))))))))"

section \<open>The command line\<close>

definition sh_unknown :: "u8 list \<Rightarrow> ('a machine_scheme, flow) kop" where
  "sh_unknown input = finish (\<lambda>s. kprint [10] (kprint input (kprint (chars ''Unknown command: '') s)))"

text \<open>The chain of comparisons: the first name that equals the command word decides.\<close>

primrec dispatch :: "(string \<times> ('s, 'r) kop) list \<Rightarrow> u8 list \<Rightarrow> ('s, 'r) kop \<Rightarrow> ('s, 'r) kop" where
  "dispatch [] command unknown = unknown"
| "dispatch (c # cs) command unknown =
     kbind (kpure (strcmp command (cstr (fst c)))) (\<lambda>r. if r = 0 then snd c else dispatch cs command unknown)"

definition commands :: "u8 list \<Rightarrow> nat \<Rightarrow> (string \<times> ('a fat_scheme, flow) kop) list" where
  "commands input offset =
     [(''help'', sh_help), (''clear'', sh_clear), (''shutdown'', sh_shutdown), (''halt'', sh_shutdown),
      (''memory'', sh_memory), (''echo'', sh_echo input offset), (''write'', sh_write input offset), (''read'', sh_read),
      (''mount'', sh_mount), (''ls'', sh_ls), (''cat'', sh_cat input offset), (''exec'', sh_exec input offset),
      (''cd'', sh_cd input offset), (''touch'', sh_touch input offset), (''mkdir'', sh_mkdir input offset),
      (''rm'', sh_rm input offset), (''rmdir'', sh_rmdir input offset), (''alloc'', sh_alloc), (''heap_test'', sh_heap_test)]"

definition user_input :: "u8 list \<Rightarrow> ('a fat_scheme, flow) kop" where
  "user_input input =
     kbind (kpure (get_next_token input (replicate 32 0) 0)) (\<lambda>(found, command, offset).
       if \<not> found then kthen (kdo prompt) (kreturn Return)
       else
         kbind (dispatch (commands input offset) command (sh_unknown input)) (\<lambda>r.
           if r = Prompt then kthen (kdo prompt) (kreturn Return) else kreturn r))"

end
