(* ===== verification/Keyboard.thy ===== *)
theory Keyboard
  imports Shell
begin

unbundle bit_operations_syntax

text \<open>
  The keyboard driver of \<^verbatim>\<open>src/drivers/keyboard.c\<close>: it turns scan codes into characters, collects them in a
  line of 256 bytes and hands the line to the shell when the enter key is pressed.
\<close>

record kernel = fat +
  is_shift :: bool
  key_buffer :: "u8 list"
  buffer_index :: nat
  cr2 :: u64

definition SC_MAX :: u8 where "SC_MAX = 57"

definition ascii_low :: "u8 list" where
  "ascii_low =
     [0, 0] @ chars ''1234567890-='' @ [0, 0] @ chars ''qwertyuiop[]'' @ [0, 0] @ chars ''asdfghjkl;'' @ [39, 96, 0, 92] @
     chars ''zxcvbnm,./'' @ [0, 42, 0, 32]"

definition ascii_shift :: "u8 list" where
  "ascii_shift =
     [0, 0] @ chars ''!@#$%^&*()_+'' @ [0, 0] @ chars ''QWERTYUIOP{}'' @ [0, 0] @ chars ''ASDFGHJKL:'' @ [34, 126, 0, 124] @
     chars ''ZXCVBNM<>?'' @ [0, 42, 0, 32]"

text \<open>\<^verbatim>\<open>key_buffer[i] = c\<close>, with the bound of the array.\<close>

definition key_put :: "nat \<Rightarrow> u8 \<Rightarrow> ('a kernel_scheme, unit) kop" where
  "key_put i c = kbind (kget key_buffer) (\<lambda>b. kbind (kpure (put i c b)) (\<lambda>b. kdo (\<lambda>s. s\<lparr>key_buffer := b\<rparr>)))"

definition key_letter :: "u8 \<Rightarrow> ('a kernel_scheme, flow) kop" where
  "key_letter letter =
     kthen (kdo (kprint [letter, 0])) (
     kbind (kget buffer_index) (\<lambda>i.
     kthen (kdo (\<lambda>s. s\<lparr>buffer_index := i + 1\<rparr>)) (
     kthen (key_put i letter) (
     kthen (key_put (i + 1) 0) (
     kreturn Return)))))"

definition key_backspace :: "('a kernel_scheme, flow) kop" where
  "key_backspace =
     kbind (kget buffer_index) (\<lambda>i.
       if i > 0 then
         kthen (kdo (\<lambda>s. s\<lparr>buffer_index := i - 1\<rparr>)) (
         kthen (key_put (i - 1) 0) (
         kthen (kdo kprint_backspace) (
         kreturn Return)))
       else kreturn Return)"

text \<open>The line is reset only when the shell comes back: after a shutdown it does not.\<close>

definition key_enter :: "('a kernel_scheme, flow) kop" where
  "key_enter =
     kthen (kdo (kprint [10])) (
     kbind (kget key_buffer) (\<lambda>line.
     kbind (user_input line) (\<lambda>r.
       if r = Halted then kreturn Halted
       else
         kthen (kdo (\<lambda>s. s\<lparr>buffer_index := 0\<rparr>)) (
         kthen (key_put 0 0) (
         kreturn Return)))))"

definition keyboard_handler :: "('a kernel_scheme, flow) kop" where
  "keyboard_handler =
     kbind (kcall (\<lambda>s. Some (inb 0x60 s))) (\<lambda>scancode.
       if scancode = 0x2a \<or> scancode = 0x36 then kthen (kdo (\<lambda>s. s\<lparr>is_shift := True\<rparr>)) (kreturn Return)
       else if scancode = 0xaa \<or> scancode = 0xb6 then kthen (kdo (\<lambda>s. s\<lparr>is_shift := False\<rparr>)) (kreturn Return)
       else if scancode AND 0x80 \<noteq> 0 then kreturn Return
       else if scancode > SC_MAX then kreturn Return
       else
         kbind (kget is_shift) (\<lambda>sh.
           let letter = (if sh then ascii_shift else ascii_low) ! unat scancode
           in if letter \<noteq> 0 then key_letter letter
              else if scancode = 0x0e then key_backspace
              else if scancode = 0x1c then key_enter
              else kreturn Return))"

section \<open>The line editor\<close>

text \<open>
  What the driver is to do with a scan code: \<open>edit\<close> works on the shift state and the text of the line. The line
  holds at most 255 characters and the terminator; one more character does not fit.
\<close>

definition letter_of :: "bool \<Rightarrow> u8 \<Rightarrow> u8" where
  "letter_of sh c = (if c \<le> SC_MAX then (if sh then ascii_shift else ascii_low) ! unat c else 0)"

definition edit :: "u8 \<Rightarrow> bool \<times> u8 list \<Rightarrow> fault + bool \<times> u8 list" where
  "edit c = (\<lambda>(sh, xs).
     if c \<in> {0x2a, 0x36} then Inr (True, xs)
     else if c \<in> {0xaa, 0xb6} then Inr (False, xs)
     else if letter_of sh c \<noteq> 0 then
       (if length xs < 255 then Inr (sh, xs @ [letter_of sh c]) else Inl WriteOutOfBounds)
     else if c = 0x0e then Inr (sh, butlast xs)
     else Inr (sh, xs))"

definition line_is :: "'a kernel_scheme \<Rightarrow> u8 list \<Rightarrow> bool" where
  "line_is s xs \<longleftrightarrow> length (key_buffer s) = 256 \<and> buffer_index s = length xs \<and> length xs < 256 \<and> 0 \<notin> set xs \<and>
     take (length xs) (key_buffer s) = xs \<and> key_buffer s ! length xs = 0"

lemma touches_keyboard:
  assumes "touches A s t"
  shows "key_buffer t = key_buffer s" "buffer_index t = buffer_index s" "is_shift t = is_shift s" "cr2 t = cr2 s"
  using arg_cong [OF touches_eq [OF assms], of key_buffer] arg_cong [OF touches_eq [OF assms], of buffer_index]
    arg_cong [OF touches_eq [OF assms], of is_shift] arg_cong [OF touches_eq [OF assms], of cr2]
  by simp_all

lemmas kprint_keyboard [simp] = touches_keyboard [OF kprint_touches]

lemma key_put_simps [simp]:
  "i < length (key_buffer s) \<Longrightarrow> key_put i c s = Some (Inr ((), s\<lparr>key_buffer := (key_buffer s)[i := c]\<rparr>))"
  "\<not> i < length (key_buffer s) \<Longrightarrow> key_put i c s = Some (Inl WriteOutOfBounds)"
  by (simp_all add: key_put_def put_def kdo_def)

lemma take_Suc_update:
  "take n b = xs \<Longrightarrow> n < length b \<Longrightarrow> take (Suc n) ((b[n := c])[Suc n := d]) = xs @ [c]"
  by (simp add: take_Suc_conv_app_nth)

lemma key_letter_spec:
  assumes l: "line_is s xs" and c: "c \<noteq> 0"
  shows "length xs < 255 \<Longrightarrow> \<exists>s'. key_letter c s = Some (Inr (Return, s')) \<and> is_shift s' = is_shift s \<and> line_is s' (xs @ [c])"
    and "\<not> length xs < 255 \<Longrightarrow> key_letter c s = Some (Inl WriteOutOfBounds)"
proof -
  have b: "length (key_buffer s) = 256" "buffer_index s = length xs" "take (length xs) (key_buffer s) = xs" "0 \<notin> set xs" "length xs < 256"
    using l by (simp_all add: line_is_def)
  let ?t = "kprint [c, 0] s"
  let ?b = "((key_buffer s)[length xs := c])[Suc (length xs) := 0]"
  show "\<exists>s'. key_letter c s = Some (Inr (Return, s')) \<and> is_shift s' = is_shift s \<and> line_is s' (xs @ [c])" if "length xs < 255"
  proof -
    have "key_letter c s = Some (Inr (Return, ?t\<lparr>buffer_index := Suc (length xs), key_buffer := ?b\<rparr>))"
      using that b(1,2) by (simp add: key_letter_def kreturn_def)
    moreover have "take (Suc (length xs)) ?b = xs @ [c]" by (rule take_Suc_update) (use b in simp_all)
    ultimately show ?thesis using that b c by (simp add: line_is_def)
  qed
  show "key_letter c s = Some (Inl WriteOutOfBounds)" if "\<not> length xs < 255"
    using that b(1,2,5) by (simp add: key_letter_def)
qed

lemma kprint_backspace_touches: "touches video_window s (kprint_backspace s)"
proof -
  obtain off s1 where 1: "get_cursor_offset s = (off, s1)" by force
  note f1 = get_cursor_offset_facts [OF 1]
  have poke: "touches video_window t (vid_poke o' v t)" if "0 \<le> o'" "o' < 131072" for o' v t
    unfolding video_window_def using that by (intro touches_vid_poke) auto
  have "touches video_window s1 (kprint_backspace s)"
    unfolding kprint_backspace_def 1 Let_def prod.case
    by (intro touches_trans [OF touches_trans [OF touches_set_cursor poke] poke]) (use f1 in auto)
  with f1 show ?thesis by (auto intro: touches_trans)
qed

lemma key_backspace_spec:
  assumes l: "line_is s xs"
  shows "\<exists>s'. key_backspace s = Some (Inr (Return, s')) \<and> is_shift s' = is_shift s \<and> line_is s' (butlast xs)"
proof (cases xs rule: rev_cases)
  case Nil
  then show ?thesis using l by (auto simp: key_backspace_def kreturn_def line_is_def)
next
  case (snoc ys y)
  have b: "length (key_buffer s) = 256" "buffer_index s = length xs" "take (length xs) (key_buffer s) = xs" "0 \<notin> set xs" "length xs < 256"
    using l by (simp_all add: line_is_def)
  then have "take (length ys) (key_buffer s) = ys" using snoc by (metis append_eq_conv_conj length_append_singleton lessI less_imp_le_nat min.absorb1 take_take)
  then show ?thesis using b snoc
    by (simp add: key_backspace_def kreturn_def line_is_def nth_list_update touches_keyboard [OF kprint_backspace_touches])
qed

lemma make_code_bit:
  fixes c :: u8
  assumes "c \<le> SC_MAX"
  shows "c AND 0x80 = 0"
proof -
  have "unat c < 2 ^ 7" using assms by (simp add: SC_MAX_def word_le_nat_alt)
  then have "\<not> bit (unat c) 7" by (simp add: bit_iff_odd)
  then have 7: "\<not> bit c 7" by (simp add: bit_unsigned_iff)
  have "c AND 0x80 = c AND push_bit 7 1" by (simp add: push_bit_eq_mult)
  also have "\<dots> = 0"
  proof (rule bit_word_eqI)
    fix n show "bit (c AND push_bit 7 1) n = bit (0 :: u8) n"
      unfolding bit_and_iff bit_push_bit_iff bit_1_iff using 7 by (cases "n = 7") auto
  qed
  finally show ?thesis .
qed

lemma letter_codes: "letter_of sh 0x1c = 0" "letter_of sh 0x0e = 0"
  by (simp_all add: letter_of_def SC_MAX_def ascii_low_def ascii_shift_def chars_def)

lemma line_is_text: "line_is s xs \<Longrightarrow> text_of (key_buffer s) = xs"
proof -
  assume "line_is s xs"
  then have b: "take (length xs) (key_buffer s) = xs" "key_buffer s ! length xs = 0" "length xs < length (key_buffer s)" "0 \<notin> set xs"
    by (simp_all add: line_is_def)
  then have "key_buffer s = xs @ 0 # drop (Suc (length xs)) (key_buffer s)" by (metis id_take_nth_drop)
  moreover have "text_of (xs @ 0 # zs) = xs" for zs using b(4) by (induction xs) auto
  ultimately show ?thesis by metis
qed

lemma keyboard_handler_step:
  assumes c: "c = dev8 s (io s) 0x60" and s1: "s1 = snd (inb 0x60 s)"
  shows "keyboard_handler s =
    (if c = 0x2a \<or> c = 0x36 then Some (Inr (Return, s1\<lparr>is_shift := True\<rparr>))
     else if c = 0xaa \<or> c = 0xb6 then Some (Inr (Return, s1\<lparr>is_shift := False\<rparr>))
     else if letter_of (is_shift s) c \<noteq> 0 then key_letter (letter_of (is_shift s) c) s1
     else if c = 0x0e then key_backspace s1
     else if c = 0x1c then key_enter s1
     else Some (Inr (Return, s1)))"
proof -
  have in1: "inb 0x60 s = (c, s1)" by (simp add: c s1 inb_def Let_def)
  have sh: "is_shift s1 = is_shift s" unfolding s1 by (rule touches_keyboard(3) [OF touches_inb])
  have "c > SC_MAX" if "c AND 0x80 \<noteq> 0" using make_code_bit [of c] that by (metis not_le)
  moreover have "\<not> 0x0e > SC_MAX" "\<not> 0x1c > SC_MAX" by (simp_all add: SC_MAX_def)
  ultimately show ?thesis
    by (auto simp: keyboard_handler_def in1 kcall_def kbind_def kthen_def kdo_def kget_def kreturn_def sh letter_of_def Let_def not_less)
qed

section \<open>Properties\<close>

text \<open>
  C7: The driver implements a line editor on the typed text: for every scan code but enter it does what \<open>edit\<close>
  does, on the shift state and on the line in its buffer, which stays terminated. A character after the 255th
  is written past the array. On enter the shell gets exactly the text of the line, and when it
  comes back the line is empty.
\<close>

theorem keyboard_refines_editor:
  assumes "line_is s xs" and "c = dev8 s (io s) 0x60"
  shows "(c \<noteq> 0x1c \<longrightarrow>
      (case edit c (is_shift s, xs) of
         Inl e \<Rightarrow> keyboard_handler s = Some (Inl e)
       | Inr (sh, ys) \<Rightarrow> \<exists>s'. keyboard_handler s = Some (Inr (Return, s')) \<and> is_shift s' = sh \<and> line_is s' ys)) \<and>
    (c = 0x1c \<longrightarrow> text_of (key_buffer s) = xs \<and>
      (\<forall>t. user_input (key_buffer s) (kprint [10] (snd (inb 0x60 s))) = Some (Inr (Return, t)) \<and> length (key_buffer t) = 256 \<longrightarrow>
         (\<exists>s'. keyboard_handler s = Some (Inr (Return, s')) \<and> line_is s' [])))"
proof (intro conjI impI)
  define s1 where "s1 = snd (inb 0x60 s)"
  note keep = touches_keyboard [OF touches_inb [where s = s and p = "0x60"], folded s1_def]
  have l1: "line_is s1 xs" using assms(1) by (simp add: line_is_def keep)
  note step = keyboard_handler_step [OF assms(2) s1_def]
  show "case edit c (is_shift s, xs) of
         Inl e \<Rightarrow> keyboard_handler s = Some (Inl e)
       | Inr (sh, ys) \<Rightarrow> \<exists>s'. keyboard_handler s = Some (Inr (Return, s')) \<and> is_shift s' = sh \<and> line_is s' ys" if "c \<noteq> 0x1c"
    unfolding step edit_def
    using key_letter_spec [OF l1, of "letter_of (is_shift s) c"] key_backspace_spec [OF l1] l1 that
    by (auto simp: keep line_is_def)
  assume c: "c = 0x1c"
  show "text_of (key_buffer s) = xs" by (rule line_is_text [OF assms(1)])
  have "keyboard_handler s = key_enter s1" unfolding step using c by (simp add: letter_codes)
  then show "\<forall>t. user_input (key_buffer s) (kprint [10] (snd (inb 0x60 s))) = Some (Inr (Return, t)) \<and> length (key_buffer t) = 256 \<longrightarrow>
         (\<exists>s'. keyboard_handler s = Some (Inr (Return, s')) \<and> line_is s' [])"
    by (auto simp: key_enter_def keep kreturn_def line_is_def simp flip: s1_def)
qed

section \<open>Witnesses\<close>

text \<open>A machine whose keyboard port returns a given scan code, with a line in the buffer.\<close>

definition blank_bpb :: fat_bpb_t where
  "blank_bpb =
     \<lparr>jump_boot = replicate 3 0, oem_name = replicate 8 0, bytes_per_sector = 0, sectors_per_cluster = 0, reserved_sectors = 0,
      fat_count = 0, root_dir_entries = 0, total_sectors_16 = 0, media_type = 0, fat_size_16 = 0, sectors_per_track = 0,
      head_count = 0, hidden_sectors = 0, total_sectors_32 = 0, drive_number = 0, bpb_reserved = 0, boot_signature = 0,
      volume_id = 0, volume_label = replicate 11 0, fs_type = replicate 8 0\<rparr>"

definition kernel_machine :: "process_state_t list \<Rightarrow> kernel" where
  "kernel_machine sts =
     fat.extend (process.extend (proc_machine sts) (fat.fields blank_bpb 0 0 0 0 (cstr ''/'' @ replicate 254 0) False))
       (kernel.fields False (replicate 256 0) 0 0)"

definition typing :: "u8 \<Rightarrow> u8 list \<Rightarrow> kernel" where
  "typing c xs = (kernel_machine [])\<lparr>dev8 := (\<lambda>_ _. c), key_buffer := xs @ replicate (256 - length xs) 0, buffer_index := length xs\<rparr>"

lemma typing_fields:
  "dev8 (typing c xs) h p = c" "is_shift (typing c xs) = False"
  by (simp_all add: typing_def kernel_machine_def fat.extend_def kernel.fields_def)

lemma typing_line: "length xs < 256 \<Longrightarrow> 0 \<notin> set xs \<Longrightarrow> line_is (typing c xs) xs"
  by (simp add: line_is_def typing_def nth_append)

text \<open>The key A after the text \<^verbatim>\<open>ls\<close>, and after 255 characters.\<close>

theorem keyboard_refines_editor_witness:
  "(\<exists>s'. keyboard_handler (typing 0x1e (chars ''ls'')) = Some (Inr (Return, s')) \<and> line_is s' (chars ''lsa'')) \<and>
   keyboard_handler (typing 0x1e (replicate 255 120)) = Some (Inl WriteOutOfBounds)"
proof -
  have a: "letter_of False 0x1e = 97" by (simp add: letter_of_def SC_MAX_def ascii_low_def chars_def)
  have 1: "line_is (typing 0x1e (chars ''ls'')) (chars ''ls'')" by (rule typing_line) (simp_all add: chars_def)
  have 2: "line_is (typing 0x1e (replicate 255 120)) (replicate 255 120)" by (rule typing_line) simp_all
  show ?thesis
    using keyboard_refines_editor [OF 1, of "0x1e"] keyboard_refines_editor [OF 2, of "0x1e"]
    by (auto simp: typing_fields edit_def a chars_def)
qed

end
