(* ===== verification/Isr.thy ===== *)
theory Isr
  imports Keyboard
begin

unbundle bit_operations_syntax

text \<open>
  The common interrupt handler \<^verbatim>\<open>isr_handler\<close> of \<^verbatim>\<open>src/kernel/isr.c\<close>, which the assembly stubs call with the address
  of the saved registers, and \<^verbatim>\<open>kill_current_process\<close> of \<^verbatim>\<open>process.c\<close>. The handler returns the stack pointer to resume
  with. The gates of the exceptions disable interrupts, so the CPU stays at the \<^verbatim>\<open>hlt\<close> of a fatal exception.
\<close>

record registers_t =
  ds :: u64
  rax :: u64
  rbx :: u64
  rcx :: u64
  rdx :: u64
  rbp :: u64
  rsi :: u64
  rdi :: u64
  r8 :: u64
  r9 :: u64
  r10 :: u64
  r11 :: u64
  r12 :: u64
  r13 :: u64
  r14 :: u64
  r15 :: u64
  int_no :: u64
  err_code :: u64
  rip :: u64
  cs :: u64
  rflags :: u64
  rsp :: u64
  ss :: u64

definition read_regs :: "u64 \<Rightarrow> 'a machine_scheme \<Rightarrow> registers_t" where
  "read_regs r s =
     (let f = (\<lambda>i. read64 (mem s) (r + 8 * i)) in
      \<lparr>ds = f 0, rax = f 1, rbx = f 2, rcx = f 3, rdx = f 4, rbp = f 5, rsi = f 6, rdi = f 7, r8 = f 8, r9 = f 9,
       r10 = f 10, r11 = f 11, r12 = f 12, r13 = f 13, r14 = f 14, r15 = f 15, int_no = f 16, err_code = f 17,
       rip = f 18, cs = f 19, rflags = f 20, rsp = f 21, ss = f 22\<rparr>)"

definition kill_current_process :: "'a fat_scheme \<Rightarrow> 'a fat_scheme" where
  "kill_current_process s =
     (if current_pid s = -1 then s
      else
        let s = set_proc (current_pid s) (\<lambda>p. p\<lparr>proc_state := PROCESS_DEAD\<rparr>) s;
            s = kprint (chars ''Process Killed PID: '') s;
            s = kprint_hex (word_of_int (current_pid s)) s;
            s = kprint [10] s
        in prompt s)"

text \<open>Outside the process table the scheduler reads past the array.\<close>

definition kschedule :: "u64 \<Rightarrow> ('a process_scheme, u64) kop" where
  "kschedule r s = (case schedule r s of None \<Rightarrow> kfault ReadOutOfBounds s | Some p \<Rightarrow> Some (Inr p))"

text \<open>
  What the CPU does with a byte at a virtual address: an exception, when the address is not canonical or
  not mapped. \<open>kprint_virt\<close> is \<^verbatim>\<open>kprint\<close> on a pointer of the user; it yields the address that raises an exception, if any.
\<close>

definition canonical :: "u64 \<Rightarrow> bool" where
  "canonical a \<longleftrightarrow> drop_bit 47 a = 0 \<or> drop_bit 47 a = mask 17"

definition fetch_virt :: "u64 \<Rightarrow> 'a vmm_scheme \<Rightarrow> u8 option" where
  "fetch_virt a s =
     (if canonical a then map_option (\<lambda>e. mem s ((e AND ADDR_MASK) + (a AND 0xFFF))) (mmu a s) else None)"

partial_function (option) kprint_virt :: "u64 \<Rightarrow> 'a vmm_scheme \<Rightarrow> (u64 option \<times> 'a vmm_scheme) option" where
  "kprint_virt a s =
     (case fetch_virt a s of
        None \<Rightarrow> Some (Some a, s)
      | Some c \<Rightarrow> if c = 0 then Some (None, s) else kprint_virt (a + 1) (print_char c (-1) (-1) WHITE_ON_BLACK s))"

datatype isr_result = Resume u64 | CpuHalted | AccessFault u64

definition isr_timer :: "u64 \<Rightarrow> ('a kernel_scheme, isr_result) kop" where
  "isr_timer r =
     kthen (kdo timer_handler) (
     kthen (kdo (outb 0x20 0x20)) (
     kbind (kschedule r) (\<lambda>next_rsp. kreturn (Resume next_rsp))))"

definition isr_keyboard :: "u64 \<Rightarrow> ('a kernel_scheme, isr_result) kop" where
  "isr_keyboard r =
     kbind keyboard_handler (\<lambda>f.
       if f = Halted then kreturn CpuHalted
       else kthen (kdo (outb 0x20 0x20)) (kreturn (Resume r)))"

definition isr_gp_fault :: "registers_t \<Rightarrow> ('a kernel_scheme, isr_result) kop" where
  "isr_gp_fault regs =
     kthen (kdo (kline ''GP Fault! Halting.'')) (
     kthen (kdo (kprint (chars ''RIP: ''))) (
     kthen (kdo (kprint_hex (rip regs))) (
     kthen (kdo (kprint (chars ''  Err: ''))) (
     kthen (kdo (kprint_hex (err_code regs))) (
     kthen (kdo (kprint [10])) (
     kreturn CpuHalted))))))"

definition isr_page_fault :: "('a kernel_scheme, isr_result) kop" where
  "isr_page_fault =
     kbind (kget cr2) (\<lambda>cr2.
     kthen (kdo (kline ''Page Fault! Halting.'')) (
     kthen (kdo (kprint (chars ''CR2: ''))) (
     kthen (kdo (kprint_hex cr2)) (
     kthen (kdo (kprint [10])) (
     kreturn CpuHalted)))))"

definition isr_syscall :: "u64 \<Rightarrow> registers_t \<Rightarrow> ('a kernel_scheme, isr_result) kop" where
  "isr_syscall r regs =
     (if rax regs = 0 then
        kthen (kdo kill_current_process) (kbind (kschedule r) (\<lambda>next_rsp. kreturn (Resume next_rsp)))
      else if rax regs = 1 then
        kbind (kcall (kprint_virt (rbx regs))) (\<lambda>f.
          case f of None \<Rightarrow> kreturn (Resume r) | Some a \<Rightarrow> kreturn (AccessFault a))
      else kreturn (Resume r))"

definition isr_handler :: "u64 \<Rightarrow> ('a kernel_scheme, isr_result) kop" where
  "isr_handler r =
     kbind (kget (read_regs r)) (\<lambda>regs.
       if int_no regs = 32 then isr_timer r
       else if int_no regs = 33 then isr_keyboard r
       else if int_no regs = 0 then kthen (kdo (kline ''Divide by Zero!'')) (kreturn (Resume r))
       else if int_no regs = 8 then kthen (kdo (kline ''Double Fault! Halting.'')) (kreturn CpuHalted)
       else if int_no regs = 13 then isr_gp_fault regs
       else if int_no regs = 14 then isr_page_fault
       else if int_no regs = 128 then isr_syscall r regs
       else kreturn (Resume r))"

section \<open>The process table under interrupts\<close>

lemma touches_process:
  assumes "touches A s t"
  shows "proc i t = proc i s" "current_pid t = current_pid s" "process_count t = process_count s" "processes t = processes s"
  using touches_process_vars [OF assms] by (simp_all add: proc_def)

lemma prompt_touches: "touches video_window s (prompt s)"
  unfolding prompt_def by (intro touches_trans [OF touches_trans [OF kprint_touches kprint_touches] kprint_touches])

lemma kill_facts:
  assumes wf: "proc_wf s"
  defines "c \<equiv> current_pid s" and "t \<equiv> kill_current_process s"
  shows "proc_wf t" "current_pid t = c" "process_count t = process_count s"
    "0 \<le> i \<Longrightarrow> proc i t = (if i = c then (proc c s)\<lparr>proc_state := PROCESS_DEAD\<rparr> else proc i s)"
proof -
  let ?d = "set_proc c (\<lambda>p. p\<lparr>proc_state := PROCESS_DEAD\<rparr>) s"
  have c: "0 \<le> c" "c < process_count s" "process_count s \<le> 16" "length (processes s) = 16"
    using wf by (simp_all add: proc_wf_def c_def MAX_PROCESSES_def)
  have "current_pid (kprint (chars ''Process Killed PID: '') ?d) = c"
    using touches_process(2) [OF kprint_touches, of "chars ''Process Killed PID: ''" ?d] by (simp add: c_def)
  then have eq: "t = prompt (kprint [10] (kprint_hex (word_of_int c) (kprint (chars ''Process Killed PID: '') ?d)))"
    using c(1) unfolding t_def kill_current_process_def Let_def c_def [symmetric] by (simp only: if_False) simp
  have tt: "touches video_window ?d t"
    unfolding eq by (rule touches_trans [OF touches_trans [OF touches_trans [OF kprint_touches kprint_hex_touches] kprint_touches] prompt_touches])
  note p = touches_process [OF tt]
  show "current_pid t = c" "process_count t = process_count s" using p by (simp_all add: c_def)
  show q: "proc i t = (if i = c then (proc c s)\<lparr>proc_state := PROCESS_DEAD\<rparr> else proc i s)" if "0 \<le> i" for i
    using that c p(1) by simp
  show "proc_wf t" using wf p(2-4) q c by (auto simp: proc_wf_def c_def)
qed

text \<open>What the handler leaves alone of a process: everything but its state and its saved stack pointer.\<close>

definition fixed_part :: "process_t \<Rightarrow> u64 \<times> u64 \<times> u64 \<times> u64 \<times> u64" where
  "fixed_part p = (pid p, stack_base p, kernel_stack_base p, kernel_stack_top p, pml4 p)"

definition table_kept :: "'a process_scheme \<Rightarrow> 'a process_scheme \<Rightarrow> bool" where
  "table_kept s s' \<longleftrightarrow> proc_wf s' \<and> process_count s' = process_count s \<and> (\<forall>i \<ge> 0. fixed_part (proc i s') = fixed_part (proc i s))"

lemma table_kept_trans: "table_kept s t \<Longrightarrow> table_kept t u \<Longrightarrow> table_kept s u"
  by (simp add: table_kept_def)

lemma table_kept_touches: "proc_wf s \<Longrightarrow> touches A s t \<Longrightarrow> table_kept s t"
  by (simp add: table_kept_def touches_process proc_wf_touches)

lemma table_kept_schedule:
  assumes wf: "proc_wf s" and call: "schedule r s = Some (r', s')"
  shows "table_kept s s'"
proof -
  let ?t = "schedule_save r s" and ?i = "successor (schedule_save r s)"
  note sv = schedule_save_facts [OF wf, where r = r]
  have i: "0 \<le> ?i" "?i < 16"
    using successor_range [OF wf, where r = r] wf by (auto simp: proc_wf_def MAX_PROCESSES_def)
  note sw = schedule_switch_facts [OF i sv(3)]
  have s': "s' = snd (schedule_switch ?i ?t)" using schedule_eq [OF wf, of r] call by (metis option.inject snd_conv)
  have "fixed_part (proc j s') = fixed_part (proc j s)" if "0 \<le> j" for j
    using sw(5) [OF that] sw(5) [OF i(1)] sv(4) [OF that] sv(4) [OF i(1)] by (auto simp: s' fixed_part_def)
  then show ?thesis using schedule_proc_wf [OF wf call] sw(3) sv(2) by (simp add: table_kept_def s')
qed

lemma dead_stays:
  assumes wf: "proc_wf s" and dead: "proc_state (proc (current_pid s) s) = PROCESS_DEAD"
    and call: "schedule r s = Some (r', s')" and other: "current_pid s' \<noteq> current_pid s"
  shows "proc_state (proc (current_pid s) s') = PROCESS_DEAD"
proof -
  let ?t = "schedule_save r s" and ?i = "successor (schedule_save r s)"
  have t: "?t = s" using dead by (simp add: schedule_save_def)
  have i: "0 \<le> ?i" "?i < 16" and c: "0 \<le> current_pid s" "length (processes s) = 16"
    using successor_range [OF wf, where r = r] wf by (auto simp: proc_wf_def MAX_PROCESSES_def)
  have "s' = snd (schedule_switch ?i s)" using schedule_eq [OF wf, of r] call unfolding t by (metis option.inject snd_conv)
  then show ?thesis using schedule_switch_facts(2) [OF i c(2)] schedule_switch_facts(5) [OF i c(2) c(1)] dead other by simp
qed

lemma schedule_total: "proc_wf s \<Longrightarrow> \<exists>p. kschedule r s = Some (Inr p) \<and> schedule r s = Some p"
  using schedule_eq [of s r] by (simp add: kschedule_def)

lemma table_kept_kill: "proc_wf s \<Longrightarrow> table_kept s (kill_current_process s)"
  using kill_facts [of s] by (auto simp: table_kept_def fixed_part_def)

lemma kprint_virt_touches: "kprint_virt a s = Some r \<Longrightarrow> touches video_window s (snd r)"
proof (rule kprint_virt.raw_induct [where P = "\<lambda>a s r. touches video_window s (snd r)"])
  fix g :: "u64 \<Rightarrow> 'a vmm_scheme \<Rightarrow> (u64 option \<times> 'a vmm_scheme) option" and a s r
  assume IH: "\<And>a s r. g a s = Some r \<Longrightarrow> touches video_window s (snd r)"
    and r: "(case fetch_virt a s of None \<Rightarrow> Some (Some a, s)
      | Some c \<Rightarrow> if c = 0 then Some (None, s) else g (a + 1) (print_char c (-1) (-1) WHITE_ON_BLACK s)) = Some r"
  have "touches video_window s (snd r)" if "g (a + 1) (print_char c (-1) (-1) WHITE_ON_BLACK s) = Some r" for c
    by (rule touches_trans [OF touches_kprint_char IH [OF that]])
  then show "touches video_window s (snd r)" using r by (auto split: option.splits if_splits)
qed

text \<open>
  The handler on every vector but the keyboard's: it returns a value, unless a print request does
  not end, and keeps the table.
\<close>

lemma timer_prefix:
  "proc_wf s \<Longrightarrow> table_kept s (outb 0x20 0x20 (timer_handler s))"
  by (simp add: table_kept_def timer_handler_def outb_def proc_wf_def proc_def)

lemma kschedule_kept:
  assumes "proc_wf s" and "table_kept s u"
  shows "\<exists>sp s'. kschedule r u = Some (Inr (sp, s')) \<and> table_kept s s'"
proof -
  have "proc_wf u" using assms(2) by (simp add: table_kept_def)
  then obtain sp s' where "kschedule r u = Some (Inr (sp, s'))" "schedule r u = Some (sp, s')"
    using schedule_total by (metis surj_pair)
  then show ?thesis using table_kept_trans [OF assms(2) table_kept_schedule [OF \<open>proc_wf u\<close>]] by blast
qed

lemma isr_handler_total:
  assumes wf: "proc_wf s" and "int_no (read_regs r s) \<noteq> 33"
    and "int_no (read_regs r s) = 128 \<Longrightarrow> rax (read_regs r s) = 1 \<Longrightarrow> kprint_virt (rbx (read_regs r s)) s \<noteq> None"
  shows "\<exists>res s'. isr_handler r s = Some (Inr (res, s')) \<and> table_kept s s'"
proof -
  let ?g = "read_regs r s"
  have vid: "table_kept s t" if "touches video_window s t" for t by (rule table_kept_touches [OF wf that])
  note kp = kprint_touches kprint_hex_touches
  have k1: "table_kept s (kline m s)" for m unfolding kline_def by (rule vid [OF kprint_touches])
  have gp: "table_kept s (kprint m5 (kprint_hex n2 (kprint m4 (kprint_hex n1 (kprint m2 (kline m1 s))))))" for m1 m2 m4 m5 n1 n2
    unfolding kline_def by (intro vid touches_trans [OF _ kprint_touches] touches_trans [OF _ kprint_hex_touches]) (rule touches_refl)
  have pf: "table_kept s (kprint m3 (kprint_hex n (kprint m2 (kline m1 s))))" for m1 m2 m3 n
    unfolding kline_def by (intro vid touches_trans [OF _ kprint_touches] touches_trans [OF _ kprint_hex_touches]) (rule touches_refl)
  obtain sp1 t1 where 1: "kschedule r (outb 0x20 0x20 (timer_handler s)) = Some (Inr (sp1, t1))" "table_kept s t1"
    using kschedule_kept [OF wf timer_prefix [OF wf]] by blast
  obtain sp2 t2 where 2: "kschedule r (kill_current_process s) = Some (Inr (sp2, t2))" "table_kept s t2"
    using kschedule_kept [OF wf table_kept_kill [OF wf]] by blast
  have refl: "table_kept s s" by (rule vid) simp
  consider "int_no ?g = 32" | "int_no ?g = 0" | "int_no ?g = 8" | "int_no ?g = 13" | "int_no ?g = 14" | "int_no ?g = 128"
    | "int_no ?g \<notin> {32, 0, 8, 13, 14, 128}" by blast
  then show ?thesis
  proof cases
    case 6
    consider "rax ?g = 0" | "rax ?g = 1" | "rax ?g \<noteq> 0" "rax ?g \<noteq> 1" by blast
    then show ?thesis
    proof cases
      case p2: 2
      then obtain f t where f: "kprint_virt (rbx ?g) s = Some (f, t)" using assms(3) 6 by auto
      have "table_kept s t" using vid [OF kprint_virt_touches [OF f, simplified]] .
      then show ?thesis using 6 p2 f
        by (cases f) (simp_all add: isr_handler_def isr_syscall_def kreturn_def)
    qed (use 6 2 refl in \<open>simp_all add: isr_handler_def isr_syscall_def kreturn_def\<close>)
  qed (use assms(2) 1 k1 gp pf refl in \<open>simp_all add: isr_handler_def isr_timer_def isr_gp_fault_def isr_page_fault_def kreturn_def\<close>)
qed

text \<open>
  The states that follow each other: code that runs between interrupts may change memory and use
  ports, and every interrupt but the keyboard's, whose handler runs the shell, goes through the handler.
\<close>

inductive trap :: "'a kernel_scheme \<Rightarrow> 'a kernel_scheme \<Rightarrow> bool" where
  run: "trap s (s\<lparr>mem := m, io := h\<rparr>)"
| handled: "int_no (read_regs r s) \<noteq> 33 \<Longrightarrow> isr_handler r s = Some (Inr (Resume sp, s')) \<Longrightarrow> trap s s'"

inductive_cases trapE: "trap s s'"

lemma trap_table_kept:
  assumes "trap s s'" and wf: "proc_wf s"
  shows "table_kept s s'"
  using assms(1)
proof cases
  case (run m h)
  then show ?thesis using wf by (simp add: table_kept_def proc_wf_def proc_def)
next
  case 2: (handled r sp)
  have "kprint_virt (rbx (read_regs r s)) s \<noteq> None" if "int_no (read_regs r s) = 128" "rax (read_regs r s) = 1"
  proof
    assume "kprint_virt (rbx (read_regs r s)) s = None"
    then have "isr_handler r s = None" using that by (simp add: isr_handler_def isr_syscall_def kcall_def)
    with 2 show False by simp
  qed
  from isr_handler_total [OF wf 2(1) this] 2(2) show ?thesis by simp
qed

section \<open>System calls\<close>

text \<open>Printing changes neither the page tables nor the string.\<close>

definition off_screen :: "u64 \<Rightarrow> nat \<Rightarrow> 'a vmm_scheme \<Rightarrow> bool" where
  "off_screen a n s \<longleftrightarrow> (\<forall>i < n. \<forall>e. canonical (a + of_nat i) \<longrightarrow> mmu (a + of_nat i) s = Some e \<longrightarrow>
     (e AND ADDR_MASK) + ((a + of_nat i) AND 0xFFF) \<notin> video_window)"

lemma fetch_virt_stable:
  assumes wf: "pt_wf s T" and r: "T (cr3 s) = Some 0" and off: "off_screen a n s" and t: "touches video_window s t" and i: "i < n"
  shows "fetch_virt (a + of_nat i) t = fetch_virt (a + of_nat i) s"
proof -
  have tab: "video_window \<inter> region b 4096 = {}" if "b \<in> dom T" for b
    using frame_regions(2) [OF pt_wf_pmm [OF wf]] pt_wf_frame [OF wf] that by (auto simp: Int_commute)
  have "translate (cr3 s) v t = translate (cr3 s) v s" for v
    by (rule translate_cong(2) [OF wf r pt_frame(2) [OF wf t video_not_bitmap tab]])
  then have m: "mmu v t = mmu v s" for v using touches_vmm(1,4) [OF t] by (simp add: mmu_def split: option.split)
  have "mem t ((e AND ADDR_MASK) + ((a + of_nat i) AND 0xFFF)) = mem s ((e AND ADDR_MASK) + ((a + of_nat i) AND 0xFFF))"
    if "canonical (a + of_nat i)" "mmu (a + of_nat i) s = Some e" for e
    using touches_mem [OF t] off i that by (simp add: off_screen_def)
  then show ?thesis by (cases "mmu (a + of_nat i) s") (simp_all add: fetch_virt_def m)
qed

lemma kprint_virt_spec:
  assumes "\<And>t i. touches video_window s t \<Longrightarrow> i \<le> length xs \<Longrightarrow> fetch_virt (a + of_nat i) t = fetch_virt (a + of_nat i) s"
    and "\<And>i. i < length xs \<Longrightarrow> fetch_virt (a + of_nat i) s = Some (xs ! i)" and "0 \<notin> set xs"
    and "fetch_virt (a + of_nat (length xs)) s \<in> {None, Some 0}"
  shows "kprint_virt a s =
    Some (if fetch_virt (a + of_nat (length xs)) s = Some 0 then None else Some (a + of_nat (length xs)), kprint_loop xs (-1) (-1) s)"
  using assms
proof (induction xs arbitrary: a s)
  case Nil
  have "fetch_virt a s = None \<or> fetch_virt a s = Some 0" using Nil.prems(4) by simp
  then show ?case by (subst kprint_virt.simps) auto
next
  case (Cons x xs)
  let ?s = "print_char x (-1) (-1) WHITE_ON_BLACK s"
  have step: "fetch_virt (a + 1 + of_nat i) t = fetch_virt (a + of_nat (Suc i)) s" if "touches video_window ?s t" "i \<le> length xs" for t i
    using Cons.prems(1) [OF touches_trans [OF touches_kprint_char that(1)], of "Suc i"] that(2) by (simp add: add.assoc)
  have here: "fetch_virt (a + 1 + of_nat i) ?s = fetch_virt (a + of_nat (Suc i)) s" if "i \<le> length xs" for i
    by (rule step) (use that in simp_all)
  have "kprint_virt (a + 1) ?s =
      Some (if fetch_virt (a + 1 + of_nat (length xs)) ?s = Some 0 then None else Some (a + 1 + of_nat (length xs)), kprint_loop xs (-1) (-1) ?s)"
  proof (rule Cons.IH)
    show "fetch_virt (a + 1 + of_nat i) t = fetch_virt (a + 1 + of_nat i) ?s" if "touches video_window ?s t" "i \<le> length xs" for t i
      using step [OF that] here [OF that(2)] by simp
    show "fetch_virt (a + 1 + of_nat i) ?s = Some (xs ! i)" if "i < length xs" for i
      using here [of i] Cons.prems(2) [of "Suc i"] that by simp
    show "0 \<notin> set xs" using Cons.prems(3) by simp
    show "fetch_virt (a + 1 + of_nat (length xs)) ?s \<in> {None, Some 0}" using here [of "length xs"] Cons.prems(4) by simp
  qed
  moreover have "fetch_virt a s = Some x" "x \<noteq> 0" using Cons.prems(2) [of 0] Cons.prems(3) by auto
  ultimately show ?case using here [of "length xs"] by (subst kprint_virt.simps) (simp add: add.assoc)
qed

section \<open>Properties\<close>


text \<open>
  C16: The exit system call ends the calling process and switches to another one: with a ready process in the
  table, the handler marks the caller dead and resumes at the saved stack pointer of the ready
  process that comes first in cyclic order, with its page tables active.
\<close>

theorem isr_exit_switches:
  assumes wf: "proc_wf s" and "int_no (read_regs r s) = 128" "rax (read_regs r s) = 0"
    and j: "0 \<le> j" "j < process_count s" "j \<noteq> current_pid s" "ready s j"
  shows "\<exists>q s'. isr_handler r s = Some (Inr (Resume (proc_rsp (proc q s)), s')) \<and> proc_wf s' \<and>
    current_pid s' = q \<and> 0 \<le> q \<and> q < process_count s \<and> q \<noteq> current_pid s \<and> ready s q \<and> ahead s q \<le> ahead s j \<and>
    proc_state (proc q s') = PROCESS_RUNNING \<and> proc_state (proc (current_pid s) s') = PROCESS_DEAD \<and>
    (pml4 (proc q s) \<noteq> 0 \<longrightarrow> cr3 s' = pml4 (proc q s))"
proof -
  let ?k = "kill_current_process s" and ?c = "current_pid s"
  note kf = kill_facts [OF wf]
  have c: "0 \<le> ?c" using wf by (simp add: proc_wf_def)
  have "runnable ?k j" using j kf by (simp add: runnable_def)
  from schedule_step [OF kf(1) this, of r] obtain s' q where q: "schedule r ?k = Some (proc_rsp (proc q s'), s')" "proc_wf s'"
    "current_pid s' = q" "runnable ?k q" "\<forall>i. runnable ?k i \<longrightarrow> ahead ?k q \<le> ahead ?k i" "proc_state (proc q s') = PROCESS_RUNNING"
    "proc_rsp (proc q s') = (if q = ?c then r else proc_rsp (proc q ?k))" "pml4 (proc q ?k) \<noteq> 0 \<longrightarrow> cr3 s' = pml4 (proc q ?k)"
    "\<forall>i. 0 \<le> i \<longrightarrow> i \<noteq> ?c \<longrightarrow> i \<noteq> q \<longrightarrow> proc i s' = proc i ?k" unfolding kf(2) by blast
  have qc: "q \<noteq> ?c" and q0: "0 \<le> q" "q < process_count s" using q(4) c kf by (auto simp: runnable_def)
  have rq: "ready s q" using q(4) qc q0 kf by (auto simp: runnable_def)
  have pq: "proc q ?k = proc q s" using kf(4) [OF q0(1)] qc by simp
  have "isr_handler r s = Some (Inr (Resume (proc_rsp (proc q s)), s'))"
    using assms(2,3) q(1,7) qc pq by (simp add: isr_handler_def isr_syscall_def kschedule_def kreturn_def)
  moreover have "ahead s q \<le> ahead s j" using q(5) \<open>runnable ?k j\<close> kf(2,3) by (simp add: ahead_def)
  moreover have "proc_state (proc ?c s') = PROCESS_DEAD"
    using dead_stays [OF kf(1) _ q(1)] kf(2) kf(4) [OF c] q(3) qc by simp
  ultimately show ?thesis using q(2,3,6,8) qc q0 rq pq by auto
qed

text \<open>
  C38: The print system call prints the string of the caller up to its terminator and resumes the caller.
  The pointer is not checked: when the string runs into an address that is not mapped or not
  canonical, the handler itself raises an exception there, after it has printed what came before.
\<close>

theorem isr_print_syscall:
  assumes "pt_wf s T" and "T (cr3 s) = Some 0" and "int_no (read_regs r s) = 128" "rax (read_regs r s) = 1" "rbx (read_regs r s) = a"
    and "\<forall>i < length xs. fetch_virt (a + of_nat i) s = Some (xs ! i)" and "0 \<notin> set xs"
    and "fetch_virt (a + of_nat (length xs)) s \<in> {None, Some 0}" and "off_screen a (Suc (length xs)) s"
  shows "isr_handler r s =
    Some (Inr (if fetch_virt (a + of_nat (length xs)) s = Some 0 then Resume r else AccessFault (a + of_nat (length xs)), kprint xs s))"
proof -
  have "kprint_virt a s =
    Some (if fetch_virt (a + of_nat (length xs)) s = Some 0 then None else Some (a + of_nat (length xs)), kprint_loop xs (-1) (-1) s)"
  proof (rule kprint_virt_spec [OF _ _ assms(7,8)])
    show "fetch_virt (a + of_nat i) t = fetch_virt (a + of_nat i) s" if "touches video_window s t" "i \<le> length xs" for t i
      by (rule fetch_virt_stable [OF assms(1,2,9) that(1)]) (use that(2) in simp)
    show "fetch_virt (a + of_nat i) s = Some (xs ! i)" if "i < length xs" for i using assms(6) that by blast
  qed
  then show ?thesis using assms(3-5)
    by (simp add: isr_handler_def isr_syscall_def kreturn_def kprint_def kprint_at_def)
qed

section \<open>Witnesses\<close>

text \<open>A saved register frame with a vector, \<^verbatim>\<open>rax\<close> and \<^verbatim>\<open>rbx\<close>, and a short string.\<close>

definition with_frame :: "u64 \<Rightarrow> u64 \<Rightarrow> u64 \<Rightarrow> memory \<Rightarrow> memory" where
  "with_frame v a b m = write64 (write64 (write64 m 0x110080 v) 0x110008 a) 0x110010 b"

lemma with_frame_regs:
  assumes "mem s = with_frame v a b m"
  shows "int_no (read_regs 0x110000 s) = v" "rax (read_regs 0x110000 s) = a" "rbx (read_regs 0x110000 s) = b"
proof -
  have d: "region 0x110008 8 \<inter> region 0x110080 8 = {}" "region 0x110010 8 \<inter> region 0x110080 8 = {}"
    "region 0x110008 8 \<inter> region 0x110010 8 = {}" "region 0x110010 8 \<inter> region 0x110008 8 = {}"
    using region_disjointI [of "0x110008" 8 "0x110080" 8] region_disjointI [of "0x110010" 8 "0x110080" 8]
      region_disjointI [of "0x110008" 8 "0x110010" 8] by (auto simp: Int_commute)
  show "int_no (read_regs 0x110000 s) = v" "rax (read_regs 0x110000 s) = a" "rbx (read_regs 0x110000 s) = b"
    by (simp_all add: read_regs_def assms with_frame_def read64_def write64_def load_store_same load_store_other d)
qed

lemma kernel_machine_table:
  "processes (kernel_machine sts) = processes (proc_machine sts)" "current_pid (kernel_machine sts) = current_pid (proc_machine sts)"
  "process_count (kernel_machine sts) = process_count (proc_machine sts)"
  by (simp_all add: kernel_machine_def fat.extend_def process.extend_def)

definition trap_machine :: "u64 \<Rightarrow> u64 \<Rightarrow> process_state_t list \<Rightarrow> kernel" where
  "trap_machine v a sts = (kernel_machine sts)\<lparr>mem := with_frame v a 0 (\<lambda>_. 0)\<rparr>"

lemma trap_machine_regs:
  "int_no (read_regs 0x110000 (trap_machine v a sts)) = v" "rax (read_regs 0x110000 (trap_machine v a sts)) = a"
  by (rule with_frame_regs(1), simp add: trap_machine_def) (rule with_frame_regs(2), simp add: trap_machine_def)

lemma trap_machine_proc:
  "proc i (trap_machine v a sts) = proc i (proc_machine sts)" "current_pid (trap_machine v a sts) = 0"
  "process_count (trap_machine v a sts) = int (length sts)"
  "proc_wf (trap_machine v a sts) = proc_wf (proc_machine sts)"
  by (simp_all add: trap_machine_def proc_def proc_wf_def kernel_machine_table proc_machine_table)


theorem isr_exit_switches_witness:
  "\<exists>s'. isr_handler 0x110000 (trap_machine 128 0 [PROCESS_RUNNING, PROCESS_READY]) = Some (Inr (Resume 0, s')) \<and>
     current_pid s' = 1 \<and> proc_state (proc 0 s') = PROCESS_DEAD"
proof -
  let ?s = "trap_machine 128 0 [PROCESS_RUNNING, PROCESS_READY]"
  have wf: "proc_wf ?s" unfolding trap_machine_proc by (rule proc_machine_wf) (auto simp: less_Suc_eq numeral_eq_Suc)
  have "ready ?s 1" by (simp add: trap_machine_proc proc_machine_state)
  from isr_exit_switches [OF wf, of "0x110000" 1] this obtain q s' where
    q: "isr_handler 0x110000 ?s = Some (Inr (Resume (proc_rsp (proc q ?s)), s'))" "current_pid s' = q" "0 \<le> q" "q < 2" "q \<noteq> 0"
    "proc_state (proc 0 s') = PROCESS_DEAD"
    by (auto simp: trap_machine_regs trap_machine_proc)
  then have "q = 1" by linarith
  moreover have "proc_rsp (proc 1 ?s) = 0"
    by (simp add: trap_machine_proc) (simp add: proc_def proc_machine_table nth_append blank_process_def)
  ultimately show ?thesis using q(1,2,6) by (intro exI [of _ s']) simp
qed

text \<open>A machine with page tables, the string \<^verbatim>\<open>hi\<close> at 1 MB and the frame of a print request for it.\<close>

definition print_machine :: "u64 \<Rightarrow> kernel" where
  "print_machine a = (kernel_machine [PROCESS_RUNNING])
     \<lparr>mem := with_frame 128 1 a ((mem paged_machine)(0x100000 := 104, 0x100001 := 105, 0x100002 := 0)),
      bitmap := bitmap paged_machine, total_blocks := total_blocks paged_machine,
      cr3 := cr3 paged_machine, tlb := Map.empty\<rparr>"

text \<open>The same memory on the machine without the upper layers.\<close>

definition print_base :: "u64 \<Rightarrow> vmm" where
  "print_base a = paged_machine
     \<lparr>mem := with_frame 128 1 a ((mem paged_machine)(0x100000 := 104, 0x100001 := 105, 0x100002 := 0))\<rparr>"

lemma pt_wf_same:
  assumes "mem s' = mem s" "bitmap s' = bitmap s" "total_blocks s' = total_blocks s"
  shows "pt_wf s' T = pt_wf s T" and "translate r v s' = translate r v s"
proof -
  have e: "get_entry a i s' = get_entry a i s" for a i by (simp add: get_entry_def assms)
  have u: "block_used s' i = block_used s i" for i by (simp add: block_used_def assms)
  have f: "frames s' = frames s" "free_frames s' = free_frames s" "pmm_wf s' = pmm_wf s"
    by (simp_all add: frames_def free_frames_def free_blocks_def pmm_wf_def u assms)
  show "pt_wf s' T = pt_wf s T" by (simp only: pt_wf_def e f)
  have "table_at r v k s' = table_at r v k s" for k by (induction k) (simp_all add: e split: option.split)
  then show "translate r v s' = translate r v s" by (simp add: translate_def e split: option.split)
qed

lemma print_machine_tables:
  "\<exists>T. pt_wf (print_machine a) T \<and> T (cr3 (print_machine a)) = Some 0 \<and>
    mmu 0x100000 (print_machine a) = Some (0x100000 OR kernel_flags)"
proof -
  obtain T where T: "pt_wf paged_machine T" "T (kernel_pml4 paged_machine) = Some 0"
    "identity_mapped (kernel_pml4 paged_machine) (2 ^ 17) paged_machine" "cr3 paged_machine = kernel_pml4 paged_machine"
    using vmm_init_spec [OF page_machine_wf] unfolding paged_machine_def page_machine_free by auto
  let ?A = "region 0x100000 0x20000" and ?b = "print_base a"
  note pmm = pt_wf_pmm [OF T(1)]
  have sub: "region 0x110080 8 \<subseteq> ?A" "region 0x110008 8 \<subseteq> ?A" "region 0x110010 8 \<subseteq> ?A"
    using region_sub [of "0x10080" 8 "0x20000" "0x100000"] region_sub [of "0x10008" 8 "0x20000" "0x100000"]
      region_sub [of "0x10010" 8 "0x20000" "0x100000"] by simp_all
  have out: "mem ?b x = mem paged_machine x" if "x \<notin> ?A" for x
  proof -
    have "x \<noteq> 0x100000" "x \<noteq> 0x100001" "x \<noteq> 0x100002" using that by (auto simp: region_iff)
    moreover have "x \<notin> region 0x110080 8" "x \<notin> region 0x110008 8" "x \<notin> region 0x110010 8" using that sub by blast+
    ultimately show ?thesis by (simp add: print_base_def with_frame_def write64_def store_outside)
  qed
  then have t: "touches ?A paged_machine ?b" by (simp add: touches_def) (simp add: print_base_def)
  have tab: "?A \<inter> region x 4096 = {}" if "x \<in> dom T" for x
    using low_region_apart(3) [OF _ pmm, of "0x20000"] pt_wf_frame [OF T(1)] that by auto
  note keep = pt_frame [OF T(1) t low_region_apart(1) tab]
  have wf: "pt_wf ?b T" using keep(1) by simp
  have tr: "translate (kernel_pml4 paged_machine) v ?b = translate (kernel_pml4 paged_machine) v paged_machine" for v
    by (rule translate_cong(2) [OF T(1,2)]) (use keep(2) in simp)
  have same: "mem (print_machine a) = mem ?b" "bitmap (print_machine a) = bitmap ?b" "total_blocks (print_machine a) = total_blocks ?b"
    "cr3 (print_machine a) = kernel_pml4 paged_machine" "tlb (print_machine a) = Map.empty"
    by (simp_all add: print_machine_def print_base_def T(4))
  have "translate (kernel_pml4 paged_machine) 0x100000 paged_machine = Some (0x100000 OR kernel_flags)"
    using T(3) [unfolded identity_mapped_def, rule_format, of 256] by simp
  then show ?thesis using wf T(2) pt_wf_same [OF same(1-3)] tr same(4,5)
    by (intro exI [of _ T]) (simp add: mmu_def)
qed

text \<open>A pointer to the string prints it; a pointer into the hole behind the canonical addresses faults at once.\<close>

theorem isr_print_syscall_witness:
  "isr_handler 0x110000 (print_machine 0x100000) = Some (Inr (Resume 0x110000, kprint (chars ''hi'') (print_machine 0x100000))) \<and>
   isr_handler 0x110000 (print_machine 0x800000000000) = Some (Inr (AccessFault 0x800000000000, kprint [] (print_machine 0x800000000000)))"
proof
  let ?s = "print_machine 0x100000" and ?h = "chars ''hi''"
  obtain T where T: "pt_wf ?s T" "T (cr3 ?s) = Some 0" "mmu 0x100000 ?s = Some (0x100000 OR kernel_flags)"
    using print_machine_tables by blast
  have regs: "int_no (read_regs 0x110000 ?s) = 128" "rax (read_regs 0x110000 ?s) = 1" "rbx (read_regs 0x110000 ?s) = 0x100000"
    by (rule with_frame_regs, simp add: print_machine_def)+
  have m: "mem ?s 0x100000 = 104" "mem ?s 0x100001 = 105" "mem ?s 0x100002 = 0"
    by (simp_all add: print_machine_def with_frame_def write64_def store_outside region_no_wrap)
  have p: "page_of 0x100001 = page_of 0x100000" "page_of 0x100002 = page_of 0x100000" by (simp_all add: page_of_def)
  have mm: "mmu v ?s = translate (cr3 ?s) v ?s" for v by (simp add: mmu_def print_machine_def)
  have all: "mmu 0x100000 ?s = Some 0x100007" "mmu 0x100001 ?s = Some 0x100007" "mmu 0x100002 ?s = Some 0x100007"
    using T(3) translate_page_cong [OF p(1), of "cr3 ?s" ?s] translate_page_cong [OF p(2), of "cr3 ?s" ?s]
    unfolding mm by (simp_all add: PAGING_FLAG_PRESENT_def PAGING_FLAG_WRITABLE_def PAGING_FLAG_USER_def)
  have f: "fetch_virt 0x100000 ?s = Some 104" "fetch_virt 0x100001 ?s = Some 105" "fetch_virt 0x100002 ?s = Some 0"
    by (simp_all add: fetch_virt_def canonical_def all m ADDR_MASK_def)
  have off: "off_screen 0x100000 (Suc (length ?h)) ?s"
    by (auto simp: off_screen_def chars_def less_Suc_eq all ADDR_MASK_def video_window_def VIDEO_ADDRESS_def region_no_wrap)
  have "isr_handler 0x110000 ?s = Some (Inr (if fetch_virt (0x100000 + of_nat (length ?h)) ?s = Some 0 then Resume 0x110000
      else AccessFault (0x100000 + of_nat (length ?h)), kprint ?h ?s))"
    by (rule isr_print_syscall [OF T(1,2) regs _ _ _ off]) (simp_all add: chars_def f less_Suc_eq all_conj_distrib)
  then show "isr_handler 0x110000 ?s = Some (Inr (Resume 0x110000, kprint ?h ?s))" by (simp add: chars_def f)
next
  let ?s = "print_machine 0x800000000000"
  obtain T where T: "pt_wf ?s T" "T (cr3 ?s) = Some 0" using print_machine_tables by blast
  have regs: "int_no (read_regs 0x110000 ?s) = 128" "rax (read_regs 0x110000 ?s) = 1" "rbx (read_regs 0x110000 ?s) = 0x800000000000"
    by (rule with_frame_regs, simp add: print_machine_def)+
  have f: "fetch_virt 0x800000000000 ?s = None" by (simp add: fetch_virt_def canonical_def mask_eq_exp_minus_1)
  have "isr_handler 0x110000 ?s = Some (Inr (if fetch_virt (0x800000000000 + of_nat (length ([] :: u8 list))) ?s = Some 0 then Resume 0x110000
      else AccessFault (0x800000000000 + of_nat (length ([] :: u8 list))), kprint [] ?s))"
    by (rule isr_print_syscall [OF T regs]) (simp_all add: f off_screen_def canonical_def mask_eq_exp_minus_1)
  then show "isr_handler 0x110000 ?s = Some (Inr (AccessFault 0x800000000000, kprint [] ?s))" by (simp add: f)
qed

end
