(* ===== verification/Heap_Buffers.thy ===== *)
theory Heap_Buffers
  imports Kheap
begin

text \<open>
  How a client uses the heap for scratch buffers: it allocates 512 bytes, fills them, calls functions
  that do the same, and frees the buffer last. The lemmas here show that such a nest of calls
  succeeds when the heap has room for its depth, that the buffers in use keep their contents, and
  that the heap is as before at the end.
\<close>

section \<open>Port accesses of the heap\<close>

lemma io_setters [simp]:
  "io (set_next a v s) = io s" "io (set_size a v s) = io s" "io (set_free a w s) = io s"
  by (simp_all add: set_next_def set_size_def set_free_def poke64_def poke_def)

lemma kmalloc_io: "kmalloc sz s = Some (p, s') \<Longrightarrow> p \<noteq> 0 \<Longrightarrow> io s' = io s"
  by (auto simp: kmalloc_def kmalloc_take_def kmalloc_expand_def Let_def bind_eq_Some_conv split: if_splits prod.splits)

lemma kfree_merge_io:
  assumes "kfree_merge cur s = Some s'"
  shows "io s' = io s"
proof (rule kfree_merge.raw_induct [where P = "\<lambda>cur s s'. io s' = io s", OF _ assms])
  fix f cur and s s' :: "'a machine_scheme"
  assume IH: "\<And>cur s s'. f cur s = Some s' \<Longrightarrow> io s' = io s"
    and run: "(if cur \<noteq> 0 \<and> hdr_next cur s \<noteq> 0 then
        (if hdr_free cur s \<and> hdr_free (hdr_next cur s) s then
           f cur (let s = set_size cur (hdr_size cur s + (HEADER_SIZE + hdr_size (hdr_next cur s) s)) s
              in set_next cur (hdr_next (hdr_next cur s) s) s)
         else f (hdr_next cur s) s)
      else Some s) = Some s'"
  from run show "io s' = io s" by (auto simp: Let_def split: if_splits dest!: IH)
qed

lemma kfree_io: "kfree p s = Some s' \<Longrightarrow> io s' = io s"
  by (auto simp: kfree_def Let_def split: if_splits dest!: kfree_merge_io)

section \<open>Memory that a nested call may use\<close>

text \<open>
  The headers of the list, the free blocks, and the screen. The data of the blocks in use is outside.
\<close>

definition idle_mem :: "hblock list \<Rightarrow> u64 set" where
  "idle_mem bs = video_window \<union> (\<Union>b \<in> set bs. header b) \<union> (\<Union>b \<in> {b \<in> set bs. hfree b}. extent b)"

fun room :: "nat \<Rightarrow> hblock list \<Rightarrow> bool" where
  "room 0 bs = True"
| "room (Suc n) bs = (case alloc_blocks 512 bs of None \<Rightarrow> False | Some (p, bs') \<Rightarrow> room n bs')"

lemma take_block_coalesced:
  assumes "coalesced (xs @ b # ys)" "hfree b"
  shows "coalesced (xs @ take_block sz b @ ys)"
proof -
  have 1: "coalesced (zs @ c # ys)" if "coalesced (zs @ b # ys)" "hfree c \<longrightarrow> hfree b" for zs c
    using that by (induction zs rule: coalesced.induct) (auto elim: coalesced.elims; cases ys; auto)+
  have "coalesced (xs @ c # ys)" if "\<not> hfree c" for c
    using 1 [OF assms(1), of c] that by simp
  moreover have "coalesced (xs @ c # d # ys)" if "\<not> hfree c" "hfree d" for c d
  proof -
    have "coalesced (b # ys)" using assms(1) by (induction xs rule: coalesced.induct) auto
    then have "coalesced (d # ys)" using that(2) assms(2) by (cases ys) auto
    then have cd: "coalesced (c # d # ys)" using that(1) by simp
    show ?thesis using calculation [OF that(1)] cd by (induction xs rule: coalesced.induct) auto
  qed
  ultimately show ?thesis by (simp add: take_block_def)
qed

text \<open>Where the data of a block that is given out lies, and what the new list adds to the old.\<close>

lemma take_block_sub:
  assumes "c \<in> set (take_block 512 b)" "512 \<le> hsize b" "hend b < 2 ^ 50"
  shows "extent c \<subseteq> extent b"
proof -
  have *: "haddr b \<le> haddr c \<and> haddr c - haddr b + (24 + hsize c) \<le> 24 + hsize b"
    using assms(1,2) by (auto simp: take_block_def split: if_splits)
  then have "region (of_nat (haddr b) + of_nat (haddr c - haddr b)) (24 + hsize c) \<subseteq> extent b"
    using assms(3) by (intro region_sub) auto
  then show ?thesis using * by (simp flip: of_nat_add)
qed

lemma taken_apart:
  assumes inv: "heap_inv s (xs @ b # ys)" and b: "hfree b" "512 \<le> hsize b"
    and c: "c \<in> set (xs @ take_block 512 b @ ys)"
  shows "region (of_nat (haddr b + 24)) 512 \<inter> header c = {}"
    and "hfree c \<Longrightarrow> region (of_nat (haddr b + 24)) 512 \<inter> extent c = {}"
proof -
  let ?R = "region (of_nat (haddr b + 24)) 512 :: u64 set"
  have "hend b < 2 ^ 50" by (rule heap_inv_block(3) [OF inv]) simp
  then have R: "?R \<subseteq> extent b"
    using region_sub [of 24 512 "24 + hsize b" "of_nat (haddr b)"] b(2) by simp
  have "?R \<inter> header c = {} \<and> (hfree c \<longrightarrow> ?R \<inter> extent c = {})"
  proof (cases "c \<in> set (take_block 512 b)")
    case True
    have "?R \<inter> extent c = {}" if "hfree c"
    proof -
      have c: "c = HBlock (haddr b + 24 + 512) (hsize b - 512 - 24) True" "512 + 32 < hsize b"
        using True that by (auto simp: take_block_def split: if_splits)
      show ?thesis
        using region_above_disjoint [of "haddr b + 24" 512 "haddr b + 24 + 512" "24 + (hsize b - 512 - 24)"] c(2) \<open>hend b < 2 ^ 50\<close>
        by (simp add: c(1))
    qed
    moreover have "?R \<inter> header c = {}" using region_take_block [OF True] b \<open>hend b < 2 ^ 50\<close> by simp
    ultimately show ?thesis by blast
  next
    case False
    then have "c \<in> set xs \<union> set ys" using c by auto
    then show ?thesis using heap_inv_split(5) [OF inv, of c] R header_extent [of c] by blast
  qed
  then show "?R \<inter> header c = {}" "hfree c \<Longrightarrow> ?R \<inter> extent c = {}" by auto
qed

lemma idle_mem_take:
  assumes inv: "heap_inv s (xs @ b # ys)" and b: "hfree b" "512 \<le> hsize b"
  shows "idle_mem (xs @ take_block 512 b @ ys) \<subseteq> idle_mem (xs @ b # ys)" and "extent b \<subseteq> idle_mem (xs @ b # ys)"
proof -
  have e: "hend b < 2 ^ 50" by (rule heap_inv_block(3) [OF inv]) simp
  show ext: "extent b \<subseteq> idle_mem (xs @ b # ys)" using b by (auto simp: idle_mem_def)
  have "header c \<subseteq> idle_mem (xs @ b # ys) \<and> (hfree c \<longrightarrow> extent c \<subseteq> idle_mem (xs @ b # ys))"
    if "c \<in> set (xs @ take_block 512 b @ ys)" for c
  proof (cases "c \<in> set (take_block 512 b)")
    case True
    then show ?thesis using take_block_sub [OF True b(2) e] header_extent [of c] ext by blast
  next
    case False
    then have "c \<in> set (xs @ b # ys)" using that by auto
    then show ?thesis by (auto simp: idle_mem_def)
  qed
  moreover have "video_window \<subseteq> idle_mem (xs @ b # ys)" by (auto simp: idle_mem_def)
  ultimately show "idle_mem (xs @ take_block 512 b @ ys) \<subseteq> idle_mem (xs @ b # ys)"
    unfolding idle_mem_def [of "xs @ take_block 512 b @ ys"] by blast
qed

lemma buffer_alloc:
  assumes inv: "heap_inv s bs" and co: "coalesced bs" and room: "room (Suc n) bs"
  obtains p s1 bs1 where "kmalloc 512 s = Some (p, s1)" "p \<noteq> 0" "heap_inv s1 bs1" "coalesced bs1" "room n bs1"
    "touches (idle_mem bs) s s1" "io s1 = io s" "region p 512 \<subseteq> idle_mem bs" "region p 512 \<inter> idle_mem bs1 = {}"
    "idle_mem bs1 \<subseteq> idle_mem bs" "region p 512 \<inter> bitmap_area = {}"
    "\<And>t. heap_inv t bs1 \<Longrightarrow> \<exists>t'. kfree p t = Some t' \<and> heap_inv t' bs \<and> touches (idle_mem bs1) t t' \<and> io t' = io t"
proof -
  from room obtain q cs where al: "alloc_blocks 512 bs = Some (q, cs)" "room n cs" by (auto split: option.splits)
  have "(512 :: u64) \<noteq> 0" by simp
  with inv show thesis
  proof (rule kmalloc_cases)
    fix xs b ys s1 assume bs: "bs = xs @ b # ys" "fits (unat (512 :: u64)) b"
      "alloc_blocks (unat (512 :: u64)) bs = Some (haddr b + 24, xs @ take_block (unat (512 :: u64)) b @ ys)"
      "kmalloc 512 s = Some (of_nat (haddr b + 24), s1)" "heap_inv s1 (xs @ take_block (unat (512 :: u64)) b @ ys)"
      "touches (extent b) s s1"
    define p :: u64 where "p = of_nat (haddr b + 24)"
    define bs1 where "bs1 = xs @ take_block 512 b @ ys"
    have b: "b \<in> set bs" "hfree b" "512 \<le> hsize b" using bs by auto
    note blk = heap_inv_block [OF inv b(1)] and inv' = inv [unfolded bs(1)]
    note idle = idle_mem_take [OF inv' b(2,3), folded bs(1) bs1_def]
    note apart = taken_apart [OF inv' b(2,3), folded bs1_def p_def]
    have dis: "region p 512 \<inter> bitmap_area = {}" "region p 512 \<inter> video_window = {}"
      using extent_not_bitmap [of "haddr b + 24" 512] video_low [of "haddr b + 24" 512] b blk(1,3) by (auto simp: p_def)
    show thesis
    proof (rule that [of p s1 bs1])
      show "kmalloc 512 s = Some (p, s1)" using bs(4) by (simp add: p_def)
      show "p \<noteq> 0" using heap_inv_data_nonnull [OF inv b(1)] by (simp add: p_def)
      then show "io s1 = io s" using kmalloc_io bs(4) by (auto simp: p_def)
      show "heap_inv s1 bs1" using bs(5) by (simp add: bs1_def)
      show "coalesced bs1" using take_block_coalesced [of xs b ys 512] co b by (simp add: bs bs1_def)
      show "room n bs1" using al bs(3) by (simp add: bs1_def)
      show "touches (idle_mem bs) s s1" using bs(6) idle(2) by (rule touches_mono)
      show "region p 512 \<subseteq> idle_mem bs"
        using region_sub [of 24 512 "24 + hsize b" "of_nat (haddr b)"] b(3) blk(3) idle(2) by (simp add: p_def)
      show "region p 512 \<inter> idle_mem bs1 = {}" using dis(2) apart unfolding idle_mem_def by blast
      show "idle_mem bs1 \<subseteq> idle_mem bs" "region p 512 \<inter> bitmap_area = {}" by (fact idle(1), fact dis(1))
      fix t assume t: "heap_inv t bs1"
      define c where "c = hd (take_block 512 b)"
      have c: "c \<in> set bs1" "haddr c = haddr b" by (auto simp: c_def take_block_def bs1_def)
      from t obtain hi where ok: "blocks_ok 0x2000000 hi (xs @ take_block 512 b @ ys)" by (auto simp: heap_inv_def bs1_def)
      have fb: "free_block (haddr b + 24) bs1 = bs" using free_take_block [OF _ _ ok] co bs(1) b by (simp add: bs1_def)
      obtain t' where t': "kfree p t = Some t'" "heap_inv t' bs" "touches (\<Union>c \<in> set bs1. header c) t t'"
        using kfree_spec [OF t c(1)] by (auto simp: c(2) fb p_def)
      have "touches (idle_mem bs1) t t'" by (rule touches_mono [OF t'(3)]) (auto simp: idle_mem_def)
      then show "\<exists>t'. kfree p t = Some t' \<and> heap_inv t' bs \<and> touches (idle_mem bs1) t t' \<and> io t' = io t"
        using t' kfree_io [OF t'(1)] by blast
    qed
  qed (use al in auto)
qed

text \<open>Filling the buffer keeps the heap.\<close>

lemma buffer_fill:
  assumes "heap_inv s bs" "touches (region p 512) s t" "region p 512 \<inter> idle_mem bs = {}" "region p 512 \<inter> bitmap_area = {}"
  shows "heap_inv t bs"
  by (rule heap_inv_frame [OF assms(1,2,4)]) (use assms(3) in \<open>auto simp: idle_mem_def\<close>)

end
