(* ===== verification/Fat_Table.thy ===== *)
theory Fat_Table
  imports Fat Heap_Buffers
begin

text \<open>
  What the operations on the allocation table do to the medium. All of them work in scratch buffers;
  \<open>fs_ready n\<close> says that the heap has room for \<open>n\<close> nested buffers and that a disk with the given
  contents is attached. An operation that has finished leaves the state as it was except for idle
  memory, the port history, and the disk.
\<close>

section \<open>Sectors in scratch buffers\<close>

definition fs_ready :: "nat \<Rightarrow> 'a fat_scheme \<Rightarrow> hblock list \<Rightarrow> image \<Rightarrow> bool" where
  "fs_ready n s bs img \<longleftrightarrow> heap_inv s bs \<and> coalesced bs \<and> room n bs \<and> disk_is s img"

lemma touches_fat_vars:
  fixes s :: "'a fat_scheme"
  assumes "touches A s s'"
  shows "fat_info s' = fat_info s" "fat_start_sector s' = fat_start_sector s" "root_dir_sector s' = root_dir_sector s"
    "data_start_sector s' = data_start_sector s" "current_dir_cluster s' = current_dir_cluster s"
    "current_path s' = current_path s" "is_fat_initialized s' = is_fat_initialized s"
proof -
  obtain m h where s': "s' = s\<lparr>mem := m, io := h\<rparr>" using touches_eq [OF assms] by metis
  show "fat_info s' = fat_info s" "fat_start_sector s' = fat_start_sector s" "root_dir_sector s' = root_dir_sector s"
    "data_start_sector s' = data_start_sector s" "current_dir_cluster s' = current_dir_cluster s"
    "current_path s' = current_path s" "is_fat_initialized s' = is_fat_initialized s"
    by (simp_all add: s')
qed

lemma disk_is_same_io: "touches A s s' \<Longrightarrow> io s' = io s \<Longrightarrow> disk_is s img \<Longrightarrow> disk_is s' img"
  using touches_dev [of A s s'] by (auto simp: disk_is_def drive_attached_def)

lemma disk_is_kprint: "disk_is s img \<Longrightarrow> disk_is (kprint msg s) img"
  using drive_attached_kprint unfolding disk_is_def by blast

text \<open>
  A buffer that holds a sector: \<open>buffer_for bs bs1 p\<close> relates the block list before and after the
  allocation of \<open>p\<close>.
\<close>

definition buffer_for :: "hblock list \<Rightarrow> hblock list \<Rightarrow> u64 \<Rightarrow> 'a fat_scheme \<Rightarrow> bool" where
  "buffer_for bs bs1 p (s :: 'a fat_scheme) \<longleftrightarrow> p \<noteq> 0 \<and> region p 512 \<subseteq> idle_mem bs \<and> region p 512 \<inter> idle_mem bs1 = {} \<and>
     idle_mem bs1 \<subseteq> idle_mem bs \<and> region p 512 \<inter> bitmap_area = {} \<and> coalesced bs \<and>
     (\<forall>t :: 'a fat_scheme. heap_inv t bs1 \<longrightarrow>
        (\<exists>t'. kfree p t = Some t' \<and> heap_inv t' bs \<and> touches (idle_mem bs1) t t' \<and> io t' = io t))"

lemma room_mono: "room n bs \<Longrightarrow> m \<le> n \<Longrightarrow> room m bs"
proof (induction n arbitrary: bs m)
  case (Suc n)
  then show ?case by (cases m) (fastforce split: option.splits)+
qed simp

lemma fs_ready_mono: "fs_ready n s bs img \<Longrightarrow> m \<le> n \<Longrightarrow> fs_ready m s bs img"
  by (auto simp: fs_ready_def intro: room_mono)

lemma get_buffer:
  assumes "fs_ready (Suc n) s bs img"
  obtains p s1 bs1 where "kmalloc 512 s = Some (p, s1)" "buffer_for bs bs1 p s1" "fs_ready n s1 bs1 img"
    "touches (idle_mem bs) s s1"
proof -
  have a: "heap_inv s bs" "coalesced bs" "room (Suc n) bs" "disk_is s img" using assms by (auto simp: fs_ready_def)
  from buffer_alloc [OF a(1-3)] obtain p s1 bs1 where b: "kmalloc 512 s = Some (p, s1)" "p \<noteq> 0" "heap_inv s1 bs1" "coalesced bs1" "room n bs1"
    "touches (idle_mem bs) s s1" "io s1 = io s" "region p 512 \<subseteq> idle_mem bs" "region p 512 \<inter> idle_mem bs1 = {}"
    "idle_mem bs1 \<subseteq> idle_mem bs" "region p 512 \<inter> bitmap_area = {}"
    "\<And>t :: 'a fat_scheme. heap_inv t bs1 \<Longrightarrow> \<exists>t'. kfree p t = Some t' \<and> heap_inv t' bs \<and> touches (idle_mem bs1) t t' \<and> io t' = io t"
    by metis
  have "disk_is s1 img" by (rule disk_is_same_io [OF b(6,7) a(4)])
  then show thesis using b a(2) by (intro that [of p s1 bs1]) (auto simp: buffer_for_def fs_ready_def)
qed

lemma free_buffer:
  assumes "buffer_for bs bs1 p (s :: 'a fat_scheme)" "fs_ready n (t :: 'a fat_scheme) bs1 img" "room m bs"
  obtains t' where "kfree p t = Some t'" "fs_ready m t' bs img" "touches (idle_mem bs1) t t'"
proof -
  have "heap_inv t bs1" "disk_is t img" using assms(2) by (auto simp: fs_ready_def)
  with assms(1) obtain t' where t': "kfree p t = Some t'" "heap_inv t' bs" "touches (idle_mem bs1) t t'" "io t' = io t"
    by (auto simp: buffer_for_def)
  have "disk_is t' img" by (rule disk_is_same_io [OF t'(3,4) \<open>disk_is t img\<close>])
  then show thesis using t' assms(1,3) by (intro that [of t']) (auto simp: fs_ready_def buffer_for_def)
qed

lemma change_buffer:
  assumes "buffer_for bs bs1 p (s0 :: 'a fat_scheme)" "fs_ready n (s :: 'a fat_scheme) bs1 img" "touches (region p 512) s t" "disk_is t img'"
  shows "fs_ready n t bs1 img'"
  using assms buffer_fill [of s bs1 p t] by (auto simp: fs_ready_def buffer_for_def)

definition holds_sector :: "u64 \<Rightarrow> (nat \<Rightarrow> u8) \<Rightarrow> 'a machine_scheme \<Rightarrow> bool" where
  "holds_sector p f s \<longleftrightarrow> (\<forall>i < 512. mem s (p + of_nat i) = f i)"

lemma fill_buffer:
  assumes "buffer_for bs bs1 p (s0 :: 'a fat_scheme)" "fs_ready n (s :: 'a fat_scheme) bs1 img"
  obtains t where "ata_read_sector lba p s = Some t" "fs_ready n t bs1 img" "touches (region p 512) s t"
    "holds_sector p (img (sector lba)) t"
proof -
  have d: "disk_is s img" using assms(2) by (simp add: fs_ready_def)
  obtain t where t: "ata_read_sector lba p s = Some t" "disk_is t img" "touches (region p 512) s t"
    "\<And>i. i < 512 \<Longrightarrow> mem t (p + of_nat i) = img (sector lba) i" by (rule disk_read [OF d, of lba p]) blast
  show thesis using change_buffer [OF assms t(3,2)] t by (intro that [of t]) (auto simp: holds_sector_def)
qed

lemma flush_buffer:
  assumes "fs_ready n (s :: 'a fat_scheme) bs1 img" "holds_sector p g s"
  obtains t f where "ata_write_sector lba p s = Some t" "fs_ready n t bs1 (img(sector lba := f))" "touches {} s t"
    "\<And>i. i < 512 \<Longrightarrow> f i = g i"
proof -
  have d: "disk_is s img" using assms(1) by (simp add: fs_ready_def)
  obtain t f where t: "ata_write_sector lba p s = Some t" "disk_is t (img(sector lba := f))" "touches {} s t"
    "\<And>i. i < 512 \<Longrightarrow> f i = mem s (p + of_nat i)" by (rule disk_write [OF d, of lba p]) blast
  have "heap_inv t bs1" by (rule heap_inv_frame [OF _ t(3)]) (use assms(1) in \<open>auto simp: fs_ready_def\<close>)
  then show thesis using t assms by (intro that [of t f]) (auto simp: fs_ready_def holds_sector_def)
qed

text \<open>The contents of a buffer survive what the nested calls do.\<close>

lemma holds_sector_frame:
  assumes "holds_sector p f s" "touches A s t" "A \<inter> region p 512 = {}"
  shows "holds_sector p f t"
  unfolding holds_sector_def
proof (intro allI impI)
  fix i :: nat assume i: "i < 512"
  have "p + of_nat i \<in> region p 512" by (rule in_region_offset) (use i in auto)
  then show "mem t (p + of_nat i) = f i" using assms i by (metis disjoint_iff holds_sector_def touches_mem)
qed

lemma buffer_mono: "buffer_for bs bs1 p s \<Longrightarrow> touches (region p 512) t u \<Longrightarrow> touches (idle_mem bs) t u"
  by (auto simp: buffer_for_def intro: touches_mono)

lemma buffer_idle: "buffer_for bs bs1 p s \<Longrightarrow> touches (idle_mem bs1) t u \<Longrightarrow> touches (idle_mem bs) t u"
  by (auto simp: buffer_for_def intro: touches_mono)

section \<open>Entries of the table\<close>

definition le16 :: "(nat \<Rightarrow> u8) \<Rightarrow> nat \<Rightarrow> u16" where
  "le16 f i = ucast (f i) OR push_bit 8 (ucast (f (i + 1)))"

lemma read16_sector:
  "holds_sector p f s \<Longrightarrow> i + 1 < 512 \<Longrightarrow> read16 (mem s) (p + of_nat i) = le16 f i"
proof -
  assume h: "holds_sector p f s" and i: "i + 1 < 512"
  have "p + of_nat i + 1 = p + of_nat (i + 1)" by simp
  then have "mem s (p + of_nat i) = f i" "mem s (p + of_nat i + 1) = f (i + 1)"
    using h i unfolding holds_sector_def by (auto simp only:)
  then show ?thesis by (simp only: read16_bytes le16_def)
qed

text \<open>The sector and byte where the entry of a cluster lies.\<close>

abbreviation tab_sector :: "u32 \<Rightarrow> u16 \<Rightarrow> u32" where
  "tab_sector start c \<equiv> sector (start + of_nat (unat c div 256))"

abbreviation tab_offset :: "u16 \<Rightarrow> nat" where
  "tab_offset c \<equiv> 2 * (unat c mod 256)"

definition fat_table :: "image \<Rightarrow> u32 \<Rightarrow> u16 \<Rightarrow> u16" where
  "fat_table img start c = le16 (img (tab_sector start c)) (tab_offset c)"

lemma unat16_lt: "unat (c :: u16) < 65536"
  using unsigned_less [of c] by simp

lemma unat16_of_nat: "k < 65536 \<Longrightarrow> unat (of_nat k :: u16) = k"
  by (simp add: unsigned_of_nat take_bit_nat_eq_self)

lemma fat_sector_of_eq: "fat_sector_of c s = fat_start_sector s + of_nat (unat c div 256)"
proof -
  have u: "unat (ucast c * 2 :: u32) = unat c * 2"
    using unat16_lt [of c] by (simp add: unat_word_ariths unsigned_ucast_eq take_bit_nat_eq_self)
  have "unat ((ucast c * 2 :: u32) div 512) = unat c div 256"
    unfolding unat_div u by simp
  then have "(ucast c * 2 :: u32) div 512 = of_nat (unat c div 256)"
    by (simp only: flip: \<open>unat ((ucast c * 2 :: u32) div 512) = unat c div 256\<close>) simp
  then show ?thesis by (simp add: fat_sector_of_def)
qed

lemma fat_offset_of_eq: "fat_offset_of c = of_nat (tab_offset c)"
proof -
  have u: "unat (ucast c * 2 :: u64) = unat c * 2"
    using unat16_lt [of c] by (simp add: unat_word_ariths unsigned_ucast_eq take_bit_nat_eq_self)
  have m: "unat ((ucast c * 2 :: u64) mod 512) = tab_offset c"
    unfolding unat_mod u using mult_mod_right [of 2 "unat c" 256] by (simp add: mult.commute)
  show ?thesis unfolding m [symmetric] fat_offset_of_def by simp
qed

lemma tab_offset_lt: "tab_offset c + 1 < 512"
  using mod_less_divisor [of 256 "unat c"] by simp

lemma fat_next_cluster_spec:
  fixes s :: "'a fat_scheme"
  assumes "fs_ready (Suc n) s bs img"
  obtains s' where "fat_next_cluster c s = Some (Inr (fat_table img (fat_start_sector s) c, s'))"
    "fs_ready (Suc n) s' bs img" "touches (idle_mem bs) s s'"
proof -
  from get_buffer [OF assms] obtain p s1 bs1 where 1: "kmalloc 512 s = Some (p, s1)" "buffer_for bs bs1 p s1"
    "fs_ready n s1 bs1 img" "touches (idle_mem bs) s s1" .
  from fill_buffer [OF 1(2,3)] obtain s2 where 2: "ata_read_sector (fat_sector_of c s) p s1 = Some s2" "fs_ready n s2 bs1 img"
    "touches (region p 512) s1 s2" "holds_sector p (img (sector (fat_sector_of c s))) s2" .
  have "room (Suc n) bs" using assms by (simp add: fs_ready_def)
  from free_buffer [OF 1(2) 2(2) this] obtain s3 where 3: "kfree p s2 = Some s3" "fs_ready (Suc n) s3 bs img"
    "touches (idle_mem bs1) s2 s3" .
  have "read16 (mem s2) (p + fat_offset_of c) = fat_table img (fat_start_sector s) c"
    unfolding fat_offset_of_eq fat_table_def read16_sector [OF 2(4) tab_offset_lt] fat_sector_of_eq ..
  then have "fat_next_cluster c s = Some (Inr (fat_table img (fat_start_sector s) c, s3))"
    using 1(1) 2(1) 3(1) by (simp add: fat_next_cluster_def kreturn_def)
  moreover have "touches (idle_mem bs) s s3"
    using 1(4) buffer_mono [OF 1(2) 2(3)] buffer_idle [OF 1(2) 3(3)] by (blast intro: touches_trans)
  ultimately show thesis using 3(2) that by blast
qed

lemma poke16_sector:
  assumes "holds_sector p f s" "i + 1 < 512"
  shows "holds_sector p (f(i := ucast v, i + 1 := ucast (drop_bit 8 v))) (poke16 (p + of_nat i) v s)"
    and "touches (region p 512) s (poke16 (p + of_nat i) v s)" and "io (poke16 (p + of_nat i) v s) = io s"
proof -
  have sub: "region (p + of_nat i) 2 \<subseteq> region p 512" by (rule region_sub) (use assms in auto)
  show "touches (region p 512) s (poke16 (p + of_nat i) v s)"
    using sub by (auto simp: touches_def poke16_def write16_def intro!: store_outside)
  show "io (poke16 (p + of_nat i) v s) = io s" by (simp add: poke16_def)
  show "holds_sector p (f(i := ucast v, i + 1 := ucast (drop_bit 8 v))) (poke16 (p + of_nat i) v s)"
    unfolding holds_sector_def
  proof (intro allI impI)
    fix j :: nat assume j: "j < 512"
    have eq: "(p + of_nat j = p + of_nat i) = (j = i)" "(p + of_nat j = p + of_nat i + 1) = (j = i + 1)"
      using of_nat_u64_inj [of j i] of_nat_u64_inj [of j "i + 1"] j assms(2) by (simp_all add: ac_simps)
    have "mem (poke16 (p + of_nat i) v s) (p + of_nat j) =
        ((mem s)(p + of_nat i := ucast v, p + of_nat i + 1 := ucast (drop_bit 8 v))) (p + of_nat j)"
      by (simp add: poke16_def write16_def numeral_2_eq_2)
    then show "mem (poke16 (p + of_nat i) v s) (p + of_nat j) = (f(i := ucast v, i + 1 := ucast (drop_bit 8 v))) j"
      using assms(1) j unfolding holds_sector_def by (simp only: fun_upd_apply eq)
  qed
qed

lemma fat_write_fat_entry_spec:
  fixes s :: "'a fat_scheme"
  assumes "fs_ready (Suc n) s bs img"
  obtains s' f where "fat_write_fat_entry c v s = Some (Inr ((), s'))"
    "fs_ready (Suc n) s' bs (img(tab_sector (fat_start_sector s) c := f))" "touches (idle_mem bs) s s'"
    "\<And>i. i < 512 \<Longrightarrow> f i = ((img (tab_sector (fat_start_sector s) c))(tab_offset c := ucast v, tab_offset c + 1 := ucast (drop_bit 8 v))) i"
proof -
  from get_buffer [OF assms] obtain p s1 bs1 where 1: "kmalloc 512 s = Some (p, s1)" "buffer_for bs bs1 p s1"
    "fs_ready n s1 bs1 img" "touches (idle_mem bs) s s1" .
  from fill_buffer [OF 1(2,3)] obtain s2 where 2: "ata_read_sector (fat_sector_of c s) p s1 = Some s2" "fs_ready n s2 bs1 img"
    "touches (region p 512) s1 s2" "holds_sector p (img (sector (fat_sector_of c s))) s2" .
  define s3 where "s3 = poke16 (p + fat_offset_of c) v s2"
  note pk = poke16_sector [OF 2(4) tab_offset_lt, where v = v and c1 = c, folded fat_offset_of_eq s3_def]
  have d2: "disk_is s2 img" using 2(2) by (simp add: fs_ready_def)
  have r3: "fs_ready n s3 bs1 img"
    by (rule change_buffer [OF 1(2) 2(2) pk(2)]) (rule disk_is_same_io [OF pk(2,3) d2])
  obtain s4 f where 4: "ata_write_sector (fat_sector_of c s) p s3 = Some s4"
    "fs_ready n s4 bs1 (img(sector (fat_sector_of c s) := f))" "touches {} s3 s4"
    "\<And>i. i < 512 \<Longrightarrow> f i = ((img (sector (fat_sector_of c s)))(tab_offset c := ucast v, tab_offset c + 1 := ucast (drop_bit 8 v))) i"
    by (rule flush_buffer [OF r3 pk(1), of "fat_sector_of c s"]) blast
  have "room (Suc n) bs" using assms by (simp add: fs_ready_def)
  from free_buffer [OF 1(2) 4(2) this] obtain s5 where 5: "kfree p s4 = Some s5"
    "fs_ready (Suc n) s5 bs (img(sector (fat_sector_of c s) := f))" "touches (idle_mem bs1) s4 s5" .
  have "fat_write_fat_entry c v s = Some (Inr ((), s5))"
    using 1(1) 2(1) 4(1) 5(1) by (simp add: fat_write_fat_entry_def s3_def [symmetric] krun_def)
  moreover have "touches (idle_mem bs) s s5"
    using 1(4) buffer_mono [OF 1(2) 2(3)] buffer_mono [OF 1(2) pk(2)] buffer_idle [OF 1(2) 5(3)] 4(3)
    by (meson empty_subsetI touches_mono touches_trans)
  ultimately show thesis using 5(2) 4(4) that unfolding fat_sector_of_eq by blast
qed

text \<open>Writing one entry of the table changes that entry and no other.\<close>

lemma sector_offset_inj:
  assumes "sector (a + of_nat i) = sector (a + of_nat j)" "i < 2 ^ 28" "j < 2 ^ 28"
  shows "i = j"
proof -
  have u: "unat (sector (a + of_nat k)) = (unat a + k) mod 2 ^ 28" if "k < 2 ^ 28" for k
    using that by (simp add: unsigned_take_bit_eq take_bit_eq_mod unat_word_ariths unsigned_of_nat mod_mod_cancel mod_simps)
  have "(int (unat a) + int i) mod 2 ^ 28 = (int (unat a) + int j) mod 2 ^ 28"
    using arg_cong [OF assms(1), of "\<lambda>x. int (unat x)"] unfolding u [OF assms(2)] u [OF assms(3)] by (simp add: of_nat_mod)
  then have "(2 ^ 28 :: int) dvd int i - int j" by (simp add: mod_eq_dvd_iff)
  then show ?thesis using assms(2,3) zdvd_imp_le [of "2 ^ 28" "int i - int j"] zdvd_imp_le [of "2 ^ 28" "int j - int i"]
    by (cases "i < j"; cases "j < i") (auto simp: dvd_diff_commute)
qed

lemma fat_table_write:
  assumes f: "\<And>i. i < 512 \<Longrightarrow> f i = ((img (tab_sector start c))(tab_offset c := ucast v, tab_offset c + 1 := ucast (drop_bit 8 v))) i"
  shows "fat_table (img(tab_sector start c := f)) start c' = (if c' = c then v else fat_table img start c')"
proof (cases "unat c' div 256 = unat c div 256")
  case False
  moreover have "unat c' div 256 < 2 ^ 28" "unat c div 256 < 2 ^ 28"
    using unat16_lt [of c] unat16_lt [of c'] by auto
  ultimately have "tab_sector start c' \<noteq> tab_sector start c" using sector_offset_inj by blast
  moreover have "c' \<noteq> c" using False by auto
  ultimately show ?thesis by (simp add: fat_table_def)
next
  case True
  have o: "tab_offset c' + 1 < 512" by (rule tab_offset_lt)
  have *: "fat_table (img(tab_sector start c := f)) start c' = le16 f (tab_offset c')" using True by (simp add: fat_table_def)
  show ?thesis
  proof (cases "c' = c")
    case True
    have "(ucast (ucast v :: u8) OR push_bit 8 (ucast (ucast (drop_bit 8 v) :: u8)) :: u16) = v"
      by (rule bit_word_eqI) (auto simp: bit_or_iff bit_push_bit_iff bit_ucast_iff bit_drop_bit_eq)
    then show ?thesis using f [of "tab_offset c"] f [of "tab_offset c + 1"] o * by (simp add: le16_def True)
  next
    case False
    then have ne: "unat c' mod 256 \<noteq> unat c mod 256" using True by (metis div_mult_mod_eq unsigned_word_eqI)
    have "x \<noteq> y \<Longrightarrow> 2 * x \<noteq> 2 * y \<and> 2 * x \<noteq> 2 * y + 1 \<and> 2 * x + 1 \<noteq> 2 * y \<and> 2 * x + 1 \<noteq> 2 * y + 1" for x y :: nat
      by presburger
    from this [OF ne] have "tab_offset c' \<noteq> tab_offset c" "tab_offset c' \<noteq> tab_offset c + 1" "tab_offset c' + 1 \<noteq> tab_offset c"
      "tab_offset c' + 1 \<noteq> tab_offset c + 1" by simp_all
    then have "le16 f (tab_offset c') = le16 (img (tab_sector start c)) (tab_offset c')"
      using f [of "tab_offset c'"] f [of "tab_offset c' + 1"] o by (simp add: le16_def)
    then show ?thesis using * False True by (simp add: fat_table_def)
  qed
qed

section \<open>Allocating a cluster\<close>

lemma find_append: "find P (xs @ ys) = (case find P xs of None \<Rightarrow> find P ys | Some x \<Rightarrow> Some x)"
  by (induction xs) auto

lemma find_map: "find P (map f xs) = map_option f (find (\<lambda>x. P (f x)) xs)"
  by (induction xs) auto

lemma find_cong_set: "(\<And>x. x \<in> set xs \<Longrightarrow> P x = Q x) \<Longrightarrow> find P xs = find Q xs"
  by (induction xs) auto

abbreviation unused :: "(u16 \<Rightarrow> u16) \<Rightarrow> nat \<Rightarrow> bool" where
  "unused tab k \<equiv> 2 \<le> k \<and> tab (of_nat k) = 0"

lemma fat_free_entry_spec:
  assumes "holds_sector p (img (sector (start + of_nat i))) s" "i < 256"
  shows "fat_free_entry p i s = map_option of_nat (find (unused (fat_table img start)) [256 * i..<256 * i + 256])"
proof -
  have k: "unat (of_nat (i * 256 + j) :: u16) = i * 256 + j" if "j < 256" for j
    by (rule unat16_of_nat) (use that assms(2) in simp)
  have "(\<not> (of_nat (i * 256 + j) :: u16) < 2 \<and> read16 (mem s) (p + of_nat (j * 2)) = 0) = unused (fat_table img start) (i * 256 + j)"
    if j: "j < 256" for j
  proof -
    have "read16 (mem s) (p + of_nat (j * 2)) = fat_table img start (of_nat (i * 256 + j))"
    proof -
      have "read16 (mem s) (p + of_nat (j * 2)) = le16 (img (sector (start + of_nat i))) (j * 2)"
        by (rule read16_sector [OF assms(1)]) (use j in simp)
      moreover have "(i * 256 + j) div 256 = i" "2 * ((i * 256 + j) mod 256) = j * 2" using j by simp_all
      ultimately show ?thesis unfolding fat_table_def k [OF j] by (simp only:)
    qed
    moreover have "(of_nat (i * 256 + j) :: u16) < 2 \<longleftrightarrow> i * 256 + j < 2" unfolding word_less_nat_alt k [OF j] by simp
    ultimately show ?thesis by auto
  qed
  then have "find (\<lambda>j. \<not> (of_nat (i * 256 + j) :: u16) < 2 \<and> read16 (mem s) (p + of_nat (j * 2)) = 0) [0..<256] =
      find (\<lambda>j. unused (fat_table img start) (i * 256 + j)) [0..<256]"
    by (intro find_cong_set) simp
  moreover have "[256 * i..<256 * i + 256] = map (\<lambda>j. i * 256 + j) [0..<256]"
    by (simp add: map_add_upt mult.commute add.commute)
  ultimately show ?thesis by (simp add: fat_free_entry_def find_map map_option.compositionality o_def)
qed

lemma fat_allocate_loop_spec:
  fixes s :: "'a fat_scheme"
  assumes buf: "buffer_for bs bs1 p (s0 :: 'a fat_scheme)" and rm: "room m bs" and start: "fat_start_sector s = start"
    and n: "n \<le> 256" and ready: "fs_ready (Suc k) s bs1 img" and i: "i \<le> n"
  shows "\<exists>s'. touches (idle_mem bs) s s' \<and>
    (case find (unused (fat_table img start)) [256 * i..<256 * n] of
       None \<Rightarrow> fat_allocate_loop p [i..<n] s = Some (Inr (0, s')) \<and> fs_ready m s' bs img
     | Some c \<Rightarrow> fat_allocate_loop p [i..<n] s = Some (Inr (of_nat c, s')) \<and>
         (\<exists>f. fs_ready m s' bs (img(tab_sector start (of_nat c) := f)) \<and>
            (\<forall>j < 512. f j = ((img (tab_sector start (of_nat c)))
               (tab_offset (of_nat c) := ucast (0xFFFF :: u16), tab_offset (of_nat c) + 1 := ucast (drop_bit 8 (0xFFFF :: u16)))) j)))"
  using start ready i
proof (induction "n - i" arbitrary: i s)
  case 0
  from free_buffer [OF buf 0(3) rm] obtain s' where "kfree p s = Some s'" "fs_ready m s' bs img" "touches (idle_mem bs1) s s'" .
  then show ?case using 0 buffer_idle [OF buf] by (intro exI [of _ s']) (auto simp: kreturn_def)
next
  case (Suc d)
  then have i: "i < n" by simp
  from fill_buffer [OF buf Suc.prems(2)] obtain s1 where 1: "ata_read_sector (start + of_nat i) p s = Some s1"
    "fs_ready (Suc k) s1 bs1 img" "touches (region p 512) s s1" "holds_sector p (img (sector (start + of_nat i))) s1" .
  have st1: "fat_start_sector s1 = start" using touches_fat_vars [OF 1(3)] Suc.prems(1) by simp
  let ?P = "unused (fat_table img start)"
  have here: "fat_free_entry p i s1 = map_option of_nat (find ?P [256 * i..<256 * i + 256])"
    by (rule fat_free_entry_spec [where img = img and start = start, OF 1(4)]) (use i n in simp)
  have "[256 * i..<256 * n] = [256 * i..<256 * i + 256] @ [256 * Suc i..<256 * n]"
    using upt_add_eq_append [of "256 * i" "256 * i + 256" "256 * n - (256 * i + 256)"] i by (simp add: add.commute)
  then have split: "find ?P [256 * i..<256 * n] = (case find ?P [256 * i..<256 * i + 256] of None \<Rightarrow> find ?P [256 * Suc i..<256 * n] | Some x \<Rightarrow> Some x)"
    by (simp only: find_append)
  have up: "[i..<n] = i # [Suc i..<n]" using i by (simp add: upt_conv_Cons)
  show ?case
  proof (cases "find ?P [256 * i..<256 * i + 256]")
    case None
    have go: "fat_allocate_loop p [i..<n] s = fat_allocate_loop p [Suc i..<n] s1"
      using 1(1) here None Suc.prems(1) by (simp add: up)
    have "d = n - Suc i" "Suc i \<le> n" using Suc.hyps(2) i by auto
    from Suc.hyps(1) [OF this(1) st1 1(2) this(2)] show ?thesis
      unfolding go split None option.case using buffer_mono [OF buf 1(3)] by (blast intro: touches_trans)
  next
    case (Some c)
    from fat_write_fat_entry_spec [OF 1(2), of "of_nat c" "0xFFFF"] obtain s2 f where
      2: "fat_write_fat_entry (of_nat c) 0xFFFF s1 = Some (Inr ((), s2))"
      "fs_ready (Suc k) s2 bs1 (img(tab_sector start (of_nat c) := f))" "touches (idle_mem bs1) s1 s2"
      "\<And>j. j < 512 \<Longrightarrow> f j = ((img (tab_sector start (of_nat c)))
          (tab_offset (of_nat c) := ucast (0xFFFF :: u16), tab_offset (of_nat c) + 1 := ucast (drop_bit 8 (0xFFFF :: u16)))) j"
      unfolding st1 by metis
    from free_buffer [OF buf 2(2) rm] obtain s3 where 3: "kfree p s2 = Some s3"
      "fs_ready m s3 bs (img(tab_sector start (of_nat c) := f))" "touches (idle_mem bs1) s2 s3" .
    have "fat_allocate_loop p [i..<n] s = Some (Inr (of_nat c, s3))"
      using 1(1) here Some Suc.prems(1) 2(1) 3(1) by (simp add: up kreturn_def)
    moreover have "touches (idle_mem bs) s s3"
      using buffer_mono [OF buf 1(3)] buffer_idle [OF buf 2(3)] buffer_idle [OF buf 3(3)] by (blast intro: touches_trans)
    ultimately show ?thesis using 3(2) 2(4) unfolding split Some option.case by blast
  qed
qed

section \<open>Freeing a chain\<close>

text \<open>The clusters of a chain that starts at \<open>c\<close> and ends with an end marker.\<close>

fun fat_chain :: "(u16 \<Rightarrow> u16) \<Rightarrow> u16 \<Rightarrow> u16 list \<Rightarrow> bool" where
  "fat_chain tab c [] \<longleftrightarrow> c \<ge> 0xFFF8"
| "fat_chain tab c (x # xs) \<longleftrightarrow> c = x \<and> c < 0xFFF8 \<and> fat_chain tab (tab c) xs"

lemma fat_chain_unique: "fat_chain tab c xs \<Longrightarrow> fat_chain tab c ys \<Longrightarrow> xs = ys"
proof (induction xs arbitrary: c ys)
  case Nil
  then show ?case by (cases ys) auto
next
  case (Cons x xs)
  then show ?case by (cases ys) auto
qed

lemma fat_chain_suffix: "fat_chain tab c (xs @ y # ys) \<Longrightarrow> fat_chain tab y (y # ys)"
  by (induction xs arbitrary: c) auto

lemma fat_chain_distinct: "fat_chain tab c xs \<Longrightarrow> distinct xs"
proof (induction xs arbitrary: c)
  case (Cons x xs)
  have "x \<notin> set xs"
  proof
    assume "x \<in> set xs"
    then obtain us vs where xs: "xs = us @ x # vs" by (meson split_list)
    with Cons.prems have "fat_chain tab (tab c) (us @ x # vs)" by (metis fat_chain.simps(2))
    then have "fat_chain tab x (x # vs)" by (rule fat_chain_suffix)
    moreover have "fat_chain tab x (x # xs)" using Cons.prems by (metis fat_chain.simps(2))
    ultimately have "x # xs = x # vs" using fat_chain_unique by metis
    with xs show False by simp
  qed
  with Cons show ?case by auto
qed simp

lemma fat_chain_cong: "(\<And>x. x \<in> set xs \<Longrightarrow> tab' x = tab x) \<Longrightarrow> fat_chain tab c xs \<Longrightarrow> fat_chain tab' c xs"
  by (induction xs arbitrary: c) auto

text \<open>One turn of the loop.\<close>

lemma fat_free_step:
  fixes s :: "'a fat_scheme"
  assumes "fs_ready (Suc n) s bs img" "c < 0xFFF8"
  obtains s' img' where "fat_free_loop c s = fat_free_loop (fat_table img (fat_start_sector s) c) s'"
    "fs_ready (Suc n) s' bs img'" "touches (idle_mem bs) s s'" "fat_start_sector s' = fat_start_sector s"
    "\<And>x. fat_table img' (fat_start_sector s) x = (if x = c then 0 else fat_table img (fat_start_sector s) x)"
    "\<And>x. x \<noteq> tab_sector (fat_start_sector s) c \<Longrightarrow> img' x = img x"
proof -
  from fat_next_cluster_spec [OF assms(1), of c] obtain s1 where 1: "fat_next_cluster c s = Some (Inr (fat_table img (fat_start_sector s) c, s1))"
    "fs_ready (Suc n) s1 bs img" "touches (idle_mem bs) s s1" .
  have st: "fat_start_sector s1 = fat_start_sector s" using touches_fat_vars [OF 1(3)] by simp
  from fat_write_fat_entry_spec [OF 1(2), of c 0] obtain s2 f where 2: "fat_write_fat_entry c 0 s1 = Some (Inr ((), s2))"
    "fs_ready (Suc n) s2 bs (img(tab_sector (fat_start_sector s) c := f))" "touches (idle_mem bs) s1 s2"
    "\<And>i. i < 512 \<Longrightarrow> f i = ((img (tab_sector (fat_start_sector s) c))(tab_offset c := ucast (0 :: u16), tab_offset c + 1 := ucast (drop_bit 8 (0 :: u16)))) i"
    unfolding st by metis
  have "fat_free_loop c s = fat_free_loop (fat_table img (fat_start_sector s) c) s2"
    using 1(1) 2(1) assms(2) by (subst fat_free_loop.simps) simp
  moreover have "touches (idle_mem bs) s s2" using 1(3) 2(3) by (rule touches_trans)
  moreover from touches_fat_vars(2) [OF this] have "fat_start_sector s2 = fat_start_sector s" .
  ultimately show thesis
    using 2(2) fat_table_write [where start = "fat_start_sector s" and img = img and c = c and v = 0, OF 2(4)]
    by (intro that [of s2 "img(tab_sector (fat_start_sector s) c := f)"]) (auto split: if_splits)
qed

lemma fat_free_loop_chain:
  fixes s :: "'a fat_scheme"
  assumes "fs_ready (Suc n) s bs img" "fat_chain (fat_table img (fat_start_sector s)) c cs"
  shows "\<exists>s' img'. fat_free_loop c s = Some (Inr ((), s')) \<and> fs_ready (Suc n) s' bs img' \<and> touches (idle_mem bs) s s' \<and>
    (\<forall>x. fat_table img' (fat_start_sector s) x = (if x \<in> set cs then 0 else fat_table img (fat_start_sector s) x)) \<and>
    (\<forall>x. x \<notin> tab_sector (fat_start_sector s) ` set cs \<longrightarrow> img' x = img x)"
  using assms
proof (induction cs arbitrary: c s img)
  case Nil
  then have "fat_free_loop c s = Some (Inr ((), s))"
    by (subst fat_free_loop.simps) (auto simp: kreturn_def word_less_nat_alt word_le_nat_alt)
  then show ?case using Nil by (intro exI [of _ s] exI [of _ img]) auto
next
  case (Cons x cs)
  let ?st = "fat_start_sector s" and ?tab = "fat_table img (fat_start_sector s)"
  have c: "c = x" "c < 0xFFF8" and rest: "fat_chain ?tab (?tab c) cs" and nin: "x \<notin> set cs"
    using Cons.prems(2) fat_chain_distinct [OF Cons.prems(2)] by auto
  from fat_free_step [OF Cons.prems(1) c(2)] obtain s1 img1 where 1: "fat_free_loop c s = fat_free_loop (?tab c) s1"
    "fs_ready (Suc n) s1 bs img1" "touches (idle_mem bs) s s1" "fat_start_sector s1 = ?st"
    "\<And>y. fat_table img1 ?st y = (if y = c then 0 else ?tab y)" "\<And>y. y \<noteq> tab_sector ?st c \<Longrightarrow> img1 y = img y" by metis
  have "fat_chain (fat_table img1 ?st) (?tab c) cs"
    by (rule fat_chain_cong [OF _ rest]) (use nin c 1(5) in auto)
  from Cons.IH [OF 1(2) this [folded 1(4)]] obtain s' img' where
    2: "fat_free_loop (?tab c) s1 = Some (Inr ((), s'))" "fs_ready (Suc n) s' bs img'" "touches (idle_mem bs) s1 s'"
    "\<forall>y. fat_table img' ?st y = (if y \<in> set cs then 0 else fat_table img1 ?st y)"
    "\<forall>y. y \<notin> tab_sector ?st ` set cs \<longrightarrow> img' y = img1 y" unfolding 1(4) by blast
  have "fat_table img' ?st y = (if y \<in> set (x # cs) then 0 else ?tab y)" for y using 2(4) 1(5) c by simp
  moreover have "img' y = img y" if "y \<notin> tab_sector ?st ` set (x # cs)" for y using that 2(5) 1(6) c by simp
  ultimately show ?case using 1(1) 2(1,2) touches_trans [OF 1(3) 2(3)] by (intro exI [of _ s'] exI [of _ img']) simp
qed

section \<open>Properties\<close>

text \<open>
  C26: On a mounted volume an entry of the allocation table that is written is read back as the new
  value, and every other cluster keeps its entry, whatever sectors they share; both calls return,
  and the heap is as before.
\<close>

theorem fat_entry_roundtrip:
  fixes s :: "'a fat_scheme"
  assumes "fs_ready 1 s bs img"
  shows "\<exists>s1 s2 img'. fat_write_fat_entry c v s = Some (Inr ((), s1)) \<and>
    fat_next_cluster c' s1 = Some (Inr (if c' = c then v else fat_table img (fat_start_sector s) c', s2)) \<and>
    fs_ready 1 s2 bs img' \<and> (\<forall>x. x \<noteq> tab_sector (fat_start_sector s) c \<longrightarrow> img' x = img x)"
proof -
  have r: "fs_ready (Suc 0) s bs img" using assms by simp
  from fat_write_fat_entry_spec [OF r, of c v] obtain s1 f where 1: "fat_write_fat_entry c v s = Some (Inr ((), s1))"
    "fs_ready (Suc 0) s1 bs (img(tab_sector (fat_start_sector s) c := f))" "touches (idle_mem bs) s s1"
    "\<And>i. i < 512 \<Longrightarrow> f i = ((img (tab_sector (fat_start_sector s) c))(tab_offset c := ucast v, tab_offset c + 1 := ucast (drop_bit 8 v))) i"
    by metis
  have st: "fat_start_sector s1 = fat_start_sector s" using touches_fat_vars [OF 1(3)] by simp
  from fat_next_cluster_spec [OF 1(2), of c', unfolded st] obtain s2 where
    "fat_next_cluster c' s1 = Some (Inr (fat_table (img(tab_sector (fat_start_sector s) c := f)) (fat_start_sector s) c', s2))"
    "fs_ready (Suc 0) s2 bs (img(tab_sector (fat_start_sector s) c := f))" by metis
  then show ?thesis
    using 1(1) fat_table_write [where start = "fat_start_sector s" and img = img and c = c and v = v, OF 1(4)]
    by (intro exI [of _ s1] exI [of _ s2] exI [of _ "img(tab_sector (fat_start_sector s) c := f)"]) simp
qed

text \<open>
  C27: \<^verbatim>\<open>fat_allocate_cluster\<close> returns the lowest free cluster of the table from 2 on and marks exactly
  this one as the end of a chain; it returns 0 and changes nothing when no cluster is free. The
  table may have up to 256 sectors, all that sixteen bits can number.
\<close>

theorem fat_allocate_first_free:
  fixes s :: "'a fat_scheme"
  assumes "fs_ready 2 s bs img" and "unat (fat_size_16 (fat_info s)) \<le> 256"
  shows "let tab = fat_table img (fat_start_sector s); n = 256 * unat (fat_size_16 (fat_info s)) in
    \<exists>c s' img'. fat_allocate_cluster s = Some (Inr (c, s')) \<and> fs_ready 2 s' bs img' \<and>
      (if \<exists>k < n. 2 \<le> k \<and> tab (of_nat k) = 0
       then 2 \<le> unat c \<and> unat c < n \<and> tab c = 0 \<and> (\<forall>k. 2 \<le> k \<longrightarrow> k < unat c \<longrightarrow> tab (of_nat k) \<noteq> 0) \<and>
            fat_table img' (fat_start_sector s) = tab(c := 0xFFFF)
       else c = 0 \<and> img' = img)"
proof -
  let ?st = "fat_start_sector s" and ?n = "unat (fat_size_16 (fat_info s))"
  let ?P = "unused (fat_table img ?st)"
  have r: "fs_ready (Suc (Suc 0)) s bs img" "room 2 bs" using assms(1) by (simp_all add: fs_ready_def numeral_2_eq_2)
  from get_buffer [OF r(1)] obtain p s1 bs1 where 1: "kmalloc 512 s = Some (p, s1)" "buffer_for bs bs1 p s1"
    "fs_ready (Suc 0) s1 bs1 img" "touches (idle_mem bs) s s1" .
  have v: "fat_start_sector s1 = ?st" "fat_info s1 = fat_info s" using touches_fat_vars [OF 1(4)] by simp_all
  have run: "fat_allocate_cluster s = fat_allocate_loop p [0..<?n] s1"
    using 1(1) by (simp add: fat_allocate_cluster_def v)
  note loop = fat_allocate_loop_spec [OF 1(2) r(2) v(1) assms(2) 1(3), of 0]
  show ?thesis
  proof (cases "find ?P [0..<256 * ?n]")
    case None
    then have "\<not> (\<exists>k < 256 * ?n. ?P k)" by (auto simp: find_None_iff)
    moreover obtain s' where "fat_allocate_cluster s = Some (Inr (0, s'))" "fs_ready 2 s' bs img"
      using loop None by (auto simp: run)
    ultimately show ?thesis by (auto simp: Let_def)
  next
    case (Some k)
    then obtain j where "j < 256 * ?n" "?P j" "k = j" "\<forall>i < j. \<not> ?P i" by (auto simp: find_Some_iff)
    then have k: "k < 256 * ?n" "?P k" "\<forall>i < k. \<not> ?P i" by auto
    then have u: "unat (of_nat k :: u16) = k" by (intro unat16_of_nat) (use assms(2) in auto)
    obtain s' f where s': "fat_allocate_cluster s = Some (Inr (of_nat k, s'))" "fs_ready 2 s' bs (img(tab_sector ?st (of_nat k) := f))"
      "\<And>j. j < 512 \<Longrightarrow> f j = ((img (tab_sector ?st (of_nat k)))
          (tab_offset (of_nat k) := ucast (0xFFFF :: u16), tab_offset (of_nat k) + 1 := ucast (drop_bit 8 (0xFFFF :: u16)))) j"
      using loop Some unfolding run by auto
    have tab: "fat_table (img(tab_sector ?st (of_nat k) := f)) ?st = (fat_table img ?st)(of_nat k := 0xFFFF)"
      using fat_table_write [where start = ?st and img = img and c = "of_nat k" and v = "0xFFFF", OF s'(3)] by auto
    have ex: "\<exists>k < 256 * ?n. ?P k" using k by blast
    show ?thesis
      unfolding Let_def using s'(1,2) k u tab ex
      by (intro exI [of _ "of_nat k"] exI [of _ s'] exI [of _ "img(tab_sector ?st (of_nat k) := f)"]) auto
  qed
qed

text \<open>
  C28: \<^verbatim>\<open>fat_free_cluster_chain\<close> on a chain that ends with an end marker returns, frees exactly the
  clusters of the chain, and changes no sector outside the table.
\<close>

theorem fat_free_cluster_chain_frees:
  fixes s :: "'a fat_scheme"
  assumes "fs_ready 1 s bs img" and "fat_chain (fat_table img (fat_start_sector s)) c cs" and "2 \<le> c"
  shows "\<exists>s' img'. fat_free_cluster_chain c s = Some (Inr ((), s')) \<and> fs_ready 1 s' bs img' \<and>
    (\<forall>x. fat_table img' (fat_start_sector s) x = (if x \<in> set cs then 0 else fat_table img (fat_start_sector s) x)) \<and>
    (\<forall>x. x \<notin> tab_sector (fat_start_sector s) ` set cs \<longrightarrow> img' x = img x)"
proof -
  have "fs_ready (Suc 0) s bs img" "\<not> c < 2" using assms(1,3) by auto
  from fat_free_loop_chain [OF this(1) assms(2)] this(2) show ?thesis
    by (simp only: fat_free_cluster_chain_def if_False One_nat_def) blast
qed

text \<open>
  When a chain runs into a cluster that is marked free, \<^verbatim>\<open>fat_free_cluster_chain\<close> takes the value 0 for
  the next cluster and clears entry 0 of the table, the media descriptor, as well.
\<close>

lemma fat_free_chain_clears_descriptor:
  fixes s :: "'a fat_scheme"
  assumes "fs_ready 1 s bs img" and "2 \<le> c" "c < 0xFFF8"
    and "fat_table img (fat_start_sector s) c = 0" "0xFFF8 \<le> fat_table img (fat_start_sector s) 0"
  shows "\<exists>s' img'. fat_free_cluster_chain c s = Some (Inr ((), s')) \<and> fs_ready 1 s' bs img' \<and>
    fat_table img' (fat_start_sector s) = (fat_table img (fat_start_sector s))(0 := 0)"
proof -
  have r: "fs_ready (Suc 0) s bs img" "\<not> c < 2" using assms(1,2) by auto
  have "(0 :: u16) < 0xFFF8" by simp
  then have "fat_chain (fat_table img (fat_start_sector s)) c [c, 0]" using assms by simp
  from fat_free_loop_chain [OF r(1) this] r(2) assms(4) show ?thesis by (fastforce simp: fat_free_cluster_chain_def)
qed

section \<open>Witnesses\<close>

text \<open>
  A volume with one table sector, one directory sector and one sector per cluster. The table has the
  two reserved entries, the chain 2, 3, and free clusters from 4 on; the directory is empty.
\<close>

definition demo_bpb :: fat_bpb_t where
  "demo_bpb = \<lparr>jump_boot = [0, 0, 0], oem_name = replicate 8 32, bytes_per_sector = 512, sectors_per_cluster = 1,
     reserved_sectors = 1, fat_count = 1, root_dir_entries = 16, total_sectors_16 = 100, media_type = 0xF8, fat_size_16 = 1,
     sectors_per_track = 0, head_count = 0, hidden_sectors = 0, total_sectors_32 = 0, drive_number = 0, bpb_reserved = 0,
     boot_signature = 0, volume_id = 0, volume_label = replicate 11 32, fs_type = replicate 8 32\<rparr>"

definition demo_image :: image where
  "demo_image lba i =
     (if lba = 1 then (if i < 8 then [0xF8, 0xFF, 0xFF, 0xFF, 3, 0, 0xFF, 0xFF] ! i else 0) else 0)"

definition demo_drive :: drive where
  "demo_drive = \<lparr>image = demo_image, lba_low = 0, lba_mid = 0, lba_high = 0, drive_head = 0, phase = Idle, busy = 0\<rparr>"

definition fat_machine :: fat where
  "fat_machine =
     (process.extend (proc_machine [PROCESS_RUNNING]) (fat.fields demo_bpb 1 2 3 0 (0x2f # replicate 255 0) True))
       \<lparr>mem := mem small_heap, io := [], bitmap := bitmap small_heap, total_blocks := total_blocks small_heap,
        head := head small_heap,
        dev8 := (\<lambda>h p. if p = ATA_STATUS then drive_status (drive_after 4 demo_drive h) else 0),
        dev16 := (\<lambda>h p. if p = ATA_DATA then drive_word (drive_after 4 demo_drive h) else 0)\<rparr>"

lemma fat_machine_fields:
  "mem fat_machine = mem small_heap" "bitmap fat_machine = bitmap small_heap" "total_blocks fat_machine = total_blocks small_heap"
  "head fat_machine = head small_heap" "fat_info fat_machine = demo_bpb" "fat_start_sector fat_machine = 1"
  "root_dir_sector fat_machine = 2" "data_start_sector fat_machine = 3" "current_dir_cluster fat_machine = 0"
  "is_fat_initialized fat_machine" "current_path fat_machine = 0x2f # replicate 255 0"
  by (simp_all add: fat_machine_def process.extend_def fat.fields_def)

lemma heap_inv_cong:
  assumes "mem s' = mem s" "bitmap s' = bitmap s" "total_blocks s' = total_blocks s" "head s' = head s" "heap_inv s bs"
  shows "heap_inv s' bs"
proof -
  have "heap_path s' a bs c = heap_path s a bs c" for a c bs
    by (induction bs arbitrary: a) (simp_all add: hdr_size_def hdr_free_def hdr_next_def assms(1))
  moreover have "pmm_wf s' = pmm_wf s" "free_blocks s' = free_blocks s"
    by (simp_all add: pmm_wf_def free_blocks_def block_used_def assms)
  ultimately show ?thesis using assms(4,5) by (simp add: heap_inv_def)
qed

lemma fat_machine_ready: "fs_ready 3 fat_machine [HBlock 0x2000000 4072 True] demo_image"
proof -
  have "heap_inv fat_machine [HBlock 0x2000000 4072 True]"
    by (rule heap_inv_cong [OF fat_machine_fields(1-4) small_heap_inv(1)])
  moreover have "room 3 [HBlock 0x2000000 4072 True]" by (simp add: numeral_3_eq_3 take_block_def)
  moreover have "drive_attached 4 demo_drive fat_machine"
    by (simp add: drive_attached_def fat_machine_def)
  then have "disk_is fat_machine demo_image"
    unfolding disk_is_def by (intro exI [of _ 4] exI [of _ demo_drive]) (simp add: demo_drive_def)
  ultimately show ?thesis by (simp add: fs_ready_def)
qed

lemma demo_table:
  "fat_table demo_image 1 0 = 0xFFF8" "fat_table demo_image 1 2 = 3" "fat_table demo_image 1 3 = 0xFFFF" "fat_table demo_image 1 4 = 0"
  by (simp_all add: fat_table_def le16_def demo_image_def)

theorem fat_entry_roundtrip_witness:
  "\<exists>s1 s2. fat_write_fat_entry 5 0xFFFF fat_machine = Some (Inr ((), s1)) \<and> fat_next_cluster 2 s1 = Some (Inr (3, s2))"
  using fat_entry_roundtrip [OF fs_ready_mono [OF fat_machine_ready], of 5 "0xFFFF" 2] by (auto simp: fat_machine_fields demo_table)

theorem fat_allocate_first_free_witness:
  "\<exists>s'. fat_allocate_cluster fat_machine = Some (Inr (4, s'))"
proof -
  have "unat (fat_size_16 (fat_info fat_machine)) = 1" by (simp add: fat_machine_fields demo_bpb_def)
  moreover have "\<exists>k < 256. 2 \<le> k \<and> fat_table demo_image 1 (of_nat k) = 0"
    by (rule exI [of _ 4]) (simp add: demo_table)
  ultimately obtain c s' where c: "fat_allocate_cluster fat_machine = Some (Inr (c, s'))" "2 \<le> unat c" "fat_table demo_image 1 c = 0"
    "\<forall>k. 2 \<le> k \<longrightarrow> k < unat c \<longrightarrow> fat_table demo_image 1 (of_nat k) \<noteq> 0"
    using fat_allocate_first_free [OF fs_ready_mono [OF fat_machine_ready]] by (auto simp: Let_def fat_machine_fields)
  have "\<not> 4 < unat c" using c(4) [rule_format, of 4] demo_table(4) by auto
  moreover have "c \<noteq> 2" "c \<noteq> 3" using c(3) demo_table(2,3) by auto
  ultimately have "c = 4" using c(2) by (simp add: word_unat_eq_iff)
  with c(1) show ?thesis by blast
qed

theorem fat_free_cluster_chain_frees_witness:
  "\<exists>s' img'. fat_free_cluster_chain 2 fat_machine = Some (Inr ((), s')) \<and> fs_ready 1 s' [HBlock 0x2000000 4072 True] img' \<and>
     fat_table img' 1 3 = 0 \<and> fat_table img' 1 0 = 0xFFF8"
proof -
  have "fat_chain (fat_table demo_image (fat_start_sector fat_machine)) 2 [2, 3]"
    by (simp add: fat_machine_fields demo_table)
  from fat_free_cluster_chain_frees [OF fs_ready_mono [OF fat_machine_ready] this] obtain s' img' where
    "fat_free_cluster_chain 2 fat_machine = Some (Inr ((), s'))" "fs_ready 1 s' [HBlock 0x2000000 4072 True] img'"
    "\<forall>x. fat_table img' 1 x = (if x \<in> set [2, 3] then 0 else fat_table demo_image 1 x)"
    unfolding fat_machine_fields by auto
  then show ?thesis by (intro exI [of _ s'] exI [of _ img']) (simp add: demo_table)
qed

lemma fat_free_chain_clears_descriptor_witness:
  "\<exists>s' img'. fat_free_cluster_chain 4 fat_machine = Some (Inr ((), s')) \<and> fs_ready 1 s' [HBlock 0x2000000 4072 True] img' \<and>
     fat_table img' 1 0 = 0"
proof -
  obtain s' img' where "fat_free_cluster_chain 4 fat_machine = Some (Inr ((), s'))" "fs_ready 1 s' [HBlock 0x2000000 4072 True] img'"
    "fat_table img' 1 = (fat_table demo_image 1)(0 := 0)"
    using fat_free_chain_clears_descriptor [OF fs_ready_mono [OF fat_machine_ready, of 1], of 4]
    unfolding fat_machine_fields by (auto simp: demo_table)
  then show ?thesis by (intro exI [of _ s'] exI [of _ img']) simp
qed

end
