(* ===== verification/Fat_Directory.thy ===== *)
theory Fat_Directory
  imports Fat_Table
begin

text \<open>
  File names and directories: the comparison of a stored 8.3 name with a string, the conversion of a
  string to that form, and what creating an entry and searching for it do to a directory.
\<close>

section \<open>Comparing names\<close>

text \<open>The text of a stored name: the name up to the first blank, and the extension when there is one.\<close>

definition stored_text :: "u8 list \<Rightarrow> u8 list \<Rightarrow> u8 list" where
  "stored_text name ext =
     takeWhile (\<lambda>c. c \<noteq> 32) name @ (if hd ext \<noteq> 32 then 0x2e # takeWhile (\<lambda>c. c \<noteq> 32) ext else [])"

text \<open>The array \<^verbatim>\<open>temp\<close> after some bytes were appended to it.\<close>

definition temp_with :: "u8 list \<Rightarrow> u8 list" where
  "temp_with xs = xs @ replicate (12 - length xs) 0"

lemma put_temp: "length xs < 12 \<Longrightarrow> put (length xs) c (temp_with xs) = Inr (temp_with (xs @ [c]))"
  by (cases "12 - length xs") (simp_all add: put_def temp_with_def Suc_diff_Suc)

lemma put_temp_full: "length xs = 12 \<Longrightarrow> put (length xs) c (temp_with xs) = Inl WriteOutOfBounds"
  by (simp add: put_def temp_with_def)

lemma copy_to_blank_spec:
  "length xs + length (takeWhile (\<lambda>c. c \<noteq> 32) cs) \<le> 12 \<Longrightarrow> copy_to_blank cs (temp_with xs) (length xs) =
     Inr (temp_with (xs @ takeWhile (\<lambda>c. c \<noteq> 32) cs), length (xs @ takeWhile (\<lambda>c. c \<noteq> 32) cs))"
proof (induction cs arbitrary: xs)
  case (Cons c cs)
  then show ?case using Cons.IH [of "xs @ [c]"] put_temp [of xs c] by (cases "c = 32") simp_all
qed simp

lemma match_loop_spec:
  assumes "terminated temp" "terminated input"
  shows "match_loop temp input = Inr (map upcase (text_of temp) = map upcase (text_of input))"
  using assms
proof (induction temp input rule: match_loop.induct)
  case (1 c1 temp c2 input)
  then show ?case by (auto simp: terminated_def text_of_def)
qed (auto simp: terminated_def)

lemma terminated_app0: "terminated (xs @ 0 # ys)"
  by (simp add: terminated_def)

lemma text_of_app0: "text_of (xs @ 0 # ys) = text_of (xs @ [0])"
  by (induction xs) (auto simp: text_of_def)

lemma stored_text_le: "length name = 8 \<Longrightarrow> length ext = 3 \<Longrightarrow> length (stored_text name ext) \<le> 12"
  using length_takeWhile_le [of "\<lambda>c. c \<noteq> 32" name] length_takeWhile_le [of "\<lambda>c. c \<noteq> 32" ext]
  by (simp add: stored_text_def)

lemma filename_match_eq:
  assumes "length name = 8" "length ext = 3" "terminated input"
  shows "fat_filename_match name ext input =
    (if length (stored_text name ext) = 12 then Inl WriteOutOfBounds
     else Inr (map upcase (text_of (stored_text name ext @ [0])) = map upcase (text_of input)))"
proof -
  let ?n = "takeWhile (\<lambda>c. c \<noteq> 32) name" and ?e = "takeWhile (\<lambda>c. c \<noteq> 32) ext" and ?t = "stored_text name ext"
  have len: "length ?n \<le> 8" "length ?e \<le> 3"
    using length_takeWhile_le [of "\<lambda>c. c \<noteq> 32" name] length_takeWhile_le [of "\<lambda>c. c \<noteq> 32" ext] assms by simp_all
  have 1: "copy_to_blank (take 8 name) (replicate 12 0) 0 = Inr (temp_with ?n, length ?n)"
    using copy_to_blank_spec [of "[]" name] assms(1) len by (simp add: temp_with_def)
  have 2: "(if hd ext \<noteq> 32 then sum_bind (put (length ?n) 0x2e (temp_with ?n)) (\<lambda>temp. copy_to_blank (take 3 ext) temp (length ?n + 1))
        else Inr (temp_with ?n, length ?n)) = Inr (temp_with ?t, length ?t)"
    using put_temp [of ?n "0x2e"] copy_to_blank_spec [of "?n @ [0x2e]" ext] len assms(2) by (simp add: stored_text_def)
  have 3: "fat_filename_match name ext input = sum_bind (put (length ?t) 0 (temp_with ?t)) (\<lambda>temp. match_loop temp input)"
    using 1 2 by (simp add: fat_filename_match_def)
  show ?thesis
  proof (cases "length ?t = 12")
    case True
    then show ?thesis using put_temp_full [OF True] 3 by simp
  next
    case False
    then have "length ?t < 12" using stored_text_le [OF assms(1,2)] by simp
    then have "fat_filename_match name ext input = match_loop (temp_with (?t @ [0])) input" using 3 put_temp by simp
    also have "\<dots> = Inr (map upcase (text_of (temp_with (?t @ [0]))) = map upcase (text_of input))"
      by (rule match_loop_spec [OF _ assms(3)]) (simp add: temp_with_def terminated_app0)
    also have "text_of (temp_with (?t @ [0])) = text_of (?t @ [0])"
      using text_of_app0 [of ?t "replicate (11 - length ?t) 0"] by (simp add: temp_with_def)
    finally show ?thesis using False by simp
  qed
qed

section \<open>Making a stored name\<close>

text \<open>
  The strings that have an 8.3 form: a name of one to eight characters, and after a dot up to three more;
  no blanks, and the first character is not the mark of a deleted entry.
\<close>

definition valid_name :: "u8 list \<Rightarrow> u8 list \<Rightarrow> bool" where
  "valid_name base ext \<longleftrightarrow> base \<noteq> [] \<and> length base \<le> 8 \<and> length ext \<le> 3 \<and>
     0 \<notin> set base \<and> 32 \<notin> set base \<and> 0x2e \<notin> set base \<and> 0 \<notin> set ext \<and> 32 \<notin> set ext \<and> hd base \<noteq> 0xE5 \<and>
     \<not> (length base = 8 \<and> length ext = 3)"

definition name_string :: "u8 list \<Rightarrow> u8 list \<Rightarrow> u8 list" where
  "name_string base ext = base @ (if ext = [] then [] else 0x2e # ext) @ [0]"

definition pad :: "nat \<Rightarrow> u8 list \<Rightarrow> u8 list" where
  "pad n xs = map upcase xs @ replicate (n - length xs) 32"

lemma upcase_idem [simp]: "upcase (upcase c) = upcase c"
proof (cases "0x61 \<le> c \<and> c \<le> 0x7a")
  case True
  then have "unat (c - 32) = unat c - 32" by (intro unat_diff_le [of 32 c, simplified]) (auto simp: word_le_nat_alt)
  then show ?thesis using True by (auto simp: upcase_def word_le_nat_alt)
qed (auto simp: upcase_def)

lemma upcase_keeps: "upcase c = 0 \<longleftrightarrow> c = 0" "upcase c = 32 \<longleftrightarrow> c = 32" "upcase c = 0x2e \<longleftrightarrow> c = 0x2e" "upcase c = 0xE5 \<longleftrightarrow> c = 0xE5"
proof -
  have *: "upcase c = v \<longleftrightarrow> c = v" if v: "unat v < 0x41 \<or> 0x7a < unat v" for v
  proof (cases "0x61 \<le> c \<and> c \<le> 0x7a")
    case True
    then have u: "unat (c - 32) = unat c - 32" "0x61 \<le> unat c" "unat c \<le> 0x7a"
      by (auto intro!: unat_diff_le [of 32 c, simplified] simp: word_le_nat_alt)
    then have "c - 32 \<noteq> v" "c \<noteq> v" using v by auto
    then show ?thesis using True by (simp add: upcase_def)
  qed (auto simp: upcase_def)
  show "upcase c = 0 \<longleftrightarrow> c = 0" "upcase c = 32 \<longleftrightarrow> c = 32" "upcase c = 0x2e \<longleftrightarrow> c = 0x2e" "upcase c = 0xE5 \<longleftrightarrow> c = 0xE5"
    by (rule *, simp)+
qed

lemma pad_snoc: "length xs < n \<Longrightarrow> (pad n xs)[length xs := upcase c] = pad n (xs @ [c])"
  by (cases "n - length xs") (simp_all add: pad_def list_update_append Suc_diff_Suc)

lemma length_pad: "length xs \<le> n \<Longrightarrow> length (pad n xs) = n"
  by (simp add: pad_def)

lemma name_part_spec:
  assumes "0 \<notin> set xs" "0x2e \<notin> set xs" "length (pre @ xs) \<le> 8" "c = 0 \<or> c = 0x2e"
  shows "name_part (length pre) (pad 8 pre) (xs @ c # rest) = Inr (pad 8 (pre @ xs), c # rest)"
  using assms
proof (induction xs arbitrary: pre)
  case (Cons x xs)
  then show ?case using Cons.IH [of "pre @ [x]"] pad_snoc [of pre 8 x] by auto
qed auto

lemma ext_part_spec:
  assumes "0 \<notin> set xs" "length (pre @ xs) \<le> 3"
  shows "ext_part (length pre) (pad 3 pre) (xs @ [0]) = Inr (pad 3 (pre @ xs))"
  using assms
proof (induction xs arbitrary: pre)
  case (Cons x xs)
  then show ?case using Cons.IH [of "pre @ [x]"] pad_snoc [of pre 3 x] by auto
qed auto

lemma to_83_spec:
  assumes "valid_name base ext"
  shows "to_83 (name_string base ext) = Inr (pad 8 base, pad 3 ext)"
proof -
  have v: "0 \<notin> set base" "0x2e \<notin> set base" "length base \<le> 8" "0 \<notin> set ext" "length ext \<le> 3" using assms by (auto simp: valid_name_def)
  have b: "replicate 8 32 = pad 8 []" "replicate 3 32 = pad 3 []" by (simp_all add: pad_def)
  show ?thesis
  proof (cases "ext = []")
    case True
    then show ?thesis using name_part_spec [of base "[]" 0 "[]"] v by (simp add: to_83_def name_string_def b)
  next
    case False
    then show ?thesis using name_part_spec [of base "[]" "0x2e" "ext @ [0]"] ext_part_spec [of ext "[]"] v
      by (simp add: to_83_def name_string_def b)
  qed
qed

lemma takeWhile_pad: "32 \<notin> set xs \<Longrightarrow> takeWhile (\<lambda>c. c \<noteq> 32) (pad n xs) = map upcase xs"
proof -
  assume "32 \<notin> set xs"
  then have "\<forall>c \<in> set (map upcase xs). c \<noteq> 32" using upcase_keeps(2) by (metis imageE set_map)
  then show ?thesis unfolding pad_def
    by (subst takeWhile_append2) (auto simp: takeWhile_eq_Nil_iff)
qed

text \<open>A name in its stored form matches the string it was made from.\<close>

lemma stored_name_matches:
  assumes "valid_name base ext"
  shows "fat_filename_match (pad 8 base) (pad 3 ext) (name_string base ext) = Inr True"
proof -
  have v: "0 \<notin> set base" "32 \<notin> set base" "length base \<le> 8" "0 \<notin> set ext" "32 \<notin> set ext" "length ext \<le> 3"
    "\<not> (length base = 8 \<and> length ext = 3)"
    using assms by (auto simp: valid_name_def)
  have e: "hd (pad 3 ext) \<noteq> 32 \<longleftrightarrow> ext \<noteq> []"
    using v(5) upcase_keeps(2) by (cases ext) (auto simp: pad_def)
  have st: "stored_text (pad 8 base) (pad 3 ext) = map upcase (base @ (if ext = [] then [] else 0x2e # ext))"
    using v takeWhile_pad [of base 8] takeWhile_pad [of ext 3] upcase_keeps(3) [of "0x2e"] by (simp add: stored_text_def e)
  have nz: "text_of (xs @ [0]) = xs" if "0 \<notin> set xs" for xs :: "u8 list"
    using that by (induction xs) (auto simp: text_of_def)
  let ?x = "base @ (if ext = [] then [] else 0x2e # ext)"
  have x: "0 \<notin> set ?x" using v by simp
  have "0 \<notin> set (map upcase xs)" if "0 \<notin> set xs" for xs
  proof
    assume "0 \<in> set (map upcase xs)"
    then obtain c where "c \<in> set xs" "upcase c = 0" by auto
    with that show False by (simp add: upcase_keeps(1))
  qed
  from this [OF x] have x': "0 \<notin> set (map upcase ?x)" .
  have "length (stored_text (pad 8 base) (pad 3 ext)) \<noteq> 12" using v by (auto simp: st)
  moreover have "text_of (stored_text (pad 8 base) (pad 3 ext) @ [0]) = map upcase ?x" unfolding st by (rule nz [OF x'])
  moreover have "text_of (name_string base ext) = ?x" using nz [OF x] by (simp add: name_string_def)
  moreover have "terminated (name_string base ext)" by (simp add: name_string_def terminated_def)
  ultimately show ?thesis using filename_match_eq [of "pad 8 base" "pad 3 ext" "name_string base ext"] v length_pad
    by (simp add: o_def)
qed

section \<open>Entries of a directory sector\<close>

definition le32 :: "(nat \<Rightarrow> u8) \<Rightarrow> nat \<Rightarrow> u32" where
  "le32 f i = ucast (f i) OR push_bit 8 (ucast (f (i + 1)) OR push_bit 8 (ucast (f (i + 2)) OR push_bit 8 (ucast (f (i + 3)))))"

definition entry_of :: "(nat \<Rightarrow> u8) \<Rightarrow> nat \<Rightarrow> fat_dir_entry_t" where
  "entry_of f k =
     (let g = (\<lambda>i. f (32 * k + i)) in
      \<lparr>ent_name = map g [0..<8], ent_ext = map (\<lambda>i. g (8 + i)) [0..<3], attributes = g 11, ent_reserved = g 12,
       create_time_tenth = g 13, create_time = le16 g 14, create_date = le16 g 16, last_access_date = le16 g 18,
       first_cluster_high = le16 g 20, write_time = le16 g 22, write_date = le16 g 24, first_cluster_low = le16 g 26,
       file_size = le32 g 28\<rparr>)"

definition sector_entries :: "(nat \<Rightarrow> u8) \<Rightarrow> fat_dir_entry_t list" where
  "sector_entries f = map (entry_of f) [0..<16]"

lemma entry_of_cong: "(\<And>i. i < 32 \<Longrightarrow> f (32 * k + i) = g (32 * k + i)) \<Longrightarrow> entry_of f k = entry_of g k"
  by (simp add: entry_of_def Let_def le16_def le32_def)

lemma sector_entries_cong: "(\<And>i. i < 512 \<Longrightarrow> f i = g i) \<Longrightarrow> sector_entries f = sector_entries g"
  unfolding sector_entries_def by (rule map_cong [OF refl], rule entry_of_cong) auto

lemma read32_sector:
  assumes "holds_sector p f s" "i + 3 < 512"
  shows "read32 (mem s) (p + of_nat i) = le32 f i"
proof -
  have e: "p + of_nat i + 1 = p + of_nat (i + 1)" "p + of_nat i + 2 = p + of_nat (i + 2)" "p + of_nat i + 3 = p + of_nat (i + 3)"
    by simp_all
  have "mem s (p + of_nat i) = f i" "mem s (p + of_nat (i + 1)) = f (i + 1)" "mem s (p + of_nat (i + 2)) = f (i + 2)"
    "mem s (p + of_nat (i + 3)) = f (i + 3)"
    using assms unfolding holds_sector_def by (auto simp only:)
  then show ?thesis by (simp only: read32_bytes le32_def e)
qed

lemma read_entry_sector:
  assumes "holds_sector p f s" "k < 16"
  shows "read_entry (entry_addr p k) s = entry_of f k"
proof -
  have a: "entry_addr p k + of_nat i = p + of_nat (32 * k + i)" for i by (simp add: entry_addr_def)
  have m: "mem s (entry_addr p k + of_nat i) = f (32 * k + i)" if "i < 32" for i
    unfolding a by (rule assms(1) [unfolded holds_sector_def, rule_format]) (use assms(2) that in simp)
  have r16: "read16 (mem s) (entry_addr p k + of_nat i) = le16 (\<lambda>i. f (32 * k + i)) i" if "i < 31" for i
    unfolding a using read16_sector [OF assms(1), of "32 * k + i"] assms(2) that by (simp add: le16_def)
  have r32: "read32 (mem s) (entry_addr p k + of_nat i) = le32 (\<lambda>i. f (32 * k + i)) i" if "i < 29" for i
    unfolding a using read32_sector [OF assms(1), of "32 * k + i"] assms(2) that by (simp add: le32_def ac_simps)
  have b: "bytes_at (entry_addr p k) 8 s = map (\<lambda>i. f (32 * k + i)) [0..<8]" using m by (simp add: bytes_at_def)
  have "mem s (entry_addr p k + 8 + of_nat i) = f (32 * k + (8 + i))" if "i < 3" for i
    using m [of "8 + i"] that by (simp add: add.assoc)
  then have b8: "bytes_at (entry_addr p k + 8) 3 s = map (\<lambda>i. f (32 * k + (8 + i))) [0..<3]" by (simp add: bytes_at_def)
  show ?thesis
    unfolding read_entry_def entry_of_def Let_def b b8
    using m [of 11] m [of 12] m [of 13] r16 [of 14] r16 [of 16] r16 [of 18] r16 [of 20] r16 [of 22] r16 [of 24] r16 [of 26] r32 [of 28]
    by simp
qed

lemma entries_at_sector: "holds_sector p f s \<Longrightarrow> entries_at p s = sector_entries f"
  by (simp add: entries_at_def sector_entries_def read_entry_sector)

lemma entry_of_lengths [simp]: "length (ent_name (entry_of f k)) = 8" "length (ent_ext (entry_of f k)) = 3"
  by (simp_all add: entry_of_def Let_def)

text \<open>Overwriting some bytes of a sector.\<close>

definition upd :: "nat \<Rightarrow> u8 list \<Rightarrow> (nat \<Rightarrow> u8) \<Rightarrow> nat \<Rightarrow> u8" where
  "upd off xs f i = (if off \<le> i \<and> i < off + length xs then xs ! (i - off) else f i)"

lemma upd_before: "i < off \<Longrightarrow> upd off xs f i = f i"
  and upd_after: "off + length xs \<le> i \<Longrightarrow> upd off xs f i = f i"
  by (simp_all add: upd_def)

lemma mem_poke: "mem (poke a v s) b = (if b = a then v else mem s b)"
  by (simp add: poke_def)

lemma poke_bytes_append: "poke_bytes a (xs @ ys) s = poke_bytes (a + of_nat (length xs)) ys (poke_bytes a xs s)"
  by (induction xs arbitrary: a s) (simp_all add: ac_simps)

lemma poke_bytes_sector:
  assumes "holds_sector p f s" "off + length xs \<le> 512"
  shows "holds_sector p (upd off xs f) (poke_bytes (p + of_nat off) xs s) \<and> touches (region p 512) s (poke_bytes (p + of_nat off) xs s) \<and>
    io (poke_bytes (p + of_nat off) xs s) = io s"
  using assms
proof (induction xs rule: rev_induct)
  case Nil
  have "upd off [] f = f" by (rule ext) (auto simp: upd_def)
  with Nil show ?case by simp
next
  case (snoc x xs)
  let ?t = "poke_bytes (p + of_nat off) xs s" and ?j = "off + length xs"
  have IH: "holds_sector p (upd off xs f) ?t" "touches (region p 512) s ?t" "io ?t = io s" using snoc by simp_all
  have e: "poke_bytes (p + of_nat off) (xs @ [x]) s = poke (p + of_nat ?j) x ?t"
    by (simp add: poke_bytes_append add.assoc)
  have j: "?j < 512" using snoc.prems(2) by simp
  have "mem (poke (p + of_nat ?j) x ?t) (p + of_nat i) = upd off (xs @ [x]) f i" if "i < 512" for i
  proof -
    have "(p + of_nat i = p + of_nat ?j) = (i = ?j)" using of_nat_u64_inj [of i ?j] that j by simp
    then have "mem (poke (p + of_nat ?j) x ?t) (p + of_nat i) = (if i = ?j then x else upd off xs f i)"
      using IH(1) that by (simp only: mem_poke holds_sector_def)
    then show ?thesis by (auto simp: upd_def nth_append)
  qed
  moreover have "touches (region p 512) ?t (poke (p + of_nat ?j) x ?t)"
    by (rule touches_poke, rule in_region_offset) (use j in auto)
  ultimately show ?case using IH(2,3) unfolding e holds_sector_def by (auto simp: poke_def intro: touches_trans)
qed

text \<open>The words that the functions store are byte strings.\<close>

definition bytes16 :: "u16 \<Rightarrow> u8 list" where
  "bytes16 v = [ucast v, ucast (drop_bit 8 v)]"

definition bytes32 :: "u32 \<Rightarrow> u8 list" where
  "bytes32 v = [ucast v, ucast (drop_bit 8 v), ucast (drop_bit 16 v), ucast (drop_bit 24 v)]"

lemma poke_as_bytes:
  "poke a x s = poke_bytes a [x] s" "poke16 a v s = poke_bytes a (bytes16 v) s" "poke32 a w s = poke_bytes a (bytes32 w) s"
  by (simp_all add: poke16_def write16_def poke32_def write32_def poke_def bytes16_def bytes32_def numeral_eq_Suc drop_bit_drop_bit)

definition filled :: "nat \<Rightarrow> u8 list \<Rightarrow> u8 list \<Rightarrow> u8 \<Rightarrow> u16 \<Rightarrow> u32 \<Rightarrow> (nat \<Rightarrow> u8) \<Rightarrow> nat \<Rightarrow> u8" where
  "filled o' name ext attr cluster sz f =
     upd (o' + 28) (bytes32 sz) (upd (o' + 26) (bytes16 cluster) (upd (o' + 20) (bytes16 0) (upd (o' + 16) (bytes16 0)
       (upd (o' + 14) (bytes16 0) (upd (o' + 12) [0] (upd (o' + 11) [attr] (upd (o' + 8) ext (upd o' name f))))))))"

lemma fill_entry_sector:
  assumes h: "holds_sector p f s" and k: "k < 16" and l: "length name = 8" "length ext = 3"
  shows "holds_sector p (filled (32 * k) name ext attr cluster sz f) (fill_entry (entry_addr p k) name ext attr cluster sz s)"
    and "touches (region p 512) s (fill_entry (entry_addr p k) name ext attr cluster sz s)"
    and "io (fill_entry (entry_addr p k) name ext attr cluster sz s) = io s"
proof -
  let ?P = "\<lambda>f t. holds_sector p f t \<and> touches (region p 512) s t \<and> io t = io s"
  have step: "?P (upd (32 * k + d) xs g) (poke_bytes (entry_addr p k + of_nat d) xs t)" if "?P g t" "d + length xs \<le> 32" for g t d xs
  proof -
    have e: "entry_addr p k + of_nat d = p + of_nat (32 * k + d)" by (simp add: entry_addr_def)
    have b: "32 * k + d + length xs \<le> 512" using k that(2) by simp
    show ?thesis using poke_bytes_sector [OF conjunct1 [OF that(1)] b] that(1) unfolding e by (auto intro: touches_trans)
  qed
  have b: "length (bytes16 v) = 2" "length (bytes32 w) = 4" for v w by (simp_all add: bytes16_def bytes32_def)
  have "?P f s" using h by simp
  note s1 = step [OF this, of 0 name]
  note s2 = step [OF s1, of 8 ext]
  note s3 = step [OF s2, of 11 "[attr]"]
  note s4 = step [OF s3, of 12 "[0]"]
  note s5 = step [OF s4, of 14 "bytes16 0"]
  note s6 = step [OF s5, of 16 "bytes16 0"]
  note s7 = step [OF s6, of 20 "bytes16 0"]
  note s8 = step [OF s7, of 26 "bytes16 cluster"]
  note s9 = step [OF s8, of 28 "bytes32 sz"]
  have "?P (filled (32 * k) name ext attr cluster sz f) (fill_entry (entry_addr p k) name ext attr cluster sz s)"
    using s9 l unfolding filled_def fill_entry_def Let_def poke_as_bytes by (simp add: b)
  then show "holds_sector p (filled (32 * k) name ext attr cluster sz f) (fill_entry (entry_addr p k) name ext attr cluster sz s)"
    "touches (region p 512) s (fill_entry (entry_addr p k) name ext attr cluster sz s)"
    "io (fill_entry (entry_addr p k) name ext attr cluster sz s) = io s" by auto
qed

lemma filled_outside: "i < o' \<or> o' + 32 \<le> i \<Longrightarrow> length name = 8 \<Longrightarrow> length ext = 3 \<Longrightarrow> filled o' name ext attr cluster sz f i = f i"
  by (elim disjE) (simp_all add: filled_def upd_before upd_after bytes16_def bytes32_def)

lemma le16_bytes: "ucast (ucast v :: u8) OR push_bit 8 (ucast (ucast (drop_bit 8 v) :: u8)) = (v :: u16)"
  by (rule bit_word_eqI) (auto simp: bit_or_iff bit_push_bit_iff bit_ucast_iff bit_drop_bit_eq)

lemma le32_bytes:
  "ucast (ucast v :: u8) OR push_bit 8 (ucast (ucast (drop_bit 8 v) :: u8) OR push_bit 8 (ucast (ucast (drop_bit 16 v) :: u8) OR
     push_bit 8 (ucast (ucast (drop_bit 24 v) :: u8)))) = (v :: u32)"
proof (rule bit_word_eqI)
  fix n assume n: "n < LENGTH(32)"
  show "bit (ucast (ucast v :: u8) OR push_bit 8 (ucast (ucast (drop_bit 8 v) :: u8) OR push_bit 8 (ucast (ucast (drop_bit 16 v) :: u8) OR
     push_bit 8 (ucast (ucast (drop_bit 24 v) :: u8)))) :: u32) n = bit v n"
    using n unfolding bit_or_iff bit_push_bit_iff bit_ucast_iff bit_drop_bit_eq
    by (cases "n < 8"; cases "n < 16"; cases "n < 24") auto
qed

lemma entry_of_filled:
  assumes "length name = 8" "length ext = 3"
  shows "ent_name (entry_of (filled (32 * k) name ext attr cluster sz f) k) = name"
    "ent_ext (entry_of (filled (32 * k) name ext attr cluster sz f) k) = ext"
    "attributes (entry_of (filled (32 * k) name ext attr cluster sz f) k) = attr"
    "first_cluster_low (entry_of (filled (32 * k) name ext attr cluster sz f) k) = cluster"
    "file_size (entry_of (filled (32 * k) name ext attr cluster sz f) k) = sz"
proof -
  let ?g = "filled (32 * k) name ext attr cluster sz f"
  have n: "?g (32 * k + i) = name ! i" if "i < 8" for i using that assms by (simp add: filled_def upd_def bytes16_def bytes32_def)
  have e: "?g (32 * k + (8 + i)) = ext ! i" if "i < 3" for i using that assms by (simp add: filled_def upd_def bytes16_def bytes32_def)
  show "ent_name (entry_of ?g k) = name" unfolding entry_of_def Let_def using n assms(1) by (auto intro!: nth_equalityI)
  show "ent_ext (entry_of ?g k) = ext" unfolding entry_of_def Let_def using e assms(2) by (auto intro!: nth_equalityI)
  show "attributes (entry_of ?g k) = attr" using assms by (simp add: entry_of_def Let_def filled_def upd_def bytes16_def bytes32_def)
  show "first_cluster_low (entry_of ?g k) = cluster"
    using le16_bytes [of cluster] by (simp add: entry_of_def Let_def filled_def upd_def bytes16_def bytes32_def le16_def)
  show "file_size (entry_of ?g k) = sz"
    using le32_bytes [of sz] by (simp add: entry_of_def Let_def filled_def upd_def bytes16_def bytes32_def le32_def)
qed

section \<open>Walking the root directory\<close>

text \<open>The number of sectors of the root directory, and its entries on the medium.\<close>

definition root_sectors :: "'a fat_scheme \<Rightarrow> nat" where
  "root_sectors s = unat ((ucast (root_dir_entries (fat_info s)) * 32 :: u32) div ucast (bytes_per_sector (fat_info s)))"

definition root_entries :: "image \<Rightarrow> u32 \<Rightarrow> nat \<Rightarrow> fat_dir_entry_t list" where
  "root_entries img root i = sector_entries (img (sector (root + of_nat i)))"

lemma root_sectors_lt: "root_sectors s < 2 ^ 28"
proof -
  have "root_sectors s \<le> unat (ucast (root_dir_entries (fat_info s)) * 32 :: u32)"
    unfolding root_sectors_def unat_div by (rule div_le_dividend)
  also have "\<dots> = unat (root_dir_entries (fat_info s)) * 32"
    using unat16_lt [of "root_dir_entries (fat_info s)"] by (simp add: unat_word_ariths unsigned_ucast_eq take_bit_nat_eq_self)
  also have "\<dots> < 2 ^ 28" using unat16_lt [of "root_dir_entries (fat_info s)"] by simp
  finally show ?thesis .
qed

definition in_root :: "'a fat_scheme \<Rightarrow> bool" where
  "in_root s \<longleftrightarrow> is_fat_initialized s \<and> current_dir_cluster s = 0 \<and> bytes_per_sector (fat_info s) \<noteq> 0"

lemma in_root_touches:
  fixes s :: "'a fat_scheme"
  assumes "touches A s s'"
  shows "in_root s' = in_root s" "root_sectors s' = root_sectors s" "root_dir_sector s' = root_dir_sector s"
  using touches_fat_vars [OF assms] by (simp_all add: in_root_def root_sectors_def)

lemma read_root_sector:
  fixes s :: "'a fat_scheme"
  assumes buf: "buffer_for bs bs1 p (s0 :: 'a fat_scheme)" and ready: "fs_ready n s bs1 img" and root: "in_root s" and i: "i < root_sectors s"
  obtains s' where "fat_read_dir_sector (current_dir_cluster s) i p s = Some (Inr (True, s'))" "fs_ready n s' bs1 img"
    "touches (region p 512) s s'" "holds_sector p (img (sector (root_dir_sector s + of_nat i))) s'"
proof -
  from fill_buffer [OF buf ready] obtain s' where s': "ata_read_sector (root_dir_sector s + of_nat i) p s = Some s'"
    "fs_ready n s' bs1 img" "touches (region p 512) s s'" "holds_sector p (img (sector (root_dir_sector s + of_nat i))) s'" .
  have "unat (of_nat i :: u32) = i" using i root_sectors_lt [of s] by (simp add: unsigned_of_nat take_bit_nat_eq_self)
  then have "\<not> of_nat i \<ge> (ucast (root_dir_entries (fat_info s)) * 32) div (ucast (bytes_per_sector (fat_info s)) :: u32)"
    using i unfolding word_le_nat_alt root_sectors_def by simp
  then have "fat_read_dir_sector (current_dir_cluster s) i p s = Some (Inr (True, s'))"
    using root s'(1) by (simp add: fat_read_dir_sector_def in_root_def kreturn_def)
  then show thesis using s'(2-4) by (rule that)
qed

lemma fs_ready_kprint: "fs_ready n s bs img \<Longrightarrow> fs_ready n (kprint msg s) bs img"
  using heap_inv_video [OF _ kprint_touches] disk_is_kprint by (auto simp: fs_ready_def)

lemma touches_kprint_idle: "touches (idle_mem bs) s (kprint msg s)"
  by (rule touches_mono [OF kprint_touches]) (auto simp: idle_mem_def)

text \<open>A sector without a match leaves the search going, and the scan of a sector goes entry by entry.\<close>

lemma find_scan_append:
  "find_scan fn j es = Inr ScanMore \<Longrightarrow> find_scan fn j (es @ es') = find_scan fn (j + length es) es'"
proof (induction es arbitrary: j)
  case (Cons e es)
  then show ?case
    by (cases "fat_filename_match (ent_name e) (ent_ext e) fn") (auto split: if_splits)
qed simp

lemma find_loop_spec:
  fixes s :: "'a fat_scheme"
  assumes buf: "buffer_for bs bs1 p (s0 :: 'a fat_scheme)" and rm: "room m bs"
    and i: "i < root_sectors s" "\<forall>j < i. find_scan fn 0 (root_entries img (root_dir_sector s) j) = Inr ScanMore"
    and hit: "find_scan fn 0 (root_entries img (root_dir_sector s) i) = Inr (ScanFound k)"
    and "in_root s" "fs_ready n s bs1 img" "j \<le> i"
  shows "\<exists>s'. fat_find_loop fn p j s = Some (Inr (Some (root_entries img (root_dir_sector s) i ! k), s')) \<and> fs_ready m s' bs img \<and>
    touches (idle_mem bs) s s'"
  using i hit assms(6-8)
proof (induction "i - j" arbitrary: j s)
  case 0
  then have "j = i" by simp
  obtain s1 where 1: "fat_read_dir_sector (current_dir_cluster s) i p s = Some (Inr (True, s1))" "fs_ready n s1 bs1 img"
    "touches (region p 512) s s1" "holds_sector p (img (sector (root_dir_sector s + of_nat i))) s1"
    using read_root_sector [OF buf 0(6,5,2)] by metis
  from free_buffer [OF buf 1(2) rm] obtain s2 where 2: "kfree p s1 = Some s2" "fs_ready m s2 bs img" "touches (idle_mem bs1) s1 s2" .
  have "entries_at p s1 = root_entries img (root_dir_sector s) i"
    using entries_at_sector [OF 1(4)] by (simp add: root_entries_def)
  then have "fat_find_loop fn p i s = Some (Inr (Some (root_entries img (root_dir_sector s) i ! k), s2))"
    using 1(1) 2(1) 0(4) by (subst fat_find_loop.simps) (simp add: kreturn_def)
  moreover have "touches (idle_mem bs) s s2" using buffer_mono [OF buf 1(3)] buffer_idle [OF buf 2(3)] by (rule touches_trans)
  ultimately show ?case using 2(2) \<open>j = i\<close> by blast
next
  case (Suc d)
  then have j: "j < i" "j < root_sectors s" by simp_all
  obtain s1 where 1: "fat_read_dir_sector (current_dir_cluster s) j p s = Some (Inr (True, s1))" "fs_ready n s1 bs1 img"
    "touches (region p 512) s s1" "holds_sector p (img (sector (root_dir_sector s + of_nat j))) s1"
    using read_root_sector [OF buf Suc(7,6) j(2)] by metis
  have "entries_at p s1 = root_entries img (root_dir_sector s) j"
    using entries_at_sector [OF 1(4)] by (simp add: root_entries_def)
  then have go: "fat_find_loop fn p j s = fat_find_loop fn p (Suc j) s1"
    using 1(1) Suc(4) j(1) by (subst fat_find_loop.simps) simp
  note v = in_root_touches [OF 1(3)]
  have "d = i - Suc j" "Suc j \<le> i" using Suc.hyps(2) by auto
  from Suc.hyps(1) [OF this(1) _ _ _ _ 1(2) this(2)] Suc(3-6) v buffer_mono [OF buf 1(3)]
  show ?case unfolding go by (auto intro: touches_trans)
qed

lemma store_entry_spec:
  fixes s :: "'a fat_scheme"
  assumes buf: "buffer_for bs bs1 p (s0 :: 'a fat_scheme)" and rm: "room m bs" and ready: "fs_ready n s bs1 img" and root: "in_root s"
    and h: "holds_sector p f s" and k: "k < 16" and l: "length name = 8" "length ext = 3"
  shows "\<exists>s' g. fat_store_entry p i k name ext attr cluster sz s = Some (Inr (True, s')) \<and>
    fs_ready m s' bs (img(sector (root_dir_sector s + of_nat i) := g)) \<and> touches (idle_mem bs) s s' \<and>
    (\<forall>x < 512. g x = filled (32 * k) name ext attr cluster sz f x)"
proof -
  define s1 where "s1 = fill_entry (entry_addr p k) name ext attr cluster sz s"
  note fe = fill_entry_sector [OF h k l, of attr cluster sz, folded s1_def]
  have "disk_is s img" using ready by (simp add: fs_ready_def)
  then have d1: "disk_is s1 img" by (rule disk_is_same_io [OF fe(2,3)])
  have r1: "fs_ready n s1 bs1 img" by (rule change_buffer [OF buf ready fe(2) d1])
  note v = in_root_touches [OF fe(2)]
  have lba: "fat_dir_lba i s1 = Some (Inr (root_dir_sector s + of_nat i, s1))"
    using root v by (simp add: fat_dir_lba_def in_root_def kget_def)
  obtain s2 g where 2: "ata_write_sector (root_dir_sector s + of_nat i) p s1 = Some s2"
    "fs_ready n s2 bs1 (img(sector (root_dir_sector s + of_nat i) := g))" "touches {} s1 s2"
    "\<And>x. x < 512 \<Longrightarrow> g x = filled (32 * k) name ext attr cluster sz f x"
    by (rule flush_buffer [OF r1 fe(1), of "root_dir_sector s + of_nat i"]) blast
  from free_buffer [OF buf 2(2) rm] obtain s3 where 3: "kfree p s2 = Some s3"
    "fs_ready m s3 bs (img(sector (root_dir_sector s + of_nat i) := g))" "touches (idle_mem bs1) s2 s3" .
  let ?s4 = "kprint (chars ''Entry created: '') s3"
  define s6 where "s6 = kprint [10] (kprint (final_name (entry_addr p k) ?s4) ?s4)"
  have "fat_store_entry p i k name ext attr cluster sz s = Some (Inr (True, s6))"
    using lba 2(1) 3(1) by (simp add: fat_store_entry_def s1_def [symmetric] s6_def kreturn_def)
  moreover have "fs_ready m s6 bs (img(sector (root_dir_sector s + of_nat i) := g))"
    unfolding s6_def by (intro fs_ready_kprint 3(2))
  moreover have "touches (idle_mem bs) s s2"
    by (meson buffer_mono [OF buf fe(2)] 2(3) empty_subsetI touches_mono touches_trans)
  then have "touches (idle_mem bs) s s3" using buffer_idle [OF buf 3(3)] by (rule touches_trans)
  then have "touches (idle_mem bs) s s6" unfolding s6_def by (intro touches_trans [OF _ touches_kprint_idle])
  ultimately show ?thesis using 2(4) by blast
qed

lemma create_loop_spec:
  fixes s :: "'a fat_scheme"
  assumes buf: "buffer_for bs bs1 p (s0 :: 'a fat_scheme)" and rm: "room m bs" and l: "length name = 8" "length ext = 3"
    and i: "i < root_sectors s" "\<forall>j < i. free_slot (root_entries img (root_dir_sector s) j) = None"
    and slot: "free_slot (root_entries img (root_dir_sector s) i) = Some k" and "in_root s" "fs_ready n s bs1 img" "j \<le> i"
  shows "\<exists>s' g. fat_create_loop p j name ext attr cluster sz s = Some (Inr (True, s')) \<and>
    fs_ready m s' bs (img(sector (root_dir_sector s + of_nat i) := g)) \<and> touches (idle_mem bs) s s' \<and>
    (\<forall>x < 512. g x = filled (32 * k) name ext attr cluster sz (img (sector (root_dir_sector s + of_nat i))) x)"
  using i slot assms(8-10)
proof (induction "i - j" arbitrary: j s)
  case 0
  then have "j = i" by simp
  have k: "k < 16" using slot by (auto simp: free_slot_def find_Some_iff)
  obtain s1 where 1: "fat_read_dir_sector (current_dir_cluster s) i p s = Some (Inr (True, s1))" "fs_ready n s1 bs1 img"
    "touches (region p 512) s s1" "holds_sector p (img (sector (root_dir_sector s + of_nat i))) s1"
    using read_root_sector [OF buf 0(6,5,2)] by metis
  note v = in_root_touches [OF 1(3)]
  have "entries_at p s1 = root_entries img (root_dir_sector s) i"
    using entries_at_sector [OF 1(4)] by (simp add: root_entries_def)
  then have go: "fat_create_loop p i name ext attr cluster sz s = fat_store_entry p i k name ext attr cluster sz s1"
    using 1(1) 0(4) by (subst fat_create_loop.simps) simp
  have "in_root s1" using v(1) 0(5) by simp
  from store_entry_spec [OF buf rm 1(2) this 1(4) k l, of i attr cluster sz] buffer_mono [OF buf 1(3)]
  show ?case unfolding \<open>j = i\<close> go v(3) by (blast intro: touches_trans)
next
  case (Suc d)
  then have j: "j < i" "j < root_sectors s" by simp_all
  obtain s1 where 1: "fat_read_dir_sector (current_dir_cluster s) j p s = Some (Inr (True, s1))" "fs_ready n s1 bs1 img"
    "touches (region p 512) s s1" "holds_sector p (img (sector (root_dir_sector s + of_nat j))) s1"
    using read_root_sector [OF buf Suc(7,6) j(2)] by metis
  have "entries_at p s1 = root_entries img (root_dir_sector s) j"
    using entries_at_sector [OF 1(4)] by (simp add: root_entries_def)
  then have go: "fat_create_loop p j name ext attr cluster sz s = fat_create_loop p (Suc j) name ext attr cluster sz s1"
    using 1(1) Suc(4) j(1) by (subst fat_create_loop.simps) simp
  note v = in_root_touches [OF 1(3)]
  have "d = i - Suc j" "Suc j \<le> i" using Suc.hyps(2) by auto
  from Suc.hyps(1) [OF this(1) _ _ _ _ 1(2) this(2)] Suc(3-6) v buffer_mono [OF buf 1(3)]
  show ?case unfolding go by (auto intro: touches_trans)
qed

text \<open>The directory after the new entry was stored.\<close>

lemma root_entries_filled:
  assumes g: "\<forall>x < 512. g x = filled (32 * k) name ext attr cluster sz (img (sector (root + of_nat i))) x"
    and k: "k < 16" and l: "length name = 8" "length ext = 3" and ij: "i < 2 ^ 28" "j < 2 ^ 28"
  shows "root_entries (img(sector (root + of_nat i) := g)) root j =
    (if j = i then (root_entries img root i)[k := entry_of (filled (32 * k) name ext attr cluster sz (img (sector (root + of_nat i)))) k]
     else root_entries img root j)"
proof (cases "j = i")
  case False
  then have "sector (root + of_nat j) \<noteq> sector (root + of_nat i)" using sector_offset_inj ij by blast
  then show ?thesis using False by (simp add: root_entries_def)
next
  case True
  let ?f = "img (sector (root + of_nat i))"
  let ?h = "filled (32 * k) name ext attr cluster sz ?f"
  have other: "entry_of ?h q = entry_of ?f q" if "q \<noteq> k" for q
  proof (rule entry_of_cong)
    fix x :: nat assume "x < 32"
    then have "32 * q + x < 32 * k \<or> 32 * k + 32 \<le> 32 * q + x" using that by linarith
    then show "?h (32 * q + x) = ?f (32 * q + x)" by (rule filled_outside [OF _ l])
  qed
  have "sector_entries g = sector_entries ?h" by (rule sector_entries_cong) (use g in blast)
  also have "\<dots> = (sector_entries ?f)[k := entry_of ?h k]"
    unfolding sector_entries_def using k by (auto intro!: nth_equalityI simp: nth_list_update other)
  finally show ?thesis using True by (simp add: root_entries_def)
qed

section \<open>Properties\<close>

text \<open>
  C33: \<^verbatim>\<open>fat_filename_match\<close> decides, without regard to case, whether the text of a stored 8.3 name is the
  given string; for a name whose eight and three characters are all used, the terminating byte of
  the local array \<^verbatim>\<open>temp[12]\<close> is written past its end.
\<close>

theorem fat_filename_match_decides:
  assumes "length name = 8" "length ext = 3" "terminated input"
  shows "fat_filename_match name ext input =
    (let t = takeWhile (\<lambda>c. c \<noteq> 32) name @ (if hd ext \<noteq> 32 then 0x2e # takeWhile (\<lambda>c. c \<noteq> 32) ext else []) in
     if 32 \<notin> set name \<and> 32 \<notin> set ext then Inl WriteOutOfBounds
     else Inr (map upcase (text_of (t @ [0])) = map upcase (text_of input)))"
proof -
  have n: "length (takeWhile (\<lambda>c. c \<noteq> 32) xs) = length xs \<longleftrightarrow> 32 \<notin> set xs" for xs :: "u8 list"
    by (induction xs) auto
  have le: "length (takeWhile (\<lambda>c. c \<noteq> 32) xs) \<le> length xs" for xs :: "u8 list" by (rule length_takeWhile_le)
  have h: "hd ext = 32 \<Longrightarrow> 32 \<in> set ext" using assms(2) hd_in_set [of ext] by (cases ext) auto
  have "length (stored_text name ext) = 12 \<longleftrightarrow> 32 \<notin> set name \<and> 32 \<notin> set ext"
    using n [of name] n [of ext] le [of name] le [of ext] h assms(1,2) by (auto simp: stored_text_def)
  then show ?thesis using filename_match_eq [OF assms] by (simp add: stored_text_def Let_def)
qed

lemma filled_entry_found:
  assumes v: "valid_name base ext" and attr: "attr AND ATTR_VOLUME_ID = 0" and more: "find_scan (name_string base ext) 0 (take k es) = Inr ScanMore"
    and k: "k < length es" and e: "ent_name e = pad 8 base" "ent_ext e = pad 3 ext" "attributes e = attr"
  shows "find_scan (name_string base ext) 0 (es[k := e]) = Inr (ScanFound k)"
proof -
  have "hd (pad 8 base) = upcase (hd base)" using v by (cases base) (auto simp: pad_def valid_name_def)
  moreover have "hd base \<noteq> 0" "hd base \<noteq> 0xE5"
    using v by (cases base; auto simp: valid_name_def)+
  ultimately have h: "hd (ent_name e) \<noteq> 0" "hd (ent_name e) \<noteq> 0xE5" using upcase_keeps [of "hd base"] e(1) by simp_all
  have "attr \<noteq> 0x0F" using attr by (auto simp: ATTR_VOLUME_ID_def)
  then have here: "find_scan (name_string base ext) (length (take k es)) (e # drop (Suc k) es) = Inr (ScanFound k)"
    using h attr e stored_name_matches [OF v] k by simp
  have "es[k := e] = take k es @ e # drop (Suc k) es" using k by (rule upd_conv_take_nth_drop)
  then show ?thesis using find_scan_append [OF more, of "e # drop (Suc k) es"] here by simp
qed


section \<open>Witnesses\<close>

theorem fat_filename_match_decides_witness:
  "fat_filename_match [0x41, 0x42, 32, 32, 32, 32, 32, 32] [0x43, 32, 32] [0x61, 0x42, 0x2e, 0x63, 0] = Inr True \<and>
   fat_filename_match (replicate 8 0x41) (replicate 3 0x42) [0x61, 0] = Inl WriteOutOfBounds"
  using fat_filename_match_decides [of "[0x41, 0x42, 32, 32, 32, 32, 32, 32]" "[0x43, 32, 32]" "[0x61, 0x42, 0x2e, 0x63, 0]"]
    fat_filename_match_decides [of "replicate 8 0x41" "replicate 3 0x42" "[0x61, 0]"]
  by (simp add: Let_def terminated_def text_of_def upcase_def)

lemma demo_root: "root_entries demo_image 2 0 = sector_entries (\<lambda>i. 0)"
  unfolding root_entries_def by (rule sector_entries_cong) (simp add: demo_image_def)


end
