(* ===== verification/Shell_Props.thy ===== *)
theory Shell_Props
  imports Shell Fat_Directory
begin

text \<open>
  What the shell does: the command that a line selects, the loading of a program image from the cluster chain
  of its file, and the overrun that every execution of a file runs into.
\<close>

section \<open>Selecting a command\<close>

text \<open>The chain of string comparisons looks the word up in the table of commands.\<close>

lemma text_of_cstr: "0 \<notin> set (chars n) \<Longrightarrow> text_of (cstr n) = chars n"
  unfolding cstr_def using text_of_word [of "chars n" "[]"] by auto

lemma terminated_cstr: "terminated (cstr n)"
  by (simp add: terminated_def cstr_def)

lemma dispatch_lookup:
  assumes "terminated command" and "\<forall>c \<in> set cs. 0 \<notin> set (chars (fst c))"
  shows "dispatch cs command unknown s =
    (case map_of (map (\<lambda>c. (chars (fst c), snd c)) cs) (text_of command) of None \<Rightarrow> unknown | Some f \<Rightarrow> f) s"
  using assms(2)
proof (induction cs)
  case (Cons c cs)
  obtain d where d: "strcmp command (cstr (fst c)) = Inr d" using strcmp_total [OF assms(1) terminated_cstr] by blast
  have "d = 0 \<longleftrightarrow> text_of command = chars (fst c)"
    using strcmp_zero_iff [OF assms(1) terminated_cstr, of "fst c"] d text_of_cstr [of "fst c"] Cons.prems by auto
  then show ?case using Cons d by auto
qed simp

definition chosen :: "u8 list \<Rightarrow> nat \<Rightarrow> u8 list \<Rightarrow> ('a fat_scheme, flow) kop" where
  "chosen input offset w =
     (case map_of (map (\<lambda>c. (chars (fst c), snd c)) (commands input offset)) w of None \<Rightarrow> sh_unknown input | Some f \<Rightarrow> f)"

definition prompted :: "('a fat_scheme, flow) kop \<Rightarrow> ('a fat_scheme, flow) kop" where
  "prompted f = kbind f (\<lambda>r. if r = Prompt then kthen (kdo prompt) (kreturn Return) else kreturn r)"

lemma commands_names: "\<forall>c \<in> set (commands input offset). 0 \<notin> set (chars (fst c))"
  by (simp add: commands_def chars_def)

lemma user_input_eq:
  fixes s :: "'a fat_scheme"
  assumes "terminated input"
  shows "user_input input s =
    (let l = text_of input; w = word_of_line l in
     if w = [] then Some (Inr (Return, prompt s))
     else if length w < 32 then prompted (chosen input (length (blanks l) + length w) w) s
     else Some (Inl WriteOutOfBounds))"
proof -
  let ?l = "text_of input" and ?w = "word_of_line (text_of input)"
  have tok: "get_next_token input (replicate 32 0) 0 =
    (if ?w = [] then Inr (False, replicate 32 0, length ?l)
     else if length ?w < 32 then Inr (True, ?w @ 0 # drop (Suc (length ?w)) (replicate 32 0), length (blanks ?l) + length ?w)
     else Inl WriteOutOfBounds)"
    using get_next_token_spec [of 0 input "replicate 32 0"] assms by (simp add: Let_def line_rest_def)
  have nz: "set ?w \<subseteq> {c. c \<noteq> 0}" using word_of_line_rest_nonzero [of input 0] by (simp add: line_rest_def)
  have d: "dispatch (commands input o') (?w @ 0 # z) (sh_unknown input) s = chosen input o' ?w s" for o' z
    using dispatch_lookup [OF _ commands_names, of "?w @ 0 # z" input o' "sh_unknown input" s] text_of_word [OF nz, of z]
    by (simp add: chosen_def terminated_def)
  have "kbind (dispatch (commands input o') (?w @ 0 # z) (sh_unknown input)) h s = kbind (chosen input o' ?w) h s"
    for o' z and h :: "flow \<Rightarrow> ('a fat_scheme, flow) kop"
    by (simp only: kbind_def d)
  then show ?thesis by (simp add: user_input_def tok Let_def prompted_def kreturn_def)
qed

section \<open>Loading a program image\<close>

lemma exec_copy_spec:
  assumes "n \<le> 512" and "region ptr n \<inter> region buf 512 = {}"
    and "t = fold (\<lambda>i s. poke (ptr + of_nat i) (mem s (buf + of_nat i)) s) [0..<n] s"
  shows "touches (region ptr n) s t \<and> io t = io s \<and> (\<forall>i < n. mem t (ptr + of_nat i) = mem s (buf + of_nat i))"
  using assms(1,2) unfolding assms(3)
proof (induction n)
  case (Suc n)
  let ?t = "fold (\<lambda>i s. poke (ptr + of_nat i) (mem s (buf + of_nat i)) s) [0..<n] s"
  have sub: "region ptr n \<subseteq> region ptr (Suc n)" by (rule region_mono) simp
  with Suc have IH: "touches (region ptr n) s ?t" "io ?t = io s" "\<forall>i < n. mem ?t (ptr + of_nat i) = mem s (buf + of_nat i)" by auto
  have "ptr + of_nat n \<in> region ptr (Suc n)" by (rule in_region_offset) (use Suc.prems(1) in auto)
  then have "touches (region ptr (Suc n)) s (poke (ptr + of_nat n) v ?t)" for v
    by (rule touches_trans [OF touches_mono [OF IH(1) sub] touches_poke])
  moreover have "buf + of_nat n \<in> region buf 512" by (rule in_region_offset) (use Suc.prems(1) in auto)
  then have "mem ?t (buf + of_nat n) = mem s (buf + of_nat n)" using touches_mem [OF IH(1)] Suc.prems(2) sub by blast
  moreover have "ptr + of_nat i \<noteq> ptr + of_nat n" if "i < n" for i
    using of_nat_u64_inj [of i n] that Suc.prems(1) by simp
  ultimately show ?case using IH(2,3) by (auto simp: poke_def less_Suc_eq)
qed simp

text \<open>
  The loop over the chain: the first sector of every cluster goes to the next 512 bytes, up to the
  size of the file. The target is apart from the heap, the screen and the bitmap.
\<close>

definition target_apart :: "u64 \<Rightarrow> nat \<Rightarrow> hblock list \<Rightarrow> bool" where
  "target_apart ptr n bs \<longleftrightarrow> region ptr n \<inter> (idle_mem bs \<union> bitmap_area) = {}"

lemma target_apart_mono: "target_apart ptr n bs \<Longrightarrow> k + m \<le> n \<Longrightarrow> n \<le> 2 ^ 64 \<Longrightarrow> target_apart (ptr + of_nat k) m bs"
  using region_sub [of k m n ptr] by (auto simp: target_apart_def)

lemma fs_ready_target:
  fixes s :: "'a fat_scheme"
  assumes "fs_ready n s bs1 img" and "touches (region ptr m) s t" "io t = io s" and "target_apart ptr m bs" "idle_mem bs1 \<subseteq> idle_mem bs"
  shows "fs_ready n t bs1 img"
proof -
  have "region ptr m \<inter> header b = {}" if "b \<in> set bs1" for b
  proof -
    have "header b \<subseteq> idle_mem bs1" using that by (auto simp: idle_mem_def)
    then show ?thesis using assms(4,5) unfolding target_apart_def by blast
  qed
  moreover have "region ptr m \<inter> bitmap_area = {}" using assms(4) unfolding target_apart_def by blast
  moreover have "heap_inv s bs1" using assms(1) by (simp add: fs_ready_def)
  ultimately have "heap_inv t bs1" by (intro heap_inv_frame [OF _ assms(2)])
  then show ?thesis using assms(1) disk_is_same_io [OF assms(2,3)] by (simp add: fs_ready_def)
qed

lemma exec_loop_step:
  fixes s :: "'a fat_scheme"
  assumes buf: "buffer_for bs bs1 buf (s0 :: 'a fat_scheme)" and fs: "fs_ready (Suc 0) s bs1 img"
    and left: "0 < left" "c < 0xFFF8" and ap: "target_apart ptr (unat left) bs"
  defines "n \<equiv> min 512 (unat left)"
  obtains s' where "exec_loop ptr buf c left s = exec_loop (ptr + 512) buf (fat_table img (fat_start_sector s) c) (left - of_nat n) s'"
    "fs_ready (Suc 0) s' bs1 img" "touches (idle_mem bs \<union> region ptr n) s s'"
    "\<And>i. i < n \<Longrightarrow> mem s' (ptr + of_nat i) = img (sector (fat_lba_of_cluster c s)) i"
proof -
  have sub: "idle_mem bs1 \<subseteq> idle_mem bs" "region buf 512 \<subseteq> idle_mem bs" using buf by (simp_all add: buffer_for_def)
  have n: "n \<le> 512" "0 + n \<le> unat left" "unat left \<le> 2 ^ 64" using unsigned_less [of left, where 'a = nat] by (simp_all add: n_def)
  have apn: "target_apart ptr n bs" using target_apart_mono [OF ap n(2,3)] by simp
  then have disj: "region ptr n \<inter> region buf 512 = {}" and apb: "region ptr n \<inter> idle_mem bs1 = {}"
    using sub unfolding target_apart_def by blast+
  from fill_buffer [OF buf fs] obtain s1 where 1: "ata_read_sector (fat_lba_of_cluster c s) buf s = Some s1" "fs_ready (Suc 0) s1 bs1 img"
    "touches (region buf 512) s s1" "holds_sector buf (img (sector (fat_lba_of_cluster c s))) s1" .
  define s2 where "s2 = exec_copy ptr buf left s1"
  from exec_copy_spec [OF n(1) disj, of s2 s1] have 2: "touches (region ptr n) s1 s2" "io s2 = io s1"
    "\<forall>i < n. mem s2 (ptr + of_nat i) = mem s1 (buf + of_nat i)" by (simp_all add: s2_def exec_copy_def n_def)
  have fs2: "fs_ready (Suc 0) s2 bs1 img" by (rule fs_ready_target [OF 1(2) 2(1,2) apn sub(1)])
  from fat_next_cluster_spec [OF fs2] obtain s3 where 3: "fat_next_cluster c s2 = Some (Inr (fat_table img (fat_start_sector s2) c, s3))"
    "fs_ready (Suc 0) s3 bs1 img" "touches (idle_mem bs1) s2 s3" .
  have "fat_start_sector s2 = fat_start_sector s" using touches_fat_vars(2) 1(3) 2(1) by metis
  then have "exec_loop ptr buf c left s = exec_loop (ptr + 512) buf (fat_table img (fat_start_sector s) c) (left - of_nat n) s3"
    using left 1(1) 3(1) by (subst exec_loop.simps) (simp add: s2_def [symmetric] n_def)
  moreover have "touches (idle_mem bs \<union> region ptr n) s s3"
    using touches_mono [OF 1(3), of "idle_mem bs \<union> region ptr n"] touches_mono [OF 2(1), of "idle_mem bs \<union> region ptr n"]
      touches_mono [OF 3(3), of "idle_mem bs \<union> region ptr n"] sub by (meson le_supI1 sup_ge2 touches_trans)
  moreover have "mem s3 (ptr + of_nat i) = img (sector (fat_lba_of_cluster c s)) i" if "i < n" for i
  proof -
    have "ptr + of_nat i \<in> region ptr n" using that by (rule in_region_offset) (use n(1) in simp)
    then have "mem s3 (ptr + of_nat i) = mem s2 (ptr + of_nat i)" using touches_mem [OF 3(3)] apb by blast
    then show ?thesis using 2(3) 1(4) that n(1) by (simp add: holds_sector_def)
  qed
  ultimately show thesis using 3(2) by (intro that)
qed

lemma unat_sub_nat: "n \<le> unat (a :: u32) \<Longrightarrow> unat (a - of_nat n) = unat a - n"
proof -
  assume n: "n \<le> unat a"
  then have "unat (of_nat n :: u32) = n"
    using unsigned_less [of a, where 'a = nat] by (simp add: unsigned_of_nat take_bit_nat_eq_self)
  then show ?thesis using n by (subst unat_sub) (simp_all add: word_le_nat_alt)
qed

lemma exec_loop_loads:
  fixes s :: "'a fat_scheme"
  assumes buf: "buffer_for bs bs1 buf (s0 :: 'a fat_scheme)" and "fs_ready (Suc 0) s bs1 img"
    and "fat_chain (fat_table img (fat_start_sector s)) c cs" and "target_apart ptr (unat left) bs"
  shows "\<exists>s'. exec_loop ptr buf c left s = Some (Inr ((), s')) \<and> fs_ready (Suc 0) s' bs1 img \<and>
    touches (idle_mem bs \<union> region ptr (unat left)) s s' \<and>
    (\<forall>j < min (unat left) (512 * length cs). mem s' (ptr + of_nat j) = img (sector (fat_lba_of_cluster (cs ! (j div 512)) s)) (j mod 512))"
  using assms(2-4)
proof (induction cs arbitrary: c left ptr s)
  case Nil
  then show ?case by (subst exec_loop.simps) (auto simp: kreturn_def)
next
  case (Cons x xs)
  show ?case
  proof (cases "left = 0")
    case True
    then show ?thesis using Cons.prems(1) by (subst exec_loop.simps) (simp add: kreturn_def)
  next
    case False
    then have left: "0 < left" by (simp add: word_neq_0_conv)
    have x: "c = x" "c < 0xFFF8" "fat_chain (fat_table img (fat_start_sector s)) (fat_table img (fat_start_sector s) c) xs"
      using Cons.prems(2) by auto
    define n where "n = min 512 (unat left)"
    obtain s1 where 1: "exec_loop ptr buf c left s = exec_loop (ptr + 512) buf (fat_table img (fat_start_sector s) c) (left - of_nat n) s1"
      "fs_ready (Suc 0) s1 bs1 img" "touches (idle_mem bs \<union> region ptr n) s s1"
      "\<And>i. i < n \<Longrightarrow> mem s1 (ptr + of_nat i) = img (sector (fat_lba_of_cluster c s)) i"
      using exec_loop_step [OF buf Cons.prems(1) left x(2) Cons.prems(3)] unfolding n_def by metis
    define m where "m = unat left - n"
    have un: "unat left < 2 ^ 32" using unsigned_less [of left, where 'a = nat] by simp
    have m: "unat (left - of_nat n) = m" using un by (simp add: m_def n_def unat_sub_nat)
    have m512: "n = 512" if "m \<noteq> 0" using that by (auto simp: m_def n_def)
    have sub: "region (ptr + 512) m \<subseteq> region ptr (unat left)" "region ptr n \<subseteq> region ptr (unat left)"
      using region_sub [of 512 m "unat left" ptr] m512 un region_mono [of n "unat left" ptr]
      by (cases "m = 0"; auto simp: m_def n_def)+
    have dis: "region ptr n \<inter> region (ptr + 512) m = {}"
      using region_offset_disjoint [of 0 n 512 m ptr] un by (simp add: m_def n_def)
    have ap: "target_apart (ptr + 512) (unat (left - of_nat n)) bs"
      using Cons.prems(3) sub(1) unfolding m target_apart_def by blast
    have vars: "fat_start_sector s1 = fat_start_sector s" "fat_lba_of_cluster d s1 = fat_lba_of_cluster d s" for d
      using touches_fat_vars [OF 1(3)] by (simp_all add: fat_lba_of_cluster_def)
    from Cons.IH [OF 1(2) _ ap, of "fat_table img (fat_start_sector s) c"] x(3) obtain s' where 2:
      "exec_loop ptr buf c left s = Some (Inr ((), s'))" "fs_ready (Suc 0) s' bs1 img"
      "touches (idle_mem bs \<union> region (ptr + 512) m) s1 s'"
      "\<forall>j < min m (512 * length xs). mem s' (ptr + 512 + of_nat j) = img (sector (fat_lba_of_cluster (xs ! (j div 512)) s)) (j mod 512)"
      by (auto simp: vars 1(1) m)
    have "touches (idle_mem bs \<union> region ptr (unat left)) s s'"
      by (rule touches_trans [OF touches_mono [OF 1(3)] touches_mono [OF 2(3)]]) (use sub in blast)+
    moreover have "mem s' (ptr + of_nat j) = img (sector (fat_lba_of_cluster ((x # xs) ! (j div 512)) s)) (j mod 512)"
      if "j < min (unat left) (512 * length (x # xs))" for j
    proof (cases "j < 512")
      case True
      then have j: "j < n" using that by (simp add: n_def)
      have "ptr + of_nat j \<in> region ptr n" using j by (rule in_region_offset) (simp add: n_def)
      moreover from this have "ptr + of_nat j \<notin> idle_mem bs" using Cons.prems(3) sub(2) unfolding target_apart_def by blast
      ultimately have "mem s' (ptr + of_nat j) = mem s1 (ptr + of_nat j)" using touches_mem [OF 2(3)] dis by blast
      then show ?thesis using 1(4) [OF j] True x(1) by simp
    next
      case False
      then obtain i where i: "j = 512 + i" by (metis le_Suc_ex not_le)
      then have "i < min m (512 * length xs)" using that by (auto simp: m_def n_def)
      moreover have "(512 + i) div 512 = Suc (i div 512)" by simp
      ultimately show ?thesis using 2(4) by (simp add: i add.assoc)
    qed
    ultimately show ?thesis using 2(1,2) by blast
  qed
qed

section \<open>Mapping a flat binary\<close>

text \<open>A flat binary is loaded like a single segment at the fixed address.\<close>

definition flat_segment :: "nat \<Rightarrow> Elf64_Phdr" where
  "flat_segment sz = \<lparr>p_type = 1, p_flags = 0, p_offset = 0, p_vaddr = flat_binary_vaddr, p_paddr = 0,
     p_filesz = of_nat sz, p_memsz = of_nat sz, p_align = 0\<rparr>"

lemma flat_segment_in_file: "sz < 2 ^ 32 \<Longrightarrow> seg_in_file sz (flat_segment sz)"
  by (simp add: seg_in_file_def flat_segment_def flat_binary_vaddr_def unat64_of_nat)

lemma flat_byte:
  assumes "sz < 2 ^ 32" and "0x10000000 \<le> a"
  shows "seg_byte m load_addr (flat_segment sz) a = (if a < 0x10000000 + sz then m (0x4000000 + of_nat (a - 0x10000000)) else 0)"
proof -
  have "unat (of_nat sz :: u64) = sz" using assms(1) by (intro unat64_of_nat) simp
  moreover have "unat (0x10000000 :: u64) = 0x10000000" by simp
  ultimately show ?thesis using assms(2)
    unfolding seg_byte_def flat_segment_def flat_binary_vaddr_def load_addr_def by (simp only: Elf64_Phdr.select_convs) simp
qed

lemma loaded_cong:
  "loaded r T s j f \<Longrightarrow> (\<And>i. i < 4096 \<Longrightarrow> f (4096 * j + i) = g (4096 * j + i)) \<Longrightarrow> loaded r T s j g"
  unfolding loaded_def by auto

lemma flat_copy:
  assumes sz: "sz < 2 ^ 32" and k: "4096 * k < sz"
  shows "memcpy p (load_addr + of_nat (4096 * k)) (sint (ucast (if of_nat (4096 * k) + PAGE_SIZE > (of_nat sz :: u64)
      then of_nat sz - of_nat (4096 * k) else PAGE_SIZE) :: u32)) s =
    elf_copy load_addr (flat_segment sz) (of_nat (4096 * (0x10000 + k))) p s"
proof -
  define l where "l = min 4096 (sz - 4096 * k)"
  have u: "unat (of_nat (4096 * k) :: u64) = 4096 * k" "unat (of_nat sz :: u64) = sz"
    by (rule unat64_of_nat; use assms in simp)+
  have u4: "unat (of_nat (4096 * k) + PAGE_SIZE) = 4096 * k + 4096"
    using assms by (simp add: PAGE_SIZE_def unat_word_ariths u del: of_nat_mult)
  have len: "(if of_nat (4096 * k) + PAGE_SIZE > (of_nat sz :: u64) then of_nat sz - of_nat (4096 * k) else PAGE_SIZE) = (of_nat l :: u64)"
    unfolding word_less_nat_alt u u4 using k by (auto simp: l_def min_def PAGE_SIZE_def of_nat_diff)
  have c: "copy_from (0x10000 + k) (flat_segment sz) = 4096 * (0x10000 + k)" "copy_to (0x10000 + k) (flat_segment sz) = 4096 * (0x10000 + k) + l"
    using k u(2) by (simp_all add: copy_from_def copy_to_def flat_segment_def flat_binary_vaddr_def l_def)
  have kk: "0x10000 + k < 2 ^ 36" and l: "0 < l" "l \<le> 4096" using assms by (simp_all add: l_def)
  show ?thesis
    unfolding elf_copy_eq [OF kk flat_segment_in_file [OF sz]] c len sint_len [OF l(2)] using l
    by (simp add: flat_segment_def flat_binary_vaddr_def)
qed

lemma exec_flat_page_spec:
  assumes wf: "pt_wf s T" and r: "T r = Some 0" and room: "4 \<le> card (free_frames s)" and sz: "sz < 2 ^ 32" "4096 * k < sz"
    and ap: "file_apart load_addr sz T s"
  shows "\<exists>p s' T'. exec_flat_page r (of_nat (4096 * k)) (of_nat sz) s = (True, s') \<and>
    page_added r (of_nat (4096 * (0x10000 + k))) p T T' s s' \<and>
    loaded r T' s' (0x10000 + k) (seg_byte (mem s) load_addr (flat_segment sz))"
proof -
  let ?ph = "flat_segment sz" and ?k = "0x10000 + k"
  note seg = flat_segment_in_file [OF sz(1)]
  have k: "?k < 2 ^ 36" using sz by simp
  have v: "flat_binary_vaddr + of_nat (4096 * k) = of_nat (4096 * ?k)" by (simp add: flat_binary_vaddr_def)
  obtain p s1 where a: "pmm_alloc_block s = (p, s1)" "p \<noteq> 0" "p \<in> free_frames s" "\<And>b. b \<notin> bitmap_area \<Longrightarrow> mem s1 b = mem s b"
    by (rule take_frame [OF wf room]) blast
  have dis: "region load_addr sz \<inter> region p 4096 = {}" using ap a(3) unfolding file_apart_def by blast
  define s2 where "s2 = elf_copy load_addr ?ph (of_nat (4096 * ?k)) p (memset p 0 PAGE_SIZE s1)"
  from elf_copy_spec [OF k seg dis s2_def]
  have t: "touches (region p 4096) s1 s2" and c: "\<forall>i < 4096. mem s2 (p + of_nat i) = seg_byte (mem s1) load_addr ?ph (4096 * ?k + i)"
    by blast+
  define s' where "s' = vmm_map_page r (of_nat (4096 * ?k)) p kernel_flags s2"
  from page_added_fill_map [OF wf r room a(1) t] obtain T' where pa: "page_added r (of_nat (4096 * ?k)) p T T' s s'"
    and m': "\<forall>a \<in> region p 4096. mem s' a = mem s2 a" unfolding s'_def by blast
  have "exec_flat_page r (of_nat (4096 * k)) (of_nat sz) s = (True, s')"
    unfolding exec_flat_page_def a(1) Let_def prod.case v flat_copy [OF sz] s2_def [symmetric] s'_def using a(2)
    by simp
  moreover have "loaded r T' s' ?k (seg_byte (mem s) load_addr ?ph)"
  proof -
    have pa': "p \<in> frames s'" "p \<notin> free_frames s'" "p \<notin> dom T'" using pa pt_wf_frame [of s T] wf unfolding page_added_def by auto
    have tr: "translate r (of_nat (4096 * ?k)) s' = Some (p OR kernel_flags)" using pa unfolding page_added_def by simp
    have "mem s1 b = mem s b" if "b \<in> region load_addr sz" for b
      using a(4) [of b] that ap unfolding file_apart_def by blast
    then have "seg_byte (mem s1) load_addr ?ph x = seg_byte (mem s) load_addr ?ph x" for x by (rule seg_byte_cong [OF seg])
    then have "mem s' (p + of_nat i) = seg_byte (mem s) load_addr ?ph (4096 * ?k + i)" if "i < 4096" for i
      using m' c that in_region_offset [of i 4096 p] by simp
    then show ?thesis unfolding loaded_def using pa' tr by blast
  qed
  ultimately show ?thesis using pa by blast
qed

text \<open>The pages of a binary of \<open>sz\<close> bytes.\<close>

definition flat_pages :: "nat \<Rightarrow> nat" where
  "flat_pages sz = (sz + 4095) div 4096"

lemma flat_pages_less: "k < flat_pages sz \<longleftrightarrow> 4096 * k < sz"
  by (auto simp: flat_pages_def)

lemma flat_offset_less:
  assumes "sz < 2 ^ 32" "k \<le> flat_pages sz"
  shows "(of_nat (4096 * k) :: u64) < of_nat sz \<longleftrightarrow> k < flat_pages sz"
proof -
  have "4096 * k < sz + 4096" using assms(2) by (auto simp: flat_pages_def)
  then have "unat (of_nat (4096 * k) :: u64) = 4096 * k" "unat (of_nat sz :: u64) = sz"
    by (intro unat64_of_nat; use assms(1) in simp)+
  then show ?thesis unfolding flat_pages_less word_less_nat_alt by simp
qed

text \<open>A flat binary as a job: address space and size; its pages start at page \<open>0x10000\<close>.\<close>

interpretation flat_page_loader: page_loader "\<lambda>(r, sz). sz < 2 ^ 32" "\<lambda>(r, sz). r" "\<lambda>_. load_addr" "\<lambda>(r, sz). sz"
  "\<lambda>_. 0x10000" "\<lambda>(r, sz). 0x10000 + flat_pages sz" "\<lambda>(r, sz) mem. seg_byte mem load_addr (flat_segment sz)"
  "\<lambda>(r, sz) j. exec_flat_page r (of_nat (4096 * (j - 0x10000))) (of_nat sz)"
  "\<lambda>(r, sz) j. exec_flat_loop r (of_nat (4096 * (j - 0x10000))) (of_nat sz)"
proof (unfold_locales, goal_cases)
  case (1 x)
  then show ?case by (cases x) (simp add: flat_pages_def)
next
  case (2 x s)
  obtain r sz where x: "x = (r, sz)" by (cases x)
  have "\<not> (of_nat (4096 * flat_pages sz) :: u64) < of_nat sz" using 2 flat_offset_less [of sz "flat_pages sz"] by (simp add: x)
  then have "exec_flat_loop r (of_nat (4096 * flat_pages sz)) (of_nat sz) s = Some (True, s)" by (subst exec_flat_loop.simps) simp
  then show ?case by (simp add: x)
next
  case (3 x k s)
  obtain r sz where x: "x = (r, sz)" by (cases x)
  obtain i where i: "k = 0x10000 + i" using 3(2) le_Suc_ex by blast
  have lt: "(of_nat (4096 * i) :: u64) < of_nat sz" using 3 flat_offset_less [of sz i] by (simp add: x i)
  have k: "k - 0x10000 = i" "Suc k - 0x10000 = Suc i" by (simp_all add: i)
  have nx: "of_nat (4096 * i) + PAGE_SIZE = (of_nat (4096 * Suc i) :: u64)" by (simp add: PAGE_SIZE_def)
  show ?case unfolding x prod.case k exec_flat_loop.simps [of r "of_nat (4096 * i)"] nx using lt by simp
next
  case (4 x k T s)
  obtain r sz where x: "x = (r, sz)" by (cases x)
  obtain i where i: "k = 0x10000 + i" using 4(2) le_Suc_ex by blast
  have "4096 * i < sz" using 4(3) by (simp add: x i flat_pages_less)
  then show ?case using 4 exec_flat_page_spec [of s T r sz i] unfolding x i load_inv_def by simp
next
  case (5 x s s')
  then show ?case
    by (cases x) (auto simp: same_file_def intro!: ext seg_byte_cong [OF flat_segment_in_file])
qed

lemma exec_flat_loop_spec:
  assumes sz: "sz < 2 ^ 32" and "k \<le> flat_pages sz" and "load_inv r load_addr sz T s" and "4 * (flat_pages sz - k) \<le> card (free_frames s)"
  shows "\<exists>s' T'. exec_flat_loop r (of_nat (4096 * k)) (of_nat sz) s = Some (True, s') \<and>
    progress r load_addr sz (flat_pages sz - k) {0x10000 + k..<0x10000 + flat_pages sz} T s T' s' \<and>
    (\<forall>j \<in> {0x10000 + k..<0x10000 + flat_pages sz}. loaded r T' s' j (seg_byte (mem s) load_addr (flat_segment sz)))"
  using flat_page_loader.loop_loads [of "(r, sz)" "0x10000 + k" T s] assms by simp

lemma load_inv_video:
  assumes inv: "load_inv r buf n T s" and t: "touches video_window s s'"
  shows "load_inv r buf n T s'" "same_file buf n s s'" "free_frames s' = free_frames s" "translate r w s' = translate r w s"
proof -
  have wf: "pt_wf s T" and r: "T r = Some 0" and ap: "file_apart buf n T s" using inv by (simp_all add: load_inv_def)
  note keep = pt_video [OF wf t]
  show free: "free_frames s' = free_frames s" by (rule keep(2))
  show "load_inv r buf n T s'" using keep(1) r ap by (simp add: load_inv_def file_apart_def free)
  have "mem s' a = mem s a" if "a \<in> region buf n" for a
    by (rule touches_mem [OF t]) (use ap that in \<open>auto simp: file_apart_def\<close>)
  then show "same_file buf n s s'" by (simp add: same_file_def)
  show "translate r w s' = translate r w s" by (rule keep(3) [OF r])
qed

lemma elf_check_file_other:
  assumes "bytes_at buf 4 s \<noteq> [0x7F, of_char (CHR ''E''), of_char (CHR ''L''), of_char (CHR ''F'')]"
  shows "\<not> fst (elf_check_file buf s)"
  using assms by (auto simp: elf_check_file_def read_ehdr_def elf_consts bytes_at_def upt_rec Let_def)

section \<open>Finding the file\<close>

lemma fat_find_file_hit:
  fixes s :: "'a fat_scheme"
  assumes ready: "fs_ready (Suc n) s bs img" and root: "in_root s" and i: "i < root_sectors s"
    and before: "\<forall>j < i. find_scan fn 0 (root_entries img (root_dir_sector s) j) = Inr ScanMore"
    and hit: "find_scan fn 0 (root_entries img (root_dir_sector s) i) = Inr (ScanFound k)"
  obtains s' where "fat_find_file fn s = Some (Inr (Some (root_entries img (root_dir_sector s) i ! k), s'))"
    "fs_ready (Suc n) s' bs img" "touches (idle_mem bs) s s'"
proof -
  have room: "room (Suc n) bs" using ready by (simp add: fs_ready_def)
  from get_buffer [OF ready] obtain p s1 bs1 where 1: "kmalloc 512 s = Some (p, s1)" "buffer_for bs bs1 p s1" "fs_ready n s1 bs1 img"
    "touches (idle_mem bs) s s1" .
  note v = in_root_touches [OF 1(4)]
  obtain s2 where 2: "fat_find_loop fn p 0 s1 = Some (Inr (Some (root_entries img (root_dir_sector s) i ! k), s2))"
    "fs_ready (Suc n) s2 bs img" "touches (idle_mem bs) s1 s2"
    using find_loop_spec [OF 1(2) room, of i s1 fn img k n 0] v i before hit root 1(3) by auto
  have "p \<noteq> 0" using 1(2) by (simp add: buffer_for_def)
  then have "fat_find_file fn s = Some (Inr (Some (root_entries img (root_dir_sector s) i ! k), s2))"
    using 1(1) 2(1) root by (simp add: fat_find_file_def in_root_def)
  then show thesis using 2(2) touches_trans [OF 1(4) 2(3)] by (rule that)
qed

section \<open>Properties\<close>

text \<open>
  C13: The shell runs the command that the first word of the line names: the chain of \<^verbatim>\<open>strcmp\<close> calls in \<^verbatim>\<open>user_input\<close>
  is the lookup of the word in the table of commands. A blank line only prints the prompt, an unknown
  word is reported, and a first word of 32 or more characters overruns the array \<^verbatim>\<open>command[32]\<close>.
\<close>

theorem user_input_selects:
  fixes s :: "'a fat_scheme"
  assumes "terminated input"
  shows "user_input input s =
    (let l = text_of input; w = word_of_line l; offset = length (blanks l) + length w in
     if w = [] then Some (Inr (Return, prompt s))
     else if length w < 32 then
       prompted (case map_of (map (\<lambda>(name, f). (chars name, f)) (commands input offset)) w of
           None \<Rightarrow> sh_unknown input | Some f \<Rightarrow> f) s
     else Some (Inl WriteOutOfBounds))"
  using user_input_eq [OF assms, of s] by (simp add: chosen_def case_prod_unfold Let_def)

text \<open>
  C14: The loop of the \<^verbatim>\<open>exec\<close> command returns on every chain of clusters that ends with an end marker. It puts
  the first sectors of the clusters of the chain one after the other at the target, as many bytes as
  the file has, and changes besides only the sector buffer and free heap memory; the medium stays as it is.
\<close>

theorem exec_loads_chain:
  fixes s :: "'a fat_scheme"
  assumes "buffer_for bs bs1 buf (s0 :: 'a fat_scheme)" and "fs_ready 1 s bs1 img"
    and "fat_chain (fat_table img (fat_start_sector s)) c cs" and "target_apart ptr (unat left) bs"
  shows "\<exists>s'. exec_loop ptr buf c left s = Some (Inr ((), s')) \<and> fs_ready 1 s' bs1 img \<and>
    touches (idle_mem bs \<union> region ptr (unat left)) s s' \<and>
    (\<forall>j < min (unat left) (512 * length cs). mem s' (ptr + of_nat j) = img (sector (fat_lba_of_cluster (cs ! (j div 512)) s)) (j mod 512))"
  using exec_loop_loads [OF assms(1) _ assms(3,4)] assms(2) by (simp only: One_nat_def)

text \<open>
  C39: Every execution of a file that exists overruns the stack: the image is read, then the size is
  printed through \<^verbatim>\<open>size_buf[16]\<close>, which \<^verbatim>\<open>hex_to_ascii\<close> fills with 19 bytes. The file is found in the root directory, its
  chain ends, the heap has room for two buffers, and the image lies apart from the heap and the bitmap.
\<close>

theorem exec_overruns_size_buffer:
  fixes s :: "'a fat_scheme"
  defines "file \<equiv> \<lambda>w. w @ replicate (32 - length w) 0"
  assumes "terminated (drop offset input)" and w: "w = word_of_line (line_rest input offset)" "w \<noteq> []" "length w < 32"
    and ready: "fs_ready 2 s bs img" and root: "in_root s" "i < root_sectors s"
    and before: "\<forall>j < i. find_scan (file w) 0 (root_entries img (root_dir_sector s) j) = Inr ScanMore"
    and hit: "find_scan (file w) 0 (root_entries img (root_dir_sector s) i) = Inr (ScanFound k)"
    and e: "e = root_entries img (root_dir_sector s) i ! k"
    and chain: "fat_chain (fat_table img (fat_start_sector s)) (first_cluster_low e) cs \<or> file_size e = 0"
    and apart: "target_apart 0x4000000 (unat (file_size e)) bs"
  shows "sh_exec input offset s = Some (Inl WriteOutOfBounds)"
proof -
  have "w @ 0 # drop (Suc (length w)) (replicate 32 0) = file w"
    using w(3) unfolding file_def by (simp add: Suc_diff_Suc flip: replicate_Suc)
  then have tok: "\<exists>off'. get_next_token input (replicate 32 0) offset = Inr (True, file w, off')"
    using get_next_token_spec [OF assms(2), of "replicate 32 0"] w by (simp add: Let_def)
  from fat_find_file_hit [OF ready [unfolded numeral_2_eq_2] root before hit] obtain s1 where
    1: "fat_find_file (file w) s = Some (Inr (Some e, s1))" "fs_ready (Suc (Suc 0)) s1 bs img" "touches (idle_mem bs) s s1"
    unfolding e .
  from get_buffer [OF 1(2)] obtain buf s2 bs1 where
    2: "kmalloc 512 s1 = Some (buf, s2)" "buffer_for bs bs1 buf s2" "fs_ready (Suc 0) s2 bs1 img" "touches (idle_mem bs) s1 s2" .
  have fs: "fat_start_sector s2 = fat_start_sector s" using touches_fat_vars(2) 1(3) 2(4) by metis
  have "\<exists>s3. exec_loop load_addr buf (first_cluster_low e) (file_size e) s2 = Some (Inr ((), s3)) \<and> fs_ready (Suc 0) s3 bs1 img"
  proof (cases "file_size e = 0")
    case True
    then show ?thesis using 2(3) by (subst exec_loop.simps) (simp add: kreturn_def)
  next
    case False
    then show ?thesis using exec_loop_loads [OF 2(2,3)] chain apart unfolding load_addr_def fs by blast
  qed
  then obtain s3 where 3: "exec_loop load_addr buf (first_cluster_low e) (file_size e) s2 = Some (Inr ((), s3))"
    "fs_ready (Suc 0) s3 bs1 img" by blast
  from free_buffer [OF 2(2) 3(2), of 0] obtain s4 where 4: "kfree buf s3 = Some s4" by auto
  have "buf \<noteq> 0" using 2(2) by (simp add: buffer_for_def)
  then show ?thesis using tok 1(1) 2(1) 3(1) 4
    by (auto simp: sh_exec_def with_arg_def hex_to_ascii_eq)
qed


section \<open>Witnesses\<close>

theorem user_input_selects_witness:
  "user_input (cstr '' '') fat_machine = Some (Inr (Return, prompt fat_machine)) \<and>
   user_input (cstr '' clear'') fat_machine = prompted sh_clear fat_machine \<and>
   user_input (cstr ''clean'') fat_machine = prompted (sh_unknown (cstr ''clean'')) fat_machine \<and>
   user_input (replicate 32 0x61 @ [0]) fat_machine = Some (Inl WriteOutOfBounds)"
proof (intro conjI)
  show "user_input (cstr '' '') fat_machine = Some (Inr (Return, prompt fat_machine))"
    using user_input_selects [OF terminated_cstr, of "'' ''" fat_machine]
    by (simp add: cstr_def chars_def text_of_def word_of_line_def)
  show "user_input (cstr '' clear'') fat_machine = prompted sh_clear fat_machine"
    using user_input_selects [OF terminated_cstr, of "'' clear''" fat_machine]
    by (simp add: cstr_def chars_def text_of_def word_of_line_def commands_def)
  show "user_input (cstr ''clean'') fat_machine = prompted (sh_unknown (cstr ''clean'')) fat_machine"
    using user_input_selects [OF terminated_cstr, of "''clean''" fat_machine]
    by (simp add: cstr_def chars_def text_of_def word_of_line_def commands_def)
  have "text_of (replicate 32 0x61 @ [0]) = replicate 32 0x61" using text_of_word [of "replicate 32 0x61" "[]"] by simp
  moreover have "word_of_line (replicate 32 0x61) = replicate 32 0x61" by (simp add: word_of_line_def)
  ultimately show "user_input (replicate 32 0x61 @ [0]) fat_machine = Some (Inl WriteOutOfBounds)"
    using user_input_selects [of "replicate 32 0x61 @ [0]" fat_machine] by (simp add: terminated_def Let_def)
qed

text \<open>The volume of \<open>fat_machine\<close> with a file \<^verbatim>\<open>A\<close> of 600 bytes in the clusters 2 and 3.\<close>

definition file_image :: image where
  "file_image lba i =
     (if lba = 2 then (if i < 32 then [0x41, 32, 32, 32, 32, 32, 32, 32, 32, 32, 32, 0x20, 0, 0, 0, 0,
          0, 0, 0, 0, 0, 0, 0, 0, 0, 0, 2, 0, 0x58, 2, 0, 0] ! i else 0)
      else if lba = 4 then of_nat i
      else demo_image lba i)"

definition file_drive :: drive where
  "file_drive = demo_drive\<lparr>image := file_image\<rparr>"

definition file_machine :: fat where
  "file_machine = fat_machine
     \<lparr>dev8 := (\<lambda>h p. if p = ATA_STATUS then drive_status (drive_after 4 file_drive h) else 0),
      dev16 := (\<lambda>h p. if p = ATA_DATA then drive_word (drive_after 4 file_drive h) else 0)\<rparr>"

lemma file_machine_fields:
  "mem file_machine = mem small_heap" "bitmap file_machine = bitmap small_heap" "total_blocks file_machine = total_blocks small_heap"
  "head file_machine = head small_heap" "fat_info file_machine = demo_bpb" "fat_start_sector file_machine = 1"
  "root_dir_sector file_machine = 2" "data_start_sector file_machine = 3"
  "in_root file_machine" "root_sectors file_machine = 1"
  by (simp_all add: file_machine_def fat_machine_fields in_root_def root_sectors_def demo_bpb_def)

lemma file_machine_ready: "fs_ready 3 file_machine [HBlock 0x2000000 4072 True] file_image"
proof -
  have "heap_inv file_machine [HBlock 0x2000000 4072 True]"
    by (rule heap_inv_cong [OF file_machine_fields(1-4) small_heap_inv(1)])
  moreover have "drive_attached 4 file_drive file_machine"
    by (simp add: drive_attached_def file_machine_def fat_machine_def)
  then have "disk_is file_machine file_image"
    unfolding disk_is_def by (intro exI [of _ 4] exI [of _ file_drive]) (simp add: file_drive_def demo_drive_def)
  ultimately show ?thesis using fat_machine_ready by (simp add: fs_ready_def)
qed

lemma file_table: "fat_table file_image 1 2 = 3" "fat_table file_image 1 3 = 0xFFFF"
  by (simp_all add: fat_table_def le16_def file_image_def demo_image_def)

lemma file_chain: "fat_chain (fat_table file_image (fat_start_sector file_machine)) 2 [2, 3]"
  by (simp add: file_machine_fields file_table)

lemma file_target: "target_apart 0x4000000 600 [HBlock 0x2000000 4072 True]"
proof -
  have "region 0x4000000 600 \<inter> video_window = {}" "region 0x4000000 600 \<inter> bitmap_area = {}"
    "region 0x4000000 600 \<inter> region 0x2000000 24 = {}" "region 0x4000000 600 \<inter> region 0x2000000 (24 + 4072) = {}"
    unfolding video_window_def VIDEO_ADDRESS_def bitmap_area_def by (subst Int_commute, rule region_disjointI, simp_all)+
  then show ?thesis by (auto simp: target_apart_def idle_mem_def)
qed

theorem exec_loads_chain_witness:
  "\<exists>buf s1 s'. kmalloc 512 file_machine = Some (buf, s1) \<and> exec_loop 0x4000000 buf 2 600 s1 = Some (Inr ((), s')) \<and>
     mem s' (0x4000000 + of_nat 519) = 7"
proof -
  have "fs_ready (Suc 1) file_machine [HBlock 0x2000000 4072 True] file_image" by (rule fs_ready_mono [OF file_machine_ready]) simp
  from get_buffer [OF this] obtain buf s1 bs1 where 1: "kmalloc 512 file_machine = Some (buf, s1)"
    "buffer_for [HBlock 0x2000000 4072 True] bs1 buf s1" "fs_ready 1 s1 bs1 file_image"
    "touches (idle_mem [HBlock 0x2000000 4072 True]) file_machine s1" .
  note v = touches_fat_vars [OF 1(4)]
  have "fat_chain (fat_table file_image (fat_start_sector s1)) 2 [2, 3]" unfolding v(2) by (rule file_chain)
  from exec_loads_chain [OF 1(2,3) this, of "0x4000000" 600] file_target obtain s' where
    2: "exec_loop 0x4000000 buf 2 600 s1 = Some (Inr ((), s'))"
    "\<forall>j < min 600 1024. mem s' (0x4000000 + of_nat j) = file_image (sector (fat_lba_of_cluster ([2, 3] ! (j div 512)) s1)) (j mod 512)"
    by auto
  have "sector (fat_lba_of_cluster 3 s1) = 4"
    by (simp add: fat_lba_of_cluster_def v file_machine_fields demo_bpb_def)
  then have "mem s' (0x4000000 + of_nat 519) = file_image 4 7" using 2(2) [rule_format, of 519] by simp
  also have "file_image 4 7 = 7" by (simp add: file_image_def)
  finally show ?thesis using 1(1) 2(1) by blast
qed

text \<open>The command line \<^verbatim>\<open>exec a\<close>, after its first word.\<close>

theorem exec_overruns_size_buffer_witness:
  "sh_exec (cstr ''exec a'') 4 file_machine = Some (Inl WriteOutOfBounds)"
proof -
  let ?root = "root_entries file_image (root_dir_sector file_machine) 0" and ?w = "chars ''a''"
  define e where "e = entry_of (file_image 2) 0"
  have e: "e = \<lparr>ent_name = [0x41, 32, 32, 32, 32, 32, 32, 32], ent_ext = [32, 32, 32], attributes = 0x20, ent_reserved = 0,
      create_time_tenth = 0, create_time = 0, create_date = 0, last_access_date = 0, first_cluster_high = 0,
      write_time = 0, write_date = 0, first_cluster_low = 2, file_size = 600\<rparr>"
    by (simp add: e_def entry_of_def Let_def file_image_def upt_rec le16_def le32_def)
  have "[0..<16] = 0 # [1..<16]" by (simp add: upt_rec)
  moreover have "sector (root_dir_sector file_machine) = 2" by (simp add: file_machine_fields)
  ultimately have root: "?root = e # map (entry_of (file_image 2)) [1..<16]"
    by (simp add: root_entries_def sector_entries_def e_def)
  have "text_of (0x41 # [0]) = [0x41]" "text_of (?w @ replicate (32 - length ?w) 0) = [0x61]"
    using text_of_word [of "[0x61]" "replicate 30 0"] by (simp_all add: text_of_def chars_def flip: replicate_Suc)
  moreover have "terminated (?w @ replicate (32 - length ?w) 0)" by (simp add: terminated_def chars_def)
  ultimately have "fat_filename_match (ent_name e) (ent_ext e) (?w @ replicate (32 - length ?w) 0) = Inr True"
    by (simp add: e filename_match_eq stored_text_def upcase_def)
  then have hit: "find_scan (?w @ replicate (32 - length ?w) 0) 0 ?root = Inr (ScanFound 0)"
    by (simp add: root) (simp add: e ATTR_VOLUME_ID_def)
  have "line_rest (cstr ''exec a'') 4 = [32, 0x61]" by (simp add: line_rest_def cstr_def chars_def text_of_def)
  then have w: "?w = word_of_line (line_rest (cstr ''exec a'') 4)" by (simp add: word_of_line_def chars_def)
  have "fs_ready 2 file_machine [HBlock 0x2000000 4072 True] file_image" by (rule fs_ready_mono [OF file_machine_ready]) simp
  from exec_overruns_size_buffer [OF _ w _ _ this file_machine_fields(9) _ _ hit refl, of "[2, 3]"] file_target
  show ?thesis by (simp add: root) (simp add: e file_machine_fields file_table terminated_def cstr_def chars_def)
qed

text \<open>A binary of 5000 bytes at the load address, and an address space with an empty PML4.\<close>

definition flat_machine :: vmm where
  "flat_machine = page_machine\<lparr>mem := (\<lambda>a. if a \<in> region 0x4000000 5000 then 0x90 else mem page_machine a)\<rparr>"

lemma flat_machine_pmm: "pmm_wf flat_machine" "card (free_frames flat_machine) = 512" "total_blocks flat_machine = 8704"
proof -
  have t: "touches (region 0x4000000 5000) page_machine flat_machine" by (simp add: touches_def flat_machine_def)
  have "region 0x4000000 5000 \<inter> bitmap_area = {}"
    unfolding bitmap_area_def by (subst Int_commute, rule region_disjointI, simp_all)
  note f = pmm_frame [OF page_machine_wf t this]
  show "pmm_wf flat_machine" by (rule f(1))
  show "card (free_frames flat_machine) = 512" using f(2) page_machine_free by (simp add: free_frames_def)
  show "total_blocks flat_machine = 8704" by (simp add: flat_machine_def page_machine_def)
qed

lemma flat_machine_apart:
  assumes "a \<in> frames flat_machine"
  shows "region 0x4000000 5000 \<inter> region a 4096 = {}"
proof -
  from assms obtain i where i: "8192 \<le> i" "i < 8704" "a = of_nat (4096 * i)"
    by (auto simp: frames_def flat_machine_pmm BLOCK_SIZE_def mult.commute)
  then have u: "unat a = 4096 * i" by (simp only:) (rule unat64_of_nat, simp)
  show ?thesis by (subst Int_commute, rule region_disjointI) (use i u in simp_all)
qed

definition flat_entry :: fat_dir_entry_t where
  "flat_entry = entry_of (\<lambda>i. if i = 28 then 0x88 else if i = 29 then 0x13 else 0) 0"


end
