(* ===== verification/Boot.thy ===== *)
theory Boot
  imports Isr Shell_Props
begin

unbundle bit_operations_syntax

text \<open>
  The entry point \<^verbatim>\<open>main\<close> of \<^verbatim>\<open>src/kernel/kernel.c\<close>: it installs the interrupt gates, programs the devices,
  initialises the memory managers and the process table, and prints the first prompt. The addresses of the
  interrupt stubs are those of the assembly routines, fixed by the linker. The last loop of \<^verbatim>\<open>main\<close> only
  waits for interrupts.
\<close>

record isr_stubs =
  isr0 :: u64
  isr8 :: u64
  isr13 :: u64
  isr14 :: u64
  irq0 :: u64
  irq1 :: u64
  isr128 :: u64

definition main_gates :: "isr_stubs \<Rightarrow> 'a interrupts_scheme \<Rightarrow> 'a interrupts_scheme" where
  "main_gates st s =
     (let s = set_idt_gate 0 (isr0 st) 0x8e s;
          s = set_idt_gate 8 (isr8 st) 0x8e s;
          s = set_idt_gate 13 (isr13 st) 0x8e s;
          s = set_idt_gate 14 (isr14 st) 0x8e s;
          s = set_idt_gate 32 (irq0 st) 0x8e s;
          s = set_idt_gate 33 (irq1 st) 0x8e s
      in set_idt_gate 128 (isr128 st) 0xee s)"

definition main :: "isr_stubs \<Rightarrow> 'a fat_scheme \<Rightarrow> 'a fat_scheme option" where
  "main st s =
     (let s = kprint_at (chars ''Kernel loaded.'' @ [10]) 0 10 s;
          s = main_gates st s;
          s = set_idt s;
          s = outb 0x20 0x11 s;
          s = pic_remap s;
          s = kprint (chars ''init & remap'' @ [10]) s;
          s = init_gdt s;
          s = init_pmm s;
          s = vmm_init s;
          s = init_kheap s;
          s = init_multitasking s;
          s = outb 0x21 0xfc s
      in map_option prompt (init_timer 50 s))"

section \<open>What the memory managers leave alone\<close>

text \<open>
  The steps of the memory managers write memory and their own variables and print messages: the
  variables of every later component stay as they are, and no port but those of the console is used.
\<close>

definition quiet :: "'a vmm_scheme \<Rightarrow> 'a vmm_scheme \<Rightarrow> bool" where
  "quiet s t \<longleftrightarrow> vmm.more t = vmm.more s \<and> on_ports crtc_ports s t"

lemma quiet_trans: "quiet s t \<Longrightarrow> quiet t u \<Longrightarrow> quiet s u"
  by (auto simp: quiet_def intro: on_ports_trans)

lemma quiet_refl [simp]: "quiet s s"
  by (simp add: quiet_def on_ports_same)

lemma quiet_touches: "touches A s t \<Longrightarrow> on_ports crtc_ports s t \<Longrightarrow> quiet s t"
  using arg_cong [OF touches_eq [of A s t], of vmm.more] by (simp add: quiet_def)

lemma quiet_console [simp]: "quiet s (kprint msg s)" "quiet s (kprint_hex n s)"
  by (rule quiet_touches [OF kprint_touches kprint_ports], rule quiet_touches [OF kprint_hex_touches kprint_hex_ports])

lemma quiet_poke [simp]: "quiet s (poke32 a v s)" "quiet s (poke64 a w s)" "quiet s (memset p c n s)"
  by (simp_all add: quiet_def on_ports_same poke32_def poke64_def memset_def)

lemma quiet_updates [simp]:
  "quiet s (s\<lparr>total_blocks := x\<rparr>)" "quiet s (s\<lparr>bitmap_size := x\<rparr>)" "quiet s (s\<lparr>bitmap := x\<rparr>)" "quiet s (s\<lparr>head := x\<rparr>)"
  "quiet s (s\<lparr>kernel_pml4 := x\<rparr>)" "quiet s (vmm_switch_pml4 x s)" "quiet s (invlpg v s)"
  by (simp_all add: quiet_def on_ports_same vmm_switch_pml4_def load_cr3_def invlpg_def)

lemma quiet_fold: "(\<And>x s. quiet s (f x s)) \<Longrightarrow> quiet s (fold f xs s)"
  by (induction xs arbitrary: s) (auto intro: quiet_trans)

lemma quiet_bits [simp]: "quiet s (SET_BIT i s)" "quiet s (CLEAR_BIT i s)"
  by (simp_all add: SET_BIT_def CLEAR_BIT_def Let_def)

text \<open>The last step of a sequence.\<close>

lemmas quiet_steps =
  quiet_trans [OF _ quiet_console(1)] quiet_trans [OF _ quiet_console(2)] quiet_trans [OF _ quiet_poke(1)]
  quiet_trans [OF _ quiet_poke(2)] quiet_trans [OF _ quiet_poke(3)] quiet_trans [OF _ quiet_updates(2)]
  quiet_trans [OF _ quiet_updates(3)] quiet_trans [OF _ quiet_updates(4)] quiet_trans [OF _ quiet_updates(5)]
  quiet_trans [OF _ quiet_updates(6)] quiet_trans [OF _ quiet_updates(7)] quiet_trans [OF _ quiet_fold]

lemma quiet_alloc: "pmm_alloc_block s = (p, t) \<Longrightarrow> quiet s t"
  by (auto simp: pmm_alloc_block_def Let_def split: option.splits intro!: quiet_steps(1,2))

lemma quiet_init_pmm: "quiet s (init_pmm s)"
  unfolding init_pmm_def Let_def release_usable_def clear_blocks_def
  by (intro quiet_steps) (auto intro: quiet_fold)

lemma quiet_next_table: "next_table t i s = (r, u) \<Longrightarrow> quiet s u"
  by (auto simp: next_table_def Let_def set_entry_def split: prod.splits if_splits dest!: quiet_alloc intro!: quiet_steps(4,5))

lemma quiet_map_page: "quiet s (vmm_map_page r v p f s)"
  unfolding vmm_map_page_def Let_def set_entry_def
  by (auto split: prod.split option.split dest!: quiet_next_table intro!: quiet_steps(4,11) intro: quiet_trans)

lemma quiet_vmm_init: "quiet s (vmm_init s)"
proof -
  obtain p s1 where a: "pmm_alloc_block s = (p, s1)" by force
  show ?thesis
    unfolding vmm_init_def identity_map_def Let_def a prod.case
    by (intro quiet_steps quiet_map_page quiet_alloc [OF a])
qed

lemma quiet_init_kheap: "quiet s (init_kheap s)"
proof -
  obtain p s1 where a: "pmm_alloc_block s = (p, s1)" by force
  have h: "quiet t (set_free q v t)" "quiet t (set_size q w t)" "quiet t (set_next q w t)" for t q v w
    by (simp_all add: set_free_def set_size_def set_next_def) (simp add: quiet_def poke_def on_ports_same)
  show ?thesis
    unfolding init_kheap_def Let_def a prod.case
    by (cases "p = 0")
      (simp_all only: if_True if_False simp_thms,
       (intro quiet_steps quiet_alloc [OF a] quiet_trans [OF _ h(1)] quiet_trans [OF _ h(2)] quiet_trans [OF _ h(3)])+)
qed

section \<open>The memory map at boot\<close>

text \<open>A map of at most 1000 entries ends below the screen, so messages do not change it.\<close>

lemma boot_load:
  assumes "\<And>a. a \<notin> video_window \<Longrightarrow> mem t a = mem s a" and "k + m \<le> 24004"
  shows "(load (mem t) (0x5000 + of_nat k) m :: 'b::len word) = load (mem s) (0x5000 + of_nat k) m"
proof (rule load_cong_region)
  have v: "region 0x5000 24004 \<inter> video_window = {}"
    unfolding video_window_def VIDEO_ADDRESS_def by (rule region_disjointI) simp_all
  have "region (0x5000 + of_nat k) m \<subseteq> region (0x5000 :: u64) 24004" using assms(2) by (intro region_sub) simp_all
  then show "mem t a = mem s a" if "a \<in> region (0x5000 + of_nat k) m" for a using assms(1) v that by blast
qed (use assms(2) in simp)

lemma boot_map:
  assumes t: "\<And>a. a \<notin> video_window \<Longrightarrow> mem t a = mem s a" and n: "e820_count s \<le> 1000"
  shows "e820_count t = e820_count s" and "i < 1000 \<Longrightarrow> e820_entry t i = e820_entry s i"
    and "max_usable t = max_usable s" and "usable_block t j = usable_block s j"
proof -
  note r = boot_load [OF t]
  show c: "e820_count t = e820_count s" using r [of 0 2, where 'b = 16] by (simp add: e820_count_def read16_def)
  show e: "e820_entry t i = e820_entry s i" if "i < 1000" for i
  proof -
    have l: "(load (mem t) (0x5004 + 24 * of_nat i) 8 :: u64) = load (mem s) (0x5004 + 24 * of_nat i) 8"
      "(load (mem t) (0x500C + 24 * of_nat i) 8 :: u64) = load (mem s) (0x500C + 24 * of_nat i) 8"
      "(load (mem t) (0x5014 + 24 * of_nat i) 4 :: u32) = load (mem s) (0x5014 + 24 * of_nat i) 4"
      "(load (mem t) (0x5018 + 24 * of_nat i) 4 :: u32) = load (mem s) (0x5018 + 24 * of_nat i) 4"
      using r [of "4 + 24 * i" 8, where 'b = 64] r [of "12 + 24 * i" 8, where 'b = 64] r [of "20 + 24 * i" 4, where 'b = 32]
        r [of "24 + 24 * i" 4, where 'b = 32] \<open>i < 1000\<close> by simp_all
    then show ?thesis
      by (simp add: e820_entry_def Let_def read64_def read32_def add.commute)
  qed
  show "max_usable t = max_usable s"
    unfolding max_usable_def c by (rule fold_cong) (use e n in auto)
  show "usable_block t j = usable_block s j" unfolding usable_block_def c using e n by (metis order_less_le_trans)
qed

text \<open>The first message goes to a fixed place of the screen.\<close>

lemma print_char_at_touches:
  assumes "0 \<le> col" "col < 1000" "0 \<le> row" "row < 25"
  shows "touches video_window s (print_char c col row b s)"
proof -
  have o: "0 \<le> (row * MAX_COLS + col) * 2" "(row * MAX_COLS + col) * 2 + 1 < 131072" using assms by (simp_all add: MAX_COLS_def)
  have poke: "touches video_window t (vid_poke o' v t)" if "0 \<le> o'" "o' < 131072" for o' v t
    unfolding video_window_def using that by (intro touches_vid_poke) auto
  have scroll: "touches video_window t (blank_last_row a (scroll_rows t))" for a t
    by (meson touches_blank_last_row touches_scroll_rows touches_trans touches_mono visible_in_window)
  obtain off s1 where 1: "get_cursor_offset s = (off, s1)" by force
  have pp: "touches video_window t (vid_poke (row * MAX_COLS * 2 + col * 2 + 1) a (vid_poke (row * MAX_COLS * 2 + col * 2) c t))" for a t
    using o by (intro touches_trans [OF poke poke]) (auto simp: distrib_right)
  show ?thesis
    using assms(1,3) get_cursor_offset_facts(4) [OF 1]
    by (auto simp: print_char_def Let_def 1 intro!: touches_trans [OF _ touches_set_cursor] touches_trans [OF _ scroll] pp)
qed

lemma kprint_at_touches:
  assumes "0 \<le> col" "col + int (length msg) < 1000" "0 \<le> row" "row < 25"
  shows "touches video_window s (kprint_at msg col row s)"
proof -
  have "touches video_window s (kprint_loop msg col row s)" if "0 \<le> col" "col + int (length msg) < 1000" for col s
    using that
  proof (induction msg arbitrary: col s)
    case (Cons c msg)
    have "touches video_window s (print_char c col row WHITE_ON_BLACK s)" by (rule print_char_at_touches) (use Cons.prems assms in auto)
    with Cons show ?case by (auto intro: touches_trans)
  qed simp
  then show ?thesis using assms by (auto simp: kprint_at_def intro: touches_trans [OF touches_set_cursor])
qed

lemma kprint_at_ports: "on_ports crtc_ports s (kprint_at msg col row s)"
proof -
  have "on_ports crtc_ports s (kprint_loop msg col row s)" for col row s
    by (induction msg col row s rule: kprint_loop.induct)
      (auto intro: on_ports_trans print_char_ports on_ports_same)
  then show ?thesis unfolding kprint_at_def by (auto intro: on_ports_trans [OF on_ports_cursor(1)])
qed

section \<open>The stages of the boot\<close>

text \<open>Up to the memory managers: gates, interrupt controllers and segments; of memory only the screen.\<close>

definition before_memory :: "isr_stubs \<Rightarrow> 'a fat_scheme \<Rightarrow> 'a fat_scheme" where
  "before_memory st s =
     init_gdt (kprint (chars ''init & remap'' @ [10]) (pic_remap (outb 0x20 0x11 (set_idt (main_gates st
       (kprint_at (chars ''Kernel loaded.'' @ [10]) 0 10 s))))))"

lemma init_gdt_keeps:
  fixes s :: "'a fat_scheme"
  shows "mem (init_gdt s) = mem s" "io (init_gdt s) = io s" "idt (init_gdt s) = idt s" "idtr (init_gdt s) = idtr s"
    "processes (init_gdt s) = processes s"
  by (simp_all add: init_gdt_def Let_def gdt_flush_def tss_flush_def set_gdt_gate_def set_tss_gate_def)

lemma pic_remap_touches: "touches A s (pic_remap s)"
  unfolding pic_remap_def Let_def
  by (simp add: split_beta) (intro touches_trans [OF _ touches_outb] touches_trans [OF _ touches_inb] touches_inb)

lemma touches_idt:
  fixes s :: "'a fat_scheme"
  assumes "touches A s t"
  shows "idt t = idt s" "idtr t = idtr s" "processes t = processes s" "idt_addr t = idt_addr s"
  using arg_cong [OF touches_eq [OF assms], of idt] arg_cong [OF touches_eq [OF assms], of idtr]
    arg_cong [OF touches_eq [OF assms], of processes] arg_cong [OF touches_eq [OF assms], of idt_addr] by simp_all

lemma gates_keep:
  fixes s :: "'a fat_scheme"
  shows "mem (set_idt (main_gates st s)) = mem s" "io (set_idt (main_gates st s)) = io s"
    "processes (set_idt (main_gates st s)) = processes s"
    "idtr (set_idt (main_gates st s)) = \<lparr>idt_limit = 4095, idt_base = idt_addr s\<rparr>"
  by (simp_all add: set_idt_def main_gates_def set_idt_gate_def Let_def IDT_ENTRIES_def sizeof_idt_gate_def)

definition gate_ok :: "idt_gate_t \<Rightarrow> u64 \<Rightarrow> u8 \<Rightarrow> bool" where
  "gate_ok g handler flags \<longleftrightarrow> gate_offset g = handler \<and> idt_sel g = 0x08 \<and> idt_flags g = flags"

definition gates_ok :: "isr_stubs \<Rightarrow> 'a interrupts_scheme \<Rightarrow> bool" where
  "gates_ok st s \<longleftrightarrow> gate_ok (idt s ! 0) (isr0 st) 0x8e \<and> gate_ok (idt s ! 8) (isr8 st) 0x8e \<and> gate_ok (idt s ! 13) (isr13 st) 0x8e \<and>
     gate_ok (idt s ! 14) (isr14 st) 0x8e \<and> gate_ok (idt s ! 32) (irq0 st) 0x8e \<and> gate_ok (idt s ! 33) (irq1 st) 0x8e \<and>
     gate_ok (idt s ! 128) (isr128 st) 0xee"

lemma main_gates_ok: "length (idt s) = 256 \<Longrightarrow> gates_ok st (set_idt (main_gates st s))"
  by (simp add: gates_ok_def gate_ok_def set_idt_def main_gates_def set_idt_gate_def Let_def gate_offset_def gate_offset_handler)

lemma before_memory_facts:
  fixes s :: "'a fat_scheme"
  assumes "length (idt s) = 256" and t: "t = before_memory st s"
  shows "a \<notin> video_window \<Longrightarrow> mem t a = mem s a" and "gates_ok st t" and "processes t = processes s"
    and "idtr t = \<lparr>idt_limit = 4095, idt_base = idt_addr s\<rparr>"
proof -
  define s0 where "s0 = kprint_at (chars ''Kernel loaded.'' @ [10]) 0 10 s"
  define s1 where "s1 = set_idt (main_gates st s0)"
  define s3 where "s3 = kprint (chars ''init & remap'' @ [10]) (pic_remap (outb 0x20 0x11 s1))"
  have t0: "touches video_window s s0" unfolding s0_def by (rule kprint_at_touches) (simp_all add: chars_def)
  have t3: "touches video_window s1 s3"
    unfolding s3_def by (intro touches_trans [OF touches_trans [OF touches_outb pic_remap_touches] kprint_touches])
  have e: "t = init_gdt s3" by (simp add: t before_memory_def s0_def s1_def s3_def)
  show "mem t a = mem s a" if "a \<notin> video_window"
    using touches_mem [OF t0 that] touches_mem [OF t3 that] by (simp add: e init_gdt_keeps s1_def gates_keep)
  have "gates_ok st s1" unfolding s1_def by (rule main_gates_ok) (simp add: touches_idt [OF t0] assms(1))
  then show "gates_ok st t" by (simp add: gates_ok_def e init_gdt_keeps touches_idt [OF t3])
  show "processes t = processes s" "idtr t = \<lparr>idt_limit = 4095, idt_base = idt_addr s\<rparr>"
    by (simp_all add: e init_gdt_keeps touches_idt [OF t3] s1_def gates_keep touches_idt [OF t0])
qed

text \<open>The heap takes a frame that is no table.\<close>

lemma init_kheap_tables:
  assumes wf: "pt_wf s T" and ne: "free_frames s \<noteq> {}"
  shows "pt_wf (init_kheap s) T" and "T r = Some 0 \<Longrightarrow> translate r v (init_kheap s) = translate r v s"
    and "kernel_pml4 (init_kheap s) = kernel_pml4 s" and "cr3 (init_kheap s) = cr3 s"
    and "of_nat (4096 * first_free s) \<notin> dom T"
proof -
  note pmm = pt_wf_pmm [OF wf]
  obtain p s1 where p: "pmm_alloc_block s = (p, s1)" "p \<noteq> 0" "p \<in> free_frames s" "p \<in> frames s"
    "pmm_wf s1" "frames s1 = frames s" "free_frames s1 = free_frames s - {p}" "touches bitmap_area s s1"
    by (rule alloc_frame [OF pmm ne])
  have sub1: "free_frames s1 \<subseteq> free_frames s" using p(7) by blast
  note a = alloc_tables [OF wf p(8,5,6) sub1]
  define s2 where "s2 = s1\<lparr>head := p\<rparr>"
  note h = pt_wf_same [of s2 s1] 
  define s3 where "s3 = set_free p 1 (set_size p (BLOCK_SIZE - HEADER_SIZE) (set_next p 0 s2))"
  have sub: "region p 8 \<subseteq> region p 4096" "region (p + 8) 8 \<subseteq> region p 4096" "p + 16 \<in> region p 4096"
    using region_sub [of 0 8 4096 p] region_sub [of 8 8 4096 p] in_region_offset [of 16 4096 p] by simp_all
  have t3: "touches (region p 4096) s2 s3"
    unfolding s3_def set_free_def set_size_def set_next_def using sub
    by (intro touches_trans [OF touches_trans [OF touches_poke64 touches_poke64] touches_poke]) simp_all
  have wf2: "pt_wf s2 T" and tr2: "translate r v s2 = translate r v s1" for r v
    using h a(1) by (simp_all add: s2_def)
  have nd: "p \<notin> dom T" using pt_wf_frame [OF wf] p(3) by auto
  have fr2: "frames s2 = frames s" using p(6) by (simp add: s2_def frames_def)
  note f = fill_tables [OF wf2 t3 _ nd, unfolded fr2, OF p(4)]
  have e: "init_kheap s = kprint (chars ''HEAP Initialized.'' @ [10]) s3"
    using p(1,2) by (simp add: init_kheap_def s3_def s2_def set_next_def set_size_def set_free_def poke64_def poke_def)
  note v = pt_video [OF f(1) kprint_touches]
  show "pt_wf (init_kheap s) T" unfolding e by (rule v(1))
  show "translate r v (init_kheap s) = translate r v s" if "T r = Some 0"
    unfolding e v(3) [OF that] f(2) [OF that] tr2 a(2) [OF that] ..
  have t: "kernel_pml4 s3 = kernel_pml4 s" "cr3 s3 = cr3 s"
    using touches_vmm [OF t3] touches_vmm [OF p(8)] by (simp_all add: s2_def)
  show "kernel_pml4 (init_kheap s) = kernel_pml4 s" "cr3 (init_kheap s) = cr3 s"
    unfolding e by (simp_all add: t touches_vmm [OF kprint_touches])
  have "free_blocks s \<noteq> {}" using ne by (simp add: free_frames_def)
  then have "p = of_nat (4096 * first_free s)" using pmm_alloc_Some(1) [OF pmm] p(1) by (simp add: BLOCK_SIZE_def)
  then show "of_nat (4096 * first_free s) \<notin> dom T" using nd by simp
qed

text \<open>The three memory managers, one after the other.\<close>

lemma memory_stage:
  assumes big: "unat (max_usable s) div 4096 \<le> max_blocks"
    and room: "260 \<le> card {i. 8192 \<le> i \<and> i < 8 * (unat (max_usable s) div 4096 div 8) \<and> usable_block s i}"
    and t: "t = init_kheap (vmm_init (init_pmm s))"
  shows "\<exists>T a. pt_wf t T \<and> T (kernel_pml4 t) = Some 0 \<and> cr3 t = kernel_pml4 t \<and> identity_mapped (kernel_pml4 t) (2 ^ 17) t \<and>
    heap_inv t [HBlock a 4072 True] \<and> of_nat a \<notin> dom T"
proof -
  define s5 where "s5 = init_pmm s"
  define s6 where "s6 = vmm_init s5"
  let ?A = "{i. 8192 \<le> i \<and> i < 8 * (unat (max_usable s) div 4096 div 8) \<and> usable_block s i}"
  have wf5: "pmm_wf s5" using big by (simp add: pmm_wf_def init_pmm_spec s5_def)
  have lt: "i < 2 ^ 51" if "i \<in> ?A" for i
  proof -
    have "i < 8 * (unat (max_usable s) div 4096 div 8)" using that by blast
    also have "\<dots> \<le> unat (max_usable s) div 4096" by (rule times_div_less_eq_dividend)
    also have "\<dots> \<le> max_blocks" by (rule big)
    finally show ?thesis by (simp add: max_blocks_def)
  qed
  have "i \<in> free_blocks s5" if i: "i \<in> ?A" for i
  proof -
    have i64: "i < 2 ^ 64" using lt [OF i] by simp
    have "i < unat (total_blocks s5)" using i unfolding s5_def init_pmm_spec(2) by auto
    moreover have "\<not> block_used s5 i" using i unfolding s5_def init_pmm_spec(3) [OF i64] by simp
    ultimately show ?thesis by (simp add: free_blocks_def)
  qed
  then have "?A \<subseteq> free_blocks s5" by blast
  then have sub: "(\<lambda>i. of_nat i * BLOCK_SIZE) ` ?A \<subseteq> free_frames s5" by (auto simp: free_frames_def)
  have "inj_on (\<lambda>i. of_nat i * BLOCK_SIZE :: u64) ?A" 
  proof (rule inj_onI)
    fix i j assume i: "i \<in> ?A" and j: "j \<in> ?A" and eq: "(of_nat i * BLOCK_SIZE :: u64) = of_nat j * BLOCK_SIZE"
    have "i < 2 ^ 52" "j < 2 ^ 52" using lt [OF i] lt [OF j] by simp_all
    then show "i = j" using frame_addr_inj eq by blast
  qed
  then have "card ?A \<le> card (free_frames s5)"
    using card_mono [OF page_frames.avail_finite [OF wf5] sub] by (simp add: card_image)
  with room have c5: "260 \<le> card (free_frames s5)" by linarith
  then obtain T where T: "pt_wf s6 T" "T (kernel_pml4 s6) = Some 0" "identity_mapped (kernel_pml4 s6) (2 ^ 17) s6"
    "card (free_frames s5) \<le> card (free_frames s6) + 259" "cr3 s6 = kernel_pml4 s6"
    using vmm_init_spec [OF wf5] unfolding s6_def by auto
  then have ne: "free_frames s6 \<noteq> {}" using c5 by auto
  note k = init_kheap_tables [OF T(1) ne]
  have t': "t = init_kheap s6" by (simp add: t s6_def s5_def)
  have "free_blocks s6 \<noteq> {}" using ne by (simp add: free_frames_def)
  then have "heap_inv t [HBlock (4096 * first_free s6) 4072 True]"
    using init_kheap_one_block [OF pt_wf_pmm [OF T(1)]] by (simp add: t')
  moreover have "identity_mapped (kernel_pml4 t) (2 ^ 17) t"
    using T(3) k(2) [OF T(2)] by (simp add: identity_mapped_def t' k(3))
  ultimately show ?thesis using k(1,3,4,5) T(2,5) unfolding t' by (intro exI [of _ T] exI [of _ "4096 * first_free s6"]) auto
qed

text \<open>The process table is the only thing that \<^verbatim>\<open>init_multitasking\<close> changes besides the screen.\<close>

lemma same_interrupts:
  assumes "interrupts.truncate t = interrupts.truncate s"
  shows "mem t = mem s" "io t = io s" "bitmap t = bitmap s" "total_blocks t = total_blocks s" "head t = head s"
    "kernel_pml4 t = kernel_pml4 s" "cr3 t = cr3 s" "idt t = idt s" "idtr t = idtr s"
  using assms by (simp_all add: interrupts.truncate_def)

lemma truncate_set_proc: "interrupts.truncate (set_proc i f s) = interrupts.truncate s"
  by (simp add: set_proc_def interrupts.truncate_def)

lemma truncate_fold: "interrupts.truncate (fold (\<lambda>i. set_proc i f) is s) = interrupts.truncate s"
  by (induction "is" arbitrary: s) (simp_all add: truncate_set_proc)

lemma init_multitasking_parts:
  obtains t where "init_multitasking s = kprint (chars ''Multitasking Initialized.'' @ [10]) t"
    "interrupts.truncate t = interrupts.truncate s"
proof
  let ?t = "(set_proc 0 (\<lambda>p. p\<lparr>proc_state := PROCESS_RUNNING\<rparr>) (set_proc 0 (\<lambda>p. p\<lparr>pid := 0\<rparr>)
     (fold (\<lambda>i. set_proc i (\<lambda>p. p\<lparr>proc_state := PROCESS_WAITING\<rparr>)) [0..MAX_PROCESSES - 1] s)))\<lparr>process_count := 1, current_pid := 0\<rparr>"
  show "init_multitasking s = kprint (chars ''Multitasking Initialized.'' @ [10]) ?t"
    by (simp add: init_multitasking_def Let_def)
  have "interrupts.truncate (u\<lparr>process_count := 1, current_pid := 0\<rparr>) = interrupts.truncate u" for u :: "'a process_scheme"
    by (simp add: interrupts.truncate_def)
  then show "interrupts.truncate ?t = interrupts.truncate s" by (simp add: truncate_set_proc truncate_fold)
qed

text \<open>The variables of the components above the memory managers after a step of those.\<close>

lemma quiet_vars:
  fixes s :: "'a fat_scheme"
  assumes "quiet s t"
  shows "idt t = idt s" "idtr t = idtr s" "processes t = processes s"
proof -
  have "vmm.more t = vmm.more s" using assms by (simp add: quiet_def)
  then show "idt t = idt s" "idtr t = idtr s" "processes t = processes s"
    by (cases s; cases t; simp)+
qed

text \<open>The last steps: the mask of the first controller, the timer and the prompt.\<close>

definition after_memory :: "'a fat_scheme \<Rightarrow> 'a fat_scheme option" where
  "after_memory s = map_option prompt (init_timer 50 (outb 0x21 0xfc (init_multitasking s)))"

lemma main_stages: "main st s = after_memory (init_kheap (vmm_init (init_pmm (before_memory st s))))"
  by (simp add: main_def before_memory_def after_memory_def Let_def)

lemma after_memory_facts:
  fixes s :: "'a fat_scheme"
  assumes "length (processes s) = 16"
  shows "\<exists>t h h'. after_memory s = Some t \<and> proc_wf t \<and> process_count t = 1 \<and> (\<forall>T. pt_wf s T \<longrightarrow> pt_wf t T) \<and>
    (\<forall>T r v. pt_wf s T \<longrightarrow> T r = Some 0 \<longrightarrow> translate r v t = translate r v s) \<and> (\<forall>bs. heap_inv s bs \<longrightarrow> heap_inv t bs) \<and>
    kernel_pml4 t = kernel_pml4 s \<and> cr3 t = cr3 s \<and> idt t = idt s \<and> idtr t = idtr s \<and>
    io t = h @ OutB 0x21 0xfc # h' @ io s \<and> (\<forall>e \<in> set h' \<union> set h. event_port e \<in> crtc_ports \<union> {0x40, 0x43})"
proof -
  define s1 where "s1 = init_multitasking s"
  obtain u where u: "s1 = kprint (chars ''Multitasking Initialized.'' @ [10]) u" "interrupts.truncate u = interrupts.truncate s"
    unfolding s1_def by (rule init_multitasking_parts)
  note su = same_interrupts [OF u(2)]
  obtain v where v: "init_timer 50 (outb 0x21 0xfc s1) = Some v" "touches video_window s1 v"
    "on_ports (crtc_ports \<union> {0x40, 0x43}) (outb 0x21 0xfc s1) v"
  proof -
    let ?o = "\<lambda>a b. outb 0x40 a (outb 0x40 b (outb 0x43 0x36 (outb 0x21 0xfc s1)))"
    have t: "touches video_window s1 (kprint m (?o a b))" for m a b
      by (meson kprint_touches touches_outb touches_trans)
    have o: "on_ports (crtc_ports \<union> {0x40, 0x43}) (outb 0x21 0xfc s1) (kprint m (?o a b))" for m a b
      by (intro on_ports_trans [OF _ on_ports_mono [OF kprint_ports]] on_ports_trans [OF _ on_ports_io(1)] on_ports_io(1)) auto
    show thesis using that [OF _ t o] by (simp add: init_timer_def Let_def)
  qed
  define t where "t = prompt v"
  have tt: "touches video_window s1 t" unfolding t_def by (rule touches_trans [OF v(2) prompt_touches])
  have tu: "touches video_window u t" using kprint_touches [of u] tt unfolding u(1) by (rule touches_trans)
  have run: "after_memory s = Some t" by (simp add: after_memory_def s1_def [symmetric] v(1) t_def)
  have "proc_wf t" "process_count t = 1"
    using init_multitasking_wf [OF assms, folded s1_def] proc_wf_touches [OF tt] touches_process_vars [OF tt] by simp_all
  moreover have "on_ports (crtc_ports \<union> {0x40, 0x43}) v t"
    unfolding t_def prompt_def by (intro on_ports_mono [OF on_ports_trans [OF on_ports_trans [OF kprint_ports kprint_ports] kprint_ports]]) auto
  then obtain h where h: "io t = h @ io (outb 0x21 0xfc s1)" "\<forall>e \<in> set h. event_port e \<in> crtc_ports \<union> {0x40, 0x43}"
    using on_ports_trans [OF v(3)] unfolding on_ports_def by blast
  moreover obtain h' where h': "io s1 = h' @ io s" "\<forall>e \<in> set h'. event_port e \<in> crtc_ports"
    using kprint_ports [of u] unfolding on_ports_def u(1) su(2) by blast
  moreover have "io t = h @ OutB 0x21 0xfc # h' @ io s" using h(1) h'(1) by (simp add: outb_def)
  moreover have "pt_wf t T" if "pt_wf s T" for T
    by (rule pt_video(1) [OF _ tu]) (use that pt_wf_same(1) [OF su(1,3,4)] in simp)
  moreover have "translate r w t = translate r w s" if "pt_wf s T" "T r = Some 0" for T r w
  proof -
    have "pt_wf u T" using that(1) pt_wf_same(1) [OF su(1,3,4)] by simp
    from pt_video(3) [OF this tu that(2)] show ?thesis using pt_wf_same(2) [OF su(1,3,4)] by simp
  qed
  moreover have "heap_inv t bs" if "heap_inv s bs" for bs
    by (rule heap_inv_video [OF heap_inv_cong [OF su(1,3,4,5) that] tu])
  moreover have "kernel_pml4 t = kernel_pml4 s" "cr3 t = cr3 s" "idt t = idt s" "idtr t = idtr s"
    using touches_vmm [OF tu] touches_idt [OF tu] su by simp_all
  ultimately show ?thesis using run
    by (intro exI [of _ t] exI [of _ h] exI [of _ h']) auto
qed

section \<open>The interrupt controllers\<close>

lemma pic_state_append: "pic_state c d p (h @ h') = pic_state c d (pic_state c d p h') h"
proof (induction h)
  case (Cons e h)
  then show ?case by (cases e) (simp_all add: Let_def)
qed simp

lemma pic_state_other: "(\<And>e. e \<in> set h \<Longrightarrow> event_port e \<notin> {c, d}) \<Longrightarrow> pic_state c d p h = p"
proof (induction h)
  case (Cons e h)
  then have "pic_state c d p h = p" "event_port e \<noteq> c" "event_port e \<noteq> d" by force+
  then show ?case by (cases e) simp_all
qed simp

text \<open>The programmed state of a controller.\<close>

definition pic_ready :: "u8 \<Rightarrow> u8 \<Rightarrow> u8 \<Rightarrow> pic \<Rightarrow> bool" where
  "pic_ready vector cascade msk p \<longleftrightarrow> pic_vector p = vector \<and> pic_cascade p = cascade \<and> pic_mode p = 0x01 \<and> pic_mask p = msk \<and>
     pic_phase p = PicReady"

lemma before_memory_pics:
  fixes s :: "'a fat_scheme"
  shows "\<exists>h. io (before_memory st s) = h @ io s \<and> pic_ready 0x20 0x04 0xff (pic_state PIC1_COMMAND PIC1_DATA p h) \<and>
    pic_ready 0x28 0x02 0xff (pic_state PIC2_COMMAND PIC2_DATA q h)"
proof -
  define s0 where "s0 = kprint_at (chars ''Kernel loaded.'' @ [10]) 0 10 s"
  define s1 where "s1 = outb 0x20 0x11 (set_idt (main_gates st s0))"
  define s3 where "s3 = kprint (chars ''init & remap'' @ [10]) (pic_remap s1)"
  obtain k0 where k0: "io s0 = k0 @ io s" using kprint_at_ports [of s] unfolding s0_def on_ports_def by blast
  obtain k where k: "io s3 = k @ io (pic_remap s1)" "\<forall>e \<in> set k. event_port e \<in> crtc_ports"
    using kprint_ports unfolding s3_def on_ports_def by blast
  let ?k1 = "OutB 0x20 0x11 # k0"
  obtain m where m: "io (pic_remap s1) = m @ io s1"
    "pic_ready 0x20 0x04 0xff (pic_state PIC1_COMMAND PIC1_DATA (pic_state PIC1_COMMAND PIC1_DATA p ?k1) m)"
    "pic_ready 0x28 0x02 0xff (pic_state PIC2_COMMAND PIC2_DATA (pic_state PIC2_COMMAND PIC2_DATA q ?k1) m)"
    using pic_remap_programs_controllers [of s1 "pic_state PIC1_COMMAND PIC1_DATA p ?k1" "pic_state PIC2_COMMAND PIC2_DATA q ?k1"]
    unfolding pic_ready_def Let_def by blast
  have "io (before_memory st s) = io s3" unfolding before_memory_def s3_def s1_def s0_def by (rule init_gdt_keeps)
  also have "\<dots> = (k @ m @ ?k1) @ io s" using k(1) m(1) k0 by (simp add: s1_def outb_def gates_keep)
  finally have io: "io (before_memory st s) = (k @ m @ ?k1) @ io s" .
  have "pic_state PIC1_COMMAND PIC1_DATA x k = x" "pic_state PIC2_COMMAND PIC2_DATA x k = x" for x
    by (rule pic_state_other; use k(2) in \<open>force simp: screen_consts PIC1_COMMAND_def PIC1_DATA_def PIC2_COMMAND_def PIC2_DATA_def\<close>)+
  then show ?thesis using m(2,3) io
    by (intro exI [of _ "k @ m @ ?k1"]) (simp only: pic_state_append [of _ _ _ k] pic_state_append [of _ _ _ m] simp_thms)
qed

section \<open>The first frame of a process\<close>

lemma schedule_mem:
  assumes "proc_wf s" and "schedule r s = Some (x, s')"
  shows "mem s' = mem s"
proof -
  let ?t = "schedule_save r s"
  have i: "0 \<le> successor ?t" "successor ?t < 16"
    using successor_range [OF assms(1), where r = r] assms(1) by (auto simp: proc_wf_def MAX_PROCESSES_def)
  have "mem ?t = mem s" by (simp add: schedule_save_def Let_def set_proc_def)
  moreover have "s' = snd (schedule_switch (successor ?t) ?t)" using schedule_eq [OF assms(1), of r] assms(2) by (metis option.inject snd_conv)
  ultimately show ?thesis using schedule_switch_facts(8) [OF i schedule_save_facts(3) [OF assms(1)]] by simp
qed

lemma first_frame_regs:
  assumes "holds_words a (first_frame entry c sp d) s"
  shows "read_regs a s =
    \<lparr>ds = 0, rax = 0, rbx = 0, rcx = 0, rdx = 0, rbp = 0, rsi = 0, rdi = 0, r8 = 0, r9 = 0, r10 = 0, r11 = 0, r12 = 0, r13 = 0,
     r14 = 0, r15 = 0, int_no = 0, err_code = 0, rip = entry, cs = c, rflags = 0x202, rsp = sp, ss = d\<rparr>"
proof -
  have f: "read64 (mem s) (a + of_nat (8 * i)) = (replicate 18 0 @ [entry, c, 0x202, sp, d]) ! i" if "i < 23" for i
    using assms that unfolding holds_words_def first_frame_def by simp
  have z: "read64 (mem s) (a + of_nat (8 * i)) = 0" if "i < 18" for i using f [of i] that by (simp add: nth_append)
  show ?thesis
    using z [of 0] z [of 1] z [of 2] z [of 3] z [of 4] z [of 5] z [of 6] z [of 7] z [of 8] z [of 9] z [of 10] z [of 11] z [of 12]
      z [of 13] z [of 14] z [of 15] z [of 16] z [of 17] f [of 18] f [of 19] f [of 20] f [of 21] f [of 22]
    by (simp add: read_regs_def Let_def nth_append)
qed

section \<open>Properties\<close>

text \<open>
  C2: The boot brings the kernel up. On a machine whose memory map has at most 1000 entries and enough
  usable memory above 32 MB, \<^verbatim>\<open>main\<close> reaches its idle loop. Then the page tables are well formed, active and map
  the first 512 MB to themselves; the heap is well formed, consists of one free block and lies outside
  the tables; the process table is well formed and holds the idle process; every gate leads to
  its stub, and only the system call gate is open to user code; and the interrupt controllers deliver from
  vectors 0x20 and 0x28 on, with only the timer and the keyboard line unmasked.
\<close>

theorem boot_establishes_invariants:
  fixes s :: "'a fat_scheme"
  assumes len: "length (processes s) = 16" "length (idt s) = 256"
    and n: "e820_count s \<le> 1000" and big: "unat (max_usable s) div 4096 \<le> max_blocks"
    and room: "260 \<le> card {i. 8192 \<le> i \<and> i < 8 * (unat (max_usable s) div 4096 div 8) \<and> usable_block s i}"
  shows "\<exists>s' T a h. main st s = Some s' \<and>
    pt_wf s' T \<and> T (kernel_pml4 s') = Some 0 \<and> cr3 s' = kernel_pml4 s' \<and> identity_mapped (kernel_pml4 s') (2 ^ 17) s' \<and>
    heap_inv s' [HBlock a 4072 True] \<and> of_nat a \<notin> dom T \<and> proc_wf s' \<and> process_count s' = 1 \<and>
    gates_ok st s' \<and> idtr s' = \<lparr>idt_limit = 4095, idt_base = idt_addr s\<rparr> \<and>
    io s' = h @ io s \<and> pic_ready 0x20 0x04 0xfc (pic_state PIC1_COMMAND PIC1_DATA p h) \<and>
    pic_ready 0x28 0x02 0xff (pic_state PIC2_COMMAND PIC2_DATA q h)"
proof -
  define s4 where "s4 = before_memory st s"
  define s7 where "s7 = init_kheap (vmm_init (init_pmm s4))"
  note b = before_memory_facts [OF len(2) s4_def]
  note map = boot_map [OF b(1) n]
  obtain T a where T: "pt_wf s7 T" "T (kernel_pml4 s7) = Some 0" "cr3 s7 = kernel_pml4 s7"
    "identity_mapped (kernel_pml4 s7) (2 ^ 17) s7" "heap_inv s7 [HBlock a 4072 True]" "of_nat a \<notin> dom T"
    using memory_stage [OF _ _ s7_def] big room by (auto simp: map)
  have q: "quiet s4 s7" unfolding s7_def
    by (rule quiet_trans [OF quiet_trans [OF quiet_init_pmm quiet_vmm_init] quiet_init_kheap])
  note v = quiet_vars [OF q]
  have "length (processes s7) = 16" using len(1) by (simp add: v b)
  from after_memory_facts [OF this] obtain t h h' where t: "after_memory s7 = Some t" "proc_wf t" "process_count t = 1" "pt_wf t T"
    "\<forall>w. translate (kernel_pml4 s7) w t = translate (kernel_pml4 s7) w s7" "heap_inv t [HBlock a 4072 True]"
    "kernel_pml4 t = kernel_pml4 s7" "cr3 t = cr3 s7" "idt t = idt s7" "idtr t = idtr s7"
    and io: "io t = h @ OutB 0x21 0xfc # h' @ io s7" "\<forall>e \<in> set h' \<union> set h. event_port e \<in> crtc_ports \<union> {0x40, 0x43}"
    using T(1,2,5) by blast
  obtain k where k: "io s7 = k @ io s4" "\<forall>e \<in> set k. event_port e \<in> crtc_ports" using q by (auto simp: quiet_def on_ports_def)
  obtain m where m: "io s4 = m @ io s" "pic_ready 0x20 0x04 0xff (pic_state PIC1_COMMAND PIC1_DATA p m)"
    "pic_ready 0x28 0x02 0xff (pic_state PIC2_COMMAND PIC2_DATA q m)"
    using before_memory_pics unfolding s4_def by blast
  define H where "H = h @ OutB 0x21 0xfc # h' @ k @ m"
  have ioH: "io t = H @ io s" by (simp add: H_def io k(1) m(1))
  have oth: "pic_state PIC1_COMMAND PIC1_DATA x g = x" "pic_state PIC2_COMMAND PIC2_DATA x g = x"
    if "\<forall>e \<in> set g. event_port e \<in> crtc_ports \<union> {0x40, 0x43}" for g x
    by (rule pic_state_other; use that in \<open>force simp: screen_consts PIC1_COMMAND_def PIC1_DATA_def PIC2_COMMAND_def PIC2_DATA_def\<close>)+
  have ports: "\<forall>e \<in> set h. event_port e \<in> crtc_ports \<union> {0x40, 0x43}" "\<forall>e \<in> set (h' @ k). event_port e \<in> crtc_ports \<union> {0x40, 0x43}"
    using io(2) k(2) by auto
  have split: "pic_state c d x H = pic_state c d (pic_state c d (pic_state c d (pic_state c d x m) (h' @ k)) [OutB 0x21 0xfc]) h" for c d x
    unfolding H_def using pic_state_append [of c d x "h @ [OutB 0x21 0xfc] @ (h' @ k)" m] by (simp add: pic_state_append)
  have "pic_ready 0x20 0x04 0xfc (pic_state PIC1_COMMAND PIC1_DATA p H)"
    using m(2) unfolding split oth(1) [OF ports(1)] oth(1) [OF ports(2)]
    by (simp add: pic_ready_def PIC1_COMMAND_def PIC1_DATA_def pic_data_def)
  moreover have "pic_ready 0x28 0x02 0xff (pic_state PIC2_COMMAND PIC2_DATA q H)"
    using m(3) unfolding split oth(2) [OF ports(1)] oth(2) [OF ports(2)]
    by (simp add: PIC2_COMMAND_def PIC2_DATA_def)
  moreover have "main st s = Some t" using t(1) by (simp add: main_stages s4_def s7_def)
  moreover have "gates_ok st t" using b(2) by (simp add: gates_ok_def t(9) v)
  moreover have "identity_mapped (kernel_pml4 t) (2 ^ 17) t" using T(4) t(5) by (simp add: identity_mapped_def t(7))
  moreover have "T (kernel_pml4 t) = Some 0" "cr3 t = kernel_pml4 t" using T(2,3) t(7,8) by simp_all
  moreover have "idtr t = \<lparr>idt_limit = 4095, idt_base = idt_addr s\<rparr>" using b(4) by (simp add: t(10) v)
  ultimately show ?thesis using t(2,3,4,6) T(6) ioH
    by (intro exI [of _ t] exI [of _ T] exI [of _ a] exI [of _ H]) simp
qed


section \<open>Witnesses\<close>

text \<open>A machine with 128 MB of memory.\<close>

definition boot_machine :: fat where
  "boot_machine = fat_machine\<lparr>mem := map_128M\<rparr>"

definition boot_stubs :: isr_stubs where
  "boot_stubs = \<lparr>isr0 = 0x1000, isr8 = 0x1100, isr13 = 0x1200, isr14 = 0x1300, irq0 = 0x1400, irq1 = 0x1500, isr128 = 0x1600\<rparr>"

lemma boot_machine_tables: "length (processes boot_machine) = 16" "length (idt boot_machine) = 256"
  by (simp_all add: boot_machine_def fat_machine_def process.extend_def fat.fields_def proc_machine_table)
    (simp add: proc_machine_def interrupts.extend_def process.fields_def idt_machine_entries)

theorem boot_establishes_invariants_witness:
  "\<exists>s' T a. main boot_stubs boot_machine = Some s' \<and> pt_wf s' T \<and> heap_inv s' [HBlock a 4072 True] \<and> proc_wf s' \<and>
     gate_ok (idt s' ! 128) 0x1600 0xee"
proof -
  have m: "mem boot_machine = mem (map_machine map_128M)" by (simp add: boot_machine_def map_machine_def)
  have ent: "e820_count boot_machine = e820_count (map_machine map_128M)" "e820_entry boot_machine = e820_entry (map_machine map_128M)"
    by (simp_all add: e820_count_def e820_entry_def m fun_eq_iff)
  have "max_usable boot_machine = max_usable (map_machine map_128M)" unfolding max_usable_def ent ..
  note map = ent this
  let ?A = "{i. 8192 \<le> i \<and> i < 8 * (unat (max_usable boot_machine) div 4096 div 8) \<and> usable_block boot_machine i}"
  have sub: "{8192..<8452} \<subseteq> ?A"
    by (auto simp: usable_block_def map map_128M_entry map_max_usable entry_covers_def)
  have "finite ?A" by (rule finite_subset [of _ "{..<8 * (unat (max_usable boot_machine) div 4096 div 8)}"]) auto
  from card_mono [OF this sub] have room: "260 \<le> card ?A" by simp
  from boot_establishes_invariants [OF boot_machine_tables _ _ room, of boot_stubs]
  show ?thesis by (force simp: map map_128M_entry map_max_usable max_blocks_def gates_ok_def boot_stubs_def)
qed


end
