(* ===== verification/Spec2Isabelle.thy ===== *)
theory Spec2Isabelle
  imports Boot
begin

text \<open>
  A verification library for OS_eojin, a small kernel for x86-64 written in C.

  \<^bold>\<open>The program.\<close> The boot loader (assembly) enters \<^verbatim>\<open>main\<close> of \<^verbatim>\<open>src/kernel/kernel.c\<close> in long mode and leaves the memory map
  of the firmware at \<^verbatim>\<open>0x5000\<close>. \<^verbatim>\<open>main\<close> installs the interrupt gates, programs the interrupt controllers and the timer,
  and initialises the segments, the physical memory manager, the page tables, the heap and the process table; then
  it waits for interrupts. The timer interrupt calls the scheduler. The keyboard interrupt collects a line
  and hands it to the shell, which works on a FAT16 volume through the disk driver and starts programs: it
  reads the file to memory, maps it as an ELF file or as a flat binary, and creates a process that the scheduler
  enters later. Programs call the kernel with interrupt 0x80, to print and to exit.

  \<^bold>\<open>The theories\<close>, from the bottom up, with the sources they model:

  \<^item> \<open>Kernel_Prelude\<close>: words, regions of addresses, loads and stores of little-endian values, arrays with bounds.
  \<^item> \<open>Machine\<close> (\<^verbatim>\<open>ports.c\<close>): memory, the history of port accesses, and the devices as functions of that history. The
    relation \<open>touches\<close> says which memory a step may change, \<open>on_ports\<close> which ports it uses.
  \<^item> \<open>Utils\<close> (\<^verbatim>\<open>utils.c\<close>), \<open>Screen\<close> (\<^verbatim>\<open>drivers/screen.c\<close>), \<open>Memory_Map\<close> (\<^verbatim>\<open>memory.c\<close>).
  \<^item> \<open>Pmm\<close> (\<^verbatim>\<open>pmm.c\<close>), \<open>Kheap\<close> and \<open>Heap_Buffers\<close> (\<^verbatim>\<open>kheap.c\<close>), \<open>Vmm\<close> (\<^verbatim>\<open>vmm.c\<close>), \<open>Elf\<close> (\<^verbatim>\<open>elf.c\<close>).
  \<^item> \<open>Gdt\<close> (\<^verbatim>\<open>cpu/gdt.c\<close>), \<open>Interrupt_Setup\<close> (\<^verbatim>\<open>idt.c\<close>, \<^verbatim>\<open>pic.c\<close>, \<^verbatim>\<open>drivers/timer.c\<close>), \<open>Process\<close> (\<^verbatim>\<open>process/process.c\<close>).
  \<^item> \<open>Ata\<close> (\<^verbatim>\<open>drivers/ata.c\<close>), \<open>Kernel_Monad\<close> (state with faults and non-termination), \<open>Fat\<close>, \<open>Fat_Table\<close> and
    \<open>Fat_Directory\<close> (\<^verbatim>\<open>fs/fat.c\<close>).
  \<^item> \<open>Shell\<close> and \<open>Shell_Props\<close> (\<^verbatim>\<open>user_input\<close> of \<^verbatim>\<open>kernel.c\<close>), \<open>Keyboard\<close> (\<^verbatim>\<open>drivers/keyboard.c\<close>), \<open>Isr\<close> (\<^verbatim>\<open>isr.c\<close>), \<open>Boot\<close> (\<^verbatim>\<open>main\<close>).

  \<^bold>\<open>State.\<close> Every component extends the record of the component below with its global variables, so the
  operations of a lower component work on the state of every higher one, and lemmas about \<open>touches\<close> carry over. Data that the
  code keeps in memory at addresses of its own choice (bitmap, heap headers, page tables, stacks, sector buffers,
  program images, saved registers) is in the memory of the model, byte by byte, with pointers as 64-bit
  words. Arrays that the compiler places are lists; an access outside one is a value of the type of faults, not an
  unspecified element. Global variables keep their width where wrap-around matters. The kernel uses physical addresses: its
  pointers are identity mapped (property of \<^verbatim>\<open>vmm_init\<close>), so the model reads and writes physical memory;
  only the string of a system call, a pointer of a user program, goes through the page tables.

  \<^bold>\<open>Loops and termination.\<close> Loops over a count are folds or recursive functions with a termination proof. Loops that the
  data may keep running (lists in memory, chains of clusters, busy waiting, strings in memory) are partial
  functions into \<open>option\<close>, where \<open>None\<close> is a loop that does not end; the properties state that they return. No
  fuel is used. The bounds in the hypotheses are those of the machine: at most \<open>max_blocks\<close> frames (the bitmap from
  2 MB may not reach the frames from 32 MB on), 1000 entries of the memory map (the map must end below video memory), 512 bytes per sector,
  and file addresses in the lower half of the address space.

  \<^bold>\<open>What is shown.\<close>
  \<^item> Memory: the bitmap allocator hands out the lowest free frame, no frame twice (an interpretation of the locale
    \<open>frame_allocator\<close>); \<^verbatim>\<open>kmalloc\<close> and \<^verbatim>\<open>kfree\<close> refine a first-fit allocator on a list of blocks; blocks in use are
    exclusive; mapping a page changes the translation of exactly that page, in the tables and for the CPU.
  \<^item> Programs: ELF files and flat binaries are mapped with exactly the bytes of the file (two interpretations of the
    locale \<open>page_loader\<close>); the loader always returns.
  \<^item> Processes: the table is well formed in every state that interrupts lead to; the scheduler is round robin and starves
    nobody; a new process is entered with the frame that its creation has built.
  \<^item> Files: the driver is a sector device (an interpretation of \<open>sector_device\<close>), the allocation table and the directory
    behave as maps on the medium, names are matched without regard to case.
  \<^item> Console, keyboard and shell: refinements of an abstract terminal and of a line editor, and the selection of commands
    as a table lookup.
  \<^item> Boot: from the state that the boot loader leaves, \<^verbatim>\<open>main\<close> establishes the invariants of all components at once.
  \<^item> Limits of the code: properties of kind error state what happens where the code goes wrong (overruns, lost pages,
    merged blocks that are not adjacent, shared mappings, the dead process that runs again).

  \<^bold>\<open>Not modelled.\<close> The assembly files (start, switch to long mode, entry and exit of interrupts) and \<^verbatim>\<open>src/user\<close>, programs
  that run on the kernel and consist of system call instructions. Devices are parameters, or state machines of
  this library where a property needs one (drive, CRT controller, interrupt controller, interval timer). \<^verbatim>\<open>sti\<close>, \<^verbatim>\<open>cli\<close> and
  \<^verbatim>\<open>hlt\<close> have no state: interrupts are calls of the handler between other steps, and a \<^verbatim>\<open>hlt\<close> with interrupts disabled
  ends the run. Interrupts inside a kernel function are not interleaved: the gates of the kernel disable them.
\<close>

end
